(* ===== verification/Prelude.thy ===== *)
theory Prelude
  imports Main "HOL-Library.Word" "HOL-Library.AList"
begin

text \<open>
  Shared vocabulary of the development: the faults a C program can run into, C integers as
  \<^typ>\<open>int\<close> with the wrap-around written out, C strings as \<^typ>\<open>string\<close> (without the
  terminating NUL), and the list operations and facts the component theories share.
\<close>

section \<open>Collections of facts\<close>

named_theorems c_simps \<open>rewrite rules for the C library model\<close>
named_theorems digit_simps \<open>rewrite rules for decimal digits\<close>

section \<open>Faults and results\<close>

text \<open>
  Every way a C function of the program can stop the process or leave the defined part of the
  language: a failed \<open>assert\<close> or \<open>serverAssert\<close>, a \<open>serverPanic\<close>, a dereferenced null
  pointer, an integer division by zero, an access outside an allocation, an access to an object
  that was released, a read of memory that was never written, and a pointer read as one of another type.
\<close>

datatype fault = AssertFailed | ServerPanic | NullDeref | DivByZero | OutOfBounds | UseAfterFree | UninitRead | BadCast

type_synonym 'a res = "fault + 'a"

definition bindr :: "'e + 'a \<Rightarrow> ('a \<Rightarrow> 'e + 'b) \<Rightarrow> 'e + 'b" where
  "bindr m f = (case m of Inl e \<Rightarrow> Inl e | Inr x \<Rightarrow> f x)"

lemma bindr_Inl [simp]: "bindr (Inl e) f = Inl e"
  by (simp add: bindr_def)

lemma bindr_Inr [simp]: "bindr (Inr x) f = f x"
  by (simp add: bindr_def)

lemma bindr_eq_Inr: "bindr m f = Inr y \<longleftrightarrow> (\<exists>x. m = Inr x \<and> f x = Inr y)"
  by (cases m) auto

lemma bindr_cong [fundef_cong]:
  "m = m' \<Longrightarrow> (\<And>x. m' = Inr x \<Longrightarrow> f x = g x) \<Longrightarrow> bindr m f = bindr m' g"
  by (cases m') auto

lemma bindr_assoc: "bindr (bindr m f) g = bindr m (\<lambda>x. bindr (f x) g)"
  by (cases m) auto

text \<open>\<open>serverAssert (c)\<close> followed by the rest of the function.\<close>

abbreviation assertr :: "bool \<Rightarrow> 'a res \<Rightarrow> 'a res" where
  "assertr c r \<equiv> (if c then r else Inl AssertFailed)"

text \<open>A pointer that the code dereferences: null stops the process.\<close>

definition deref :: "'a option \<Rightarrow> 'a res" where
  "deref p = (case p of None \<Rightarrow> Inl NullDeref | Some x \<Rightarrow> Inr x)"

lemma deref_simps [simp]: "deref None = Inl NullDeref" "deref (Some x) = Inr x"
  by (simp_all add: deref_def)

lemma deref_eq_Inr [simp]: "deref p = Inr x \<longleftrightarrow> p = Some x"
  by (cases p) auto

section \<open>C integers\<close>

text \<open>
  \<open>int\<close> and \<open>int32_t\<close> have 32 bits, \<open>long\<close> and \<open>long long\<close> 64 (the program is built for
  LP64). A conversion to a signed type of \<open>n\<close> bits keeps the low bits and reads them as two's
  complement.
\<close>

abbreviation INT_MAX :: int where "INT_MAX \<equiv> 2147483647"
abbreviation INT_MIN :: int where "INT_MIN \<equiv> - 2147483648"
abbreviation LLONG_MAX :: int where "LLONG_MAX \<equiv> 9223372036854775807"
abbreviation LLONG_MIN :: int where "LLONG_MIN \<equiv> - 9223372036854775808"
abbreviation ULLONG_MAX :: nat where "ULLONG_MAX \<equiv> 18446744073709551615"

definition c_int :: "int \<Rightarrow> int" where
  "c_int x = signed_take_bit 31 x"

definition c_long :: "int \<Rightarrow> int" where
  "c_long x = signed_take_bit 63 x"

definition is_int :: "int \<Rightarrow> bool" where
  "is_int x \<longleftrightarrow> INT_MIN \<le> x \<and> x \<le> INT_MAX"

definition is_long :: "int \<Rightarrow> bool" where
  "is_long x \<longleftrightarrow> LLONG_MIN \<le> x \<and> x \<le> LLONG_MAX"

lemma c_int_id: "is_int x \<Longrightarrow> c_int x = x"
  by (simp add: c_int_def is_int_def signed_take_bit_int_eq_self_iff)

lemma c_long_id: "is_long x \<Longrightarrow> c_long x = x"
  by (simp add: c_long_def is_long_def signed_take_bit_int_eq_self_iff)

lemma is_int_c_int: "is_int (c_int x)"
  using signed_take_bit_int_greater_eq_minus_exp [of 31 x] signed_take_bit_int_less_exp [of 31 x]
  by (simp add: c_int_def is_int_def)

lemma is_int_long: "is_int x \<Longrightarrow> is_long x"
  by (simp add: is_int_def is_long_def)

text \<open>Division and remainder of C truncate towards zero and trap on a zero divisor.\<close>

definition c_div :: "int \<Rightarrow> int \<Rightarrow> int res" where
  "c_div a b = (if b = 0 then Inl DivByZero else Inr (sgn a * sgn b * (\<bar>a\<bar> div \<bar>b\<bar>)))"

definition c_mod :: "int \<Rightarrow> int \<Rightarrow> int res" where
  "c_mod a b = (if b = 0 then Inl DivByZero else Inr (sgn a * (\<bar>a\<bar> mod \<bar>b\<bar>)))"

lemma c_div_pos: "0 \<le> a \<Longrightarrow> 0 < b \<Longrightarrow> c_div a b = Inr (a div b)"
  by (cases "a = 0") (auto simp: c_div_def)

lemma c_mod_pos: "0 \<le> a \<Longrightarrow> 0 < b \<Longrightarrow> c_mod a b = Inr (a mod b)"
  by (cases "a = 0") (auto simp: c_mod_def)

section \<open>Lists split at a delimiter\<close>

lemma takeWhile_append_stop:
  "\<forall>x \<in> set xs. P x \<Longrightarrow> \<not> P y \<Longrightarrow> takeWhile P (xs @ y # ys) = xs"
  by (induction xs) auto

lemma dropWhile_append_stop:
  "\<forall>x \<in> set xs. P x \<Longrightarrow> \<not> P y \<Longrightarrow> dropWhile P (xs @ y # ys) = y # ys"
  by (induction xs) auto

text \<open>A text up to the first delimiter determines both halves of a concatenation.\<close>

lemma split_at_unique:
  assumes "c \<notin> set xs" and "c \<notin> set ys" and "xs @ c # as = ys @ c # bs"
  shows "xs = ys \<and> as = bs"
  using assms
proof (induction xs arbitrary: ys)
  case Nil
  then show ?case by (cases ys) auto
next
  case (Cons x xs)
  then show ?case by (cases ys) auto
qed

lemma dropWhile_hd_keep: "xs \<noteq> [] \<Longrightarrow> \<not> P (hd xs) \<Longrightarrow> dropWhile P xs = xs"
  by (cases xs) auto

lemma dropWhile_all: "\<forall>x \<in> set xs. P x \<Longrightarrow> dropWhile P xs = []"
  by (induction xs) auto

lemma takeWhile_all: "\<forall>x \<in> set xs. P x \<Longrightarrow> takeWhile P xs = xs"
  by (induction xs) auto

lemma dropWhile_length_less: "xs \<noteq> [] \<Longrightarrow> P (hd xs) \<Longrightarrow> length (dropWhile P xs) < length xs"
  using length_dropWhile_le [of P "tl xs"] by (cases xs) auto

section \<open>Lists joined by a separator\<close>

fun join :: "'a list \<Rightarrow> 'a list list \<Rightarrow> 'a list" where
  "join sep [] = []"
| "join sep [x] = x"
| "join sep (x # y # ys) = x @ sep @ join sep (y # ys)"

lemma join_Cons: "join sep (x # xs) = x @ (if xs = [] then [] else sep @ join sep xs)"
  by (cases xs) auto

lemma join_take_drop:
  "k < length xs \<Longrightarrow> join sep xs = concat (map (\<lambda>x. x @ sep) (take k xs)) @ join sep (drop k xs)"
proof (induction xs arbitrary: k)
  case (Cons x xs)
  then show ?case by (cases k) (auto simp: join_Cons)
qed simp

lemma join_snoc: "join sep (xs @ [x]) = concat (map (\<lambda>x. x @ sep) xs) @ x"
  using join_take_drop [of "length xs" "xs @ [x]" sep] by simp

end
