(* ===== verification/CLib.thy ===== *)
theory CLib
  imports Prelude
begin

text \<open>
  The C library functions the program uses on text: character classes of the C locale, decimal
  conversion (\<open>printf\<close> of integers, \<open>atoi\<close>, \<open>strtoll\<close>), \<open>strcasecmp\<close> and
  \<open>strtok_r\<close>. A C string is a \<^typ>\<open>string\<close> without NUL; \<open>cstr\<close> cuts a buffer at its
  first NUL.
\<close>

section \<open>Characters\<close>

abbreviation NUL :: char where "NUL \<equiv> CHR 0x00"

definition cstr :: "string \<Rightarrow> string" where
  "cstr s = takeWhile (\<lambda>c. c \<noteq> NUL) s"

definition is_digit :: "char \<Rightarrow> bool" where
  "is_digit c \<longleftrightarrow> 48 \<le> (of_char c :: nat) \<and> (of_char c :: nat) \<le> 57"

definition is_space :: "char \<Rightarrow> bool" where
  "is_space c \<longleftrightarrow> (of_char c :: nat) = 32 \<or> (9 \<le> (of_char c :: nat) \<and> (of_char c :: nat) \<le> 13)"

definition digit_val :: "char \<Rightarrow> nat" where
  "digit_val c = of_char c - 48"

definition digit_char :: "nat \<Rightarrow> char" where
  "digit_char d = char_of (48 + d)"

text \<open>\<open>tolower\<close> in the C locale.\<close>

definition tolower :: "char \<Rightarrow> char" where
  "tolower c = (let n = (of_char c :: nat) in if 65 \<le> n \<and> n \<le> 90 then char_of (n + 32) else c)"

text \<open>\<open>strcasecmp (a, b) == 0\<close>.\<close>

definition strcaseeq :: "string \<Rightarrow> string \<Rightarrow> bool" where
  "strcaseeq a b \<longleftrightarrow> map tolower a = map tolower b"

text \<open>The value of a \<open>char\<close> converted to \<open>int\<close>: \<open>char\<close> is signed.\<close>

definition schar :: "char \<Rightarrow> int" where
  "schar c = signed_take_bit 7 (int (of_char c))"

section \<open>Decimal text\<close>

fun print_nat :: "nat \<Rightarrow> string" where
  "print_nat n = (if n < 10 then [digit_char n] else print_nat (n div 10) @ [digit_char (n mod 10)])"

declare print_nat.simps [simp del]

definition print_int :: "int \<Rightarrow> string" where
  "print_int i = (if i < 0 then CHR ''-'' # print_nat (nat (- i)) else print_nat (nat i))"

definition digits_val :: "string \<Rightarrow> nat" where
  "digits_val s = foldl (\<lambda>a c. 10 * a + digit_val c) 0 s"

text \<open>
  \<open>strtoll (s, \<dots>, 10)\<close>: leading blanks, an optional sign, the longest run of digits, clamped
  to the range of \<open>long long\<close>; with the unread rest (the whole text when there is no digit). \<open>atoi\<close> is \<open>strtol\<close> narrowed to
  \<open>int\<close>.
\<close>

definition strtoll :: "string \<Rightarrow> int \<times> string" where
  "strtoll s =
     (let s1 = dropWhile is_space s;
          neg = (s1 \<noteq> [] \<and> hd s1 = CHR ''-'');
          s2 = (if s1 \<noteq> [] \<and> (hd s1 = CHR ''-'' \<or> hd s1 = CHR ''+'') then tl s1 else s1);
          v = int (digits_val (takeWhile is_digit s2));
          w = (if neg then - v else v)
      in if takeWhile is_digit s2 = [] then (0, s)
         else (max LLONG_MIN (min LLONG_MAX w), dropWhile is_digit s2))"

definition atoi :: "string \<Rightarrow> int" where
  "atoi s = c_int (fst (strtoll s))"

section \<open>\<open>strtok_r\<close>\<close>

text \<open>
  \<open>strtok_r (s, delim, &save)\<close>: skip delimiters, return the text up to the next one (none when
  only delimiters are left) and keep what follows it. The second component is \<open>*save\<close>.
\<close>

definition strtok_r :: "string \<Rightarrow> string \<Rightarrow> string option \<times> string" where
  "strtok_r delim s =
     (let s' = dropWhile (\<lambda>c. c \<in> set delim) s
      in if s' = [] then (None, [])
         else (Some (takeWhile (\<lambda>c. c \<notin> set delim) s'), drop 1 (dropWhile (\<lambda>c. c \<notin> set delim) s')))"

section \<open>Facts on digits\<close>

lemma of_char_digit_char [digit_simps]: "d < 10 \<Longrightarrow> (of_char (digit_char d) :: nat) = 48 + d"
  by (simp add: digit_char_def)

lemma is_digit_digit_char [digit_simps]: "d < 10 \<Longrightarrow> is_digit (digit_char d)"
  by (simp add: is_digit_def of_char_digit_char)

lemma digit_val_digit_char [digit_simps]: "d < 10 \<Longrightarrow> digit_val (digit_char d) = d"
  by (simp add: digit_val_def of_char_digit_char)

lemma digit_val_less: "is_digit c \<Longrightarrow> digit_val c < 10"
  by (auto simp: is_digit_def digit_val_def)

lemma digit_char_digit_val [digit_simps]: "is_digit c \<Longrightarrow> digit_char (digit_val c) = c"
  by (simp add: is_digit_def digit_val_def digit_char_def)

lemma digit_char_inj: "a < 10 \<Longrightarrow> b < 10 \<Longrightarrow> digit_char a = digit_char b \<longleftrightarrow> a = b"
  by (metis digit_val_digit_char)

lemma digit_char_0: "digit_char 0 = CHR ''0''"
  by code_simp

lemma digit_val_zero: "is_digit c \<Longrightarrow> digit_val c = 0 \<longleftrightarrow> c = CHR ''0''"
  by (metis digit_char_0 digit_char_digit_val digit_val_digit_char zero_less_numeral)

lemma digits_val_Nil [simp]: "digits_val [] = 0"
  by (simp add: digits_val_def)

lemma digits_val_snoc [simp]: "digits_val (s @ [c]) = 10 * digits_val s + digit_val c"
  by (simp add: digits_val_def)

lemma print_nat_small: "n < 10 \<Longrightarrow> print_nat n = [digit_char n]"
  by (simp add: print_nat.simps)

lemma print_nat_big: "10 \<le> n \<Longrightarrow> print_nat n = print_nat (n div 10) @ [digit_char (n mod 10)]"
  by (subst print_nat.simps) simp

lemma print_nat_not_Nil [simp]: "print_nat n \<noteq> []"
  by (subst print_nat.simps) simp

lemma print_nat_digits: "\<forall>c \<in> set (print_nat n). is_digit c"
proof (induction n rule: print_nat.induct)
  case (1 n)
  then show ?case
    by (cases "n < 10") (simp_all add: print_nat_small print_nat_big is_digit_digit_char)
qed

lemma digits_val_print_nat [simp]: "digits_val (print_nat n) = n"
proof (induction n rule: print_nat.induct)
  case (1 n)
  show ?case
  proof (cases "n < 10")
    case True
    then show ?thesis
      using digits_val_snoc [of "[]"] by (simp add: print_nat_small digit_val_digit_char)
  next
    case False
    with 1 show ?thesis by (simp add: print_nat_big digit_val_digit_char)
  qed
qed

lemma print_nat_inj [simp]: "print_nat a = print_nat b \<longleftrightarrow> a = b"
  by (metis digits_val_print_nat)

lemma hd_print_nat_zero: "hd (print_nat n) = CHR ''0'' \<longleftrightarrow> n = 0"
proof (induction n rule: print_nat.induct)
  case (1 n)
  show ?case
  proof (cases "n < 10")
    case True
    then show ?thesis
      using digit_char_inj [of n 0] by (simp add: print_nat_small digit_char_0)
  next
    case False
    with 1 have "hd (print_nat (n div 10)) = CHR ''0'' \<longleftrightarrow> n div 10 = 0" by simp
    with False show ?thesis by (simp add: print_nat_big)
  qed
qed

text \<open>A digit string without a leading zero is the decimal text of its value.\<close>

lemma digits_val_pos:
  assumes "s \<noteq> []" and "\<forall>c \<in> set s. is_digit c" and "hd s \<noteq> CHR ''0''"
  shows "0 < digits_val s"
  using assms
proof (induction s rule: rev_induct)
  case Nil
  then show ?case by simp
next
  case (snoc c s)
  show ?case
  proof (cases "s = []")
    case True
    with snoc.prems have "digit_val c \<noteq> 0" by (simp add: digit_val_zero)
    with True show ?thesis using digits_val_snoc [of "[]" c] by simp
  next
    case False
    with snoc have "0 < digits_val s" by simp
    then show ?thesis by simp
  qed
qed

lemma print_nat_digits_val:
  assumes "s \<noteq> []" and "\<forall>c \<in> set s. is_digit c" and "hd s \<noteq> CHR ''0''"
  shows "print_nat (digits_val s) = s"
  using assms
proof (induction s rule: rev_induct)
  case Nil
  then show ?case by simp
next
  case (snoc c s)
  have c: "digit_val c < 10" "digit_char (digit_val c) = c"
    using snoc.prems by (simp_all add: digit_val_less digit_simps)
  show ?case
  proof (cases "s = []")
    case True
    with c show ?thesis using digits_val_snoc [of "[]" c] by (simp add: print_nat_small)
  next
    case False
    with snoc have s: "print_nat (digits_val s) = s" "0 < digits_val s"
      by (simp_all add: digits_val_pos)
    from s(2) have "10 \<le> digits_val (s @ [c])" by simp
    with s(1) c show ?thesis by (simp add: print_nat_big)
  qed
qed

lemma digit_not_special: "is_digit c \<Longrightarrow> c \<noteq> CHR ''-'' \<and> c \<noteq> CHR ''+'' \<and> \<not> is_space c"
  by (auto simp: is_digit_def is_space_def)

lemma minus_not_space: "\<not> is_space CHR ''-''" "\<not> is_digit CHR ''-''"
  by (simp_all add: is_space_def is_digit_def)

lemma hd_print_nat_digit: "is_digit (hd (print_nat n))"
  using print_nat_digits [of n] by (metis hd_in_set print_nat_not_Nil)

lemma print_int_not_Nil [simp]: "print_int i \<noteq> []"
  by (simp add: print_int_def)

lemma print_int_chars: "c \<in> set (print_int i) \<Longrightarrow> is_digit c \<or> c = CHR ''-''"
  using print_nat_digits by (auto simp: print_int_def split: if_splits)

lemma print_int_inj [simp]: "print_int a = print_int b \<longleftrightarrow> a = b"
proof
  assume eq: "print_int a = print_int b"
  have neq: "CHR ''-'' # xs \<noteq> print_nat n" for xs n
    using hd_print_nat_digit [of n] minus_not_space(2) by (metis list.sel(1))
  show "a = b"
  proof (cases "a < 0"; cases "b < 0")
    assume "a < 0" "b < 0"
    with eq show ?thesis by (simp add: print_int_def)
  next
    assume "\<not> a < 0" "\<not> b < 0"
    with eq show ?thesis by (simp add: print_int_def)
  qed (use eq neq neq [symmetric] in \<open>auto simp: print_int_def\<close>)
qed simp

text \<open>Where the decimal text of an integer ends, given what follows is not a digit.\<close>

lemma takeWhile_print_nat:
  "r = [] \<or> \<not> is_digit (hd r) \<Longrightarrow> takeWhile is_digit (print_nat n @ r) = print_nat n"
  using print_nat_digits [of n] by (cases r) (auto simp: takeWhile_append_stop takeWhile_all)

lemma dropWhile_print_nat:
  "r = [] \<or> \<not> is_digit (hd r) \<Longrightarrow> dropWhile is_digit (print_nat n @ r) = r"
  using print_nat_digits [of n] by (cases r) (auto simp: dropWhile_append_stop dropWhile_all)

lemma strtoll_print_int:
  assumes "r = [] \<or> \<not> is_digit (hd r)" and "is_long i"
  shows "strtoll (print_int i @ r) = (i, r)"
proof (cases "i < 0")
  case True
  with assms show ?thesis
    by (simp add: strtoll_def print_int_def minus_not_space takeWhile_print_nat
        dropWhile_print_nat is_long_def)
next
  case False
  have h: "is_digit (hd (print_nat (nat i) @ r))" "print_nat (nat i) @ r \<noteq> []"
    using hd_print_nat_digit [of "nat i"] by simp_all
  then have d: "dropWhile is_space (print_nat (nat i) @ r) = print_nat (nat i) @ r"
    using digit_not_special by (intro dropWhile_hd_keep) auto
  have "hd (print_nat (nat i) @ r) \<noteq> CHR ''-''" "hd (print_nat (nat i) @ r) \<noteq> CHR ''+''"
    using digit_not_special [OF h(1)] by auto
  with False assms d h(2) show ?thesis
    by (simp add: strtoll_def print_int_def takeWhile_print_nat dropWhile_print_nat is_long_def
        del: hd_append2)
qed

lemma atoi_print_int:
  assumes "r = [] \<or> \<not> is_digit (hd r)" and "is_int i"
  shows "atoi (print_int i @ r) = i"
  using assms by (simp add: atoi_def strtoll_print_int is_int_long c_int_id)

lemma atoi_print_int_Nil [simp]: "is_int i \<Longrightarrow> atoi (print_int i) = i"
  using atoi_print_int [of "[]" i] by simp

section \<open>Facts on \<open>strtok_r\<close>\<close>

lemma strtok_r_token:
  assumes "t \<noteq> []" and "\<forall>c \<in> set t. c \<notin> set delim" and "\<forall>c \<in> set p. c \<in> set delim"
    and "d \<in> set delim"
  shows "strtok_r delim (p @ t @ d # r) = (Some t, r)"
proof -
  have "dropWhile (\<lambda>c. c \<in> set delim) (p @ t @ d # r) = t @ d # r"
    using assms(1-3) by (induction p) (auto simp: dropWhile_hd_keep)
  with assms show ?thesis
    by (simp add: strtok_r_def takeWhile_append_stop dropWhile_append_stop)
qed

lemma strtok_r_last:
  assumes "t \<noteq> []" and "\<forall>c \<in> set t. c \<notin> set delim" and "\<forall>c \<in> set p. c \<in> set delim"
  shows "strtok_r delim (p @ t) = (Some t, [])"
proof -
  have "dropWhile (\<lambda>c. c \<in> set delim) (p @ t) = t"
    using assms by (induction p) (auto simp: dropWhile_hd_keep)
  with assms show ?thesis
    by (simp add: strtok_r_def takeWhile_all dropWhile_all)
qed

lemma strtok_r_none: "\<forall>c \<in> set s. c \<in> set delim \<Longrightarrow> strtok_r delim s = (None, [])"
  by (simp add: strtok_r_def dropWhile_all)

lemma strtok_r_shorter: "strtok_r delim s = (Some t, r) \<Longrightarrow> length r < length s"
proof -
  assume a: "strtok_r delim s = (Some t, r)"
  define s' where "s' = dropWhile (\<lambda>c. c \<in> set delim) s"
  have ne: "s' \<noteq> []" using a by (auto simp: strtok_r_def s'_def Let_def split: if_splits)
  have r: "r = drop 1 (dropWhile (\<lambda>c. c \<notin> set delim) s')"
    using a ne by (auto simp: strtok_r_def s'_def Let_def split: if_splits)
  have "length r \<le> length (dropWhile (\<lambda>c. c \<notin> set delim) s') - 1"
    by (simp add: r)
  also have "\<dots> < length s'"
    using length_dropWhile_le [of "\<lambda>c. c \<notin> set delim" s'] ne by (cases s') auto
  also have "\<dots> \<le> length s" by (simp add: s'_def length_dropWhile_le)
  finally show ?thesis .
qed

end
