(* ===== verification/Util.thy ===== *)
theory Util
  imports CLib
begin

text \<open>
  \<open>src/src/util.c\<close>: decimal conversion (\<open>digits10\<close>, \<open>sdigits10\<close>, \<open>ll2string\<close>,
  \<open>string2ll\<close>, \<open>string2l\<close>), memory sizes (\<open>memtoll\<close>) and glob matching
  (\<open>stringmatchlen\<close>, \<open>stringmatch\<close>). The conversions are shown to be inverse to each other
  on their whole range.
\<close>

section \<open>Definitions\<close>

subsection \<open>Number of decimal digits\<close>

fun digits10 :: "nat \<Rightarrow> nat" where
  "digits10 v =
     (if v < 10 then 1
      else if v < 100 then 2
      else if v < 1000 then 3
      else if v < 1000000000000 then
        (if v < 100000000 then
           (if v < 1000000 then
              (if v < 10000 then 4 else 5 + (if v \<ge> 100000 then 1 else 0))
            else 7 + (if v \<ge> 10000000 then 1 else 0))
         else if v < 10000000000 then 9 + (if v \<ge> 1000000000 then 1 else 0)
         else 11 + (if v \<ge> 100000000000 then 1 else 0))
      else 12 + digits10 (v div 1000000000000))"

declare digits10.simps [simp del]

text \<open>
  Of a signed value: the magnitude is negated as \<open>uint64_t\<close>, with \<open>LLONG_MIN\<close> apart, and
  the sign counts one character.
\<close>

definition sdigits10 :: "int \<Rightarrow> nat" where
  "sdigits10 v =
     (if v < 0 then
        digits10 (if v \<noteq> LLONG_MIN then nat (- v) else nat LLONG_MAX + 1) + 1
      else digits10 (nat v))"

subsection \<open>Integer to text\<close>

definition digit_pairs :: string where
  "digit_pairs =
     ''0001020304050607080910111213141516171819''
     @ ''2021222324252627282930313233343536373839''
     @ ''4041424344454647484950515253545556575859''
     @ ''6061626364656667686970717273747576777879''
     @ ''8081828384858687888990919293949596979899''"

text \<open>
  The loop writes two digits per turn from the end of \<open>dst\<close> towards its start; the last one
  or two digits follow it. \<open>dst\<close> is the buffer, \<open>next\<close> the index of the next write.
\<close>

fun ll2string_loop :: "string \<Rightarrow> nat \<Rightarrow> nat \<Rightarrow> string \<times> nat \<times> nat" where
  "ll2string_loop dst nxt value =
     (if value \<ge> 100 then
        let i = (value mod 100) * 2
        in ll2string_loop (dst[nxt := digit_pairs ! (i + 1), nxt - 1 := digit_pairs ! i])
             (nxt - 2) (value div 100)
      else (dst, nxt, value))"

declare ll2string_loop.simps [simp del]

definition ll2string_last :: "string \<Rightarrow> nat \<Rightarrow> nat \<Rightarrow> string" where
  "ll2string_last dst nxt value =
     (if value < 10 then dst[nxt := digit_char value]
      else dst[nxt := digit_pairs ! (value * 2 + 1), nxt - 1 := digit_pairs ! (value * 2)])"

text \<open>
  \<open>ll2string (dst, dstlen, svalue)\<close>: the result is the number of characters (0 when the buffer
  is too small, which leaves it as it was) and the buffer.
\<close>

definition ll2string :: "string \<Rightarrow> nat \<Rightarrow> int \<Rightarrow> nat \<times> string" where
  "ll2string dst dstlen svalue =
     (let negative = svalue < 0;
          value = (if svalue < 0
                   then (if svalue \<noteq> LLONG_MIN then nat (- svalue) else nat LLONG_MAX + 1)
                   else nat svalue);
          len = digits10 value + (if negative then 1 else 0)
      in if len \<ge> dstlen then (0, dst)
         else
           let (dst, nxt, value) = ll2string_loop (dst[len := NUL]) (len - 1) value;
               dst = ll2string_last dst nxt value;
               dst = (if negative then dst[0 := CHR ''-''] else dst)
           in (len, dst))"

subsection \<open>Text to integer\<close>

text \<open>
  The digit loop of \<open>string2ll\<close>. The accumulator is an \<open>unsigned long long\<close>; both overflow
  tests come before the operation they guard, so it never wraps. Nothing is the overflow return;
  otherwise the accumulator and the unread text.
\<close>

fun string2ll_loop :: "nat \<Rightarrow> string \<Rightarrow> (nat \<times> string) option" where
  "string2ll_loop v [] = Some (v, [])"
| "string2ll_loop v (c # cs) =
     (if is_digit c then
        if v > ULLONG_MAX div 10 then None
        else if v * 10 > ULLONG_MAX - digit_val c then None
        else string2ll_loop (v * 10 + digit_val c) cs
      else Some (v, c # cs))"

definition string2ll :: "string \<Rightarrow> int option" where
  "string2ll s =
     (if s = [] then None
      else if s = ''0'' then Some 0
      else
        let negative = (hd s = CHR ''-'');
            p = (if negative then tl s else s)
        in if p = [] then None
           else if hd p \<in> set ''123456789'' then
             (case string2ll_loop (digit_val (hd p)) (tl p) of
                None \<Rightarrow> None
              | Some (v, rest) \<Rightarrow>
                  if rest \<noteq> [] then None
                  else if negative then
                    (if v > nat (- (LLONG_MIN + 1)) + 1 then None else Some (- int v))
                  else (if int v > LLONG_MAX then None else Some (int v)))
           else if hd p = CHR ''0'' \<and> length s = 1 then Some 0
           else None)"

definition string2l :: "string \<Rightarrow> int option" where
  "string2l s =
     (case string2ll s of
        None \<Rightarrow> None
      | Some llval \<Rightarrow>
          if llval < LLONG_MIN \<or> llval > LLONG_MAX then None else Some llval)"

subsection \<open>Memory sizes\<close>

text \<open>
  \<open>memtoll\<close>: the unit after the leading digits gives the multiplier; the digits, with their
  sign, go through \<open>strtoll\<close> in a buffer of 128 bytes. Nothing is the error return
  (\<open>*err = 1\<close>). The product is a \<open>long long\<close>.
\<close>

definition mem_unit :: "string \<Rightarrow> int option" where
  "mem_unit u =
     (if u = [] \<or> strcaseeq u ''b'' then Some 1
      else if strcaseeq u ''k'' then Some 1000
      else if strcaseeq u ''kb'' then Some 1024
      else if strcaseeq u ''m'' then Some (1000 * 1000)
      else if strcaseeq u ''mb'' then Some (1024 * 1024)
      else if strcaseeq u ''g'' then Some (1000 * 1000 * 1000)
      else if strcaseeq u ''gb'' then Some (1024 * 1024 * 1024)
      else None)"

definition memtoll :: "string \<Rightarrow> int option" where
  "memtoll p =
     (let sign = (if p \<noteq> [] \<and> hd p = CHR ''-'' then ''-'' else []);
          body = (if p \<noteq> [] \<and> hd p = CHR ''-'' then tl p else p);
          u = dropWhile is_digit body;
          num = sign @ takeWhile is_digit body
      in case mem_unit u of
           None \<Rightarrow> None
         | Some mul \<Rightarrow>
             if length num \<ge> 128 then None
             else
               let (val, endptr) = strtoll num
               in if endptr \<noteq> [] then None else Some (c_long (val * mul)))"

section \<open>Decimal conversion is exact\<close>

lemma ten_le_power: "(10 :: nat) \<le> 10 ^ Suc k"
  by simp

lemma print_nat_length:
  "10 ^ k \<le> n \<Longrightarrow> n < 10 ^ Suc k \<Longrightarrow> length (print_nat n) = Suc k"
proof (induction k arbitrary: n)
  case 0
  then show ?case by (simp add: print_nat_small)
next
  case (Suc k)
  have "10 ^ k \<le> n div 10" "n div 10 < 10 ^ Suc k"
    using Suc.prems by (simp_all add: less_eq_div_iff_mult_less_eq div_less_iff_less_mult mult.commute)
  then have "length (print_nat (n div 10)) = Suc k" by (rule Suc.IH)
  moreover have "10 \<le> n" using Suc.prems(1) ten_le_power [of k] by linarith
  ultimately show ?case by (simp add: print_nat_big)
qed

lemma print_nat_length_div:
  "10 ^ k \<le> n \<Longrightarrow> length (print_nat n) = k + length (print_nat (n div 10 ^ k))"
proof (induction k arbitrary: n)
  case 0
  then show ?case by simp
next
  case (Suc k)
  have "10 ^ k \<le> n div 10"
    using Suc.prems by (simp add: less_eq_div_iff_mult_less_eq mult.commute)
  then have "length (print_nat (n div 10)) = k + length (print_nat (n div 10 div 10 ^ k))"
    by (rule Suc.IH)
  moreover have "10 \<le> n" using Suc.prems ten_le_power [of k] by linarith
  ultimately show ?case by (simp add: print_nat_big div_mult2_eq [symmetric])
qed

lemma digits10_length: "digits10 n = length (print_nat n)"
proof (induction n rule: digits10.induct)
  case (1 n)
  note len = print_nat_length [of 1 n] print_nat_length [of 2 n] print_nat_length [of 3 n]
    print_nat_length [of 4 n] print_nat_length [of 5 n] print_nat_length [of 6 n]
    print_nat_length [of 7 n] print_nat_length [of 8 n] print_nat_length [of 9 n]
    print_nat_length [of 10 n] print_nat_length [of 11 n]
  show ?case
  proof (cases "n < 1000000000000")
    case True
    then show ?thesis
      using len by (subst digits10.simps) (simp add: print_nat_small)
  next
    case False
    then show ?thesis
      using 1 print_nat_length_div [of 12 n] by (subst digits10.simps) simp
  qed
qed

lemma sdigits10_length: "is_long i \<Longrightarrow> sdigits10 i = length (print_int i)"
  by (simp add: sdigits10_def print_int_def digits10_length)

subsection \<open>\<open>ll2string\<close> writes the decimal text\<close>

lemma digit_pairs_table:
  "map (\<lambda>k. (digit_pairs ! (2 * k), digit_pairs ! (2 * k + 1))) [0..<100] =
   map (\<lambda>k. (digit_char (k div 10), digit_char (k mod 10))) [0..<100]"
  by code_simp

lemma digit_pairs_nth:
  assumes "k < 100"
  shows "digit_pairs ! (k * 2) = digit_char (k div 10)"
    and "digit_pairs ! Suc (k * 2) = digit_char (k mod 10)"
  using assms digit_pairs_table [THEN arg_cong, of "\<lambda>xs. xs ! k"] by (simp_all add: mult.commute)

lemma print_nat_two:
  assumes "100 \<le> n"
  shows "print_nat n =
    print_nat (n div 100) @ [digit_char (n mod 100 div 10), digit_char (n mod 100 mod 10)]"
proof -
  have "print_nat n = print_nat (n div 10) @ [digit_char (n mod 10)]"
    using assms by (simp add: print_nat_big)
  also have "print_nat (n div 10) = print_nat (n div 10 div 10) @ [digit_char (n div 10 mod 10)]"
    using assms by (intro print_nat_big) simp
  finally show ?thesis
    using assms by (simp add: div_mult2_eq [symmetric] mod_mult2_eq [of n 10 10, simplified])
qed

lemma drop_update_two:
  "1 \<le> m \<Longrightarrow> m < length xs \<Longrightarrow> drop (m - 1) (xs[m := b, m - 1 := a]) = a # b # drop (Suc m) xs"
  by (rule nth_equalityI) (auto simp: nth_Cons nth_list_update split: nat.splits)

lemma update_two:
  assumes "1 \<le> m" and "m < length xs"
  shows "xs[m := b, m - 1 := a] = take (m - 1) xs @ a # b # drop (Suc m) xs"
proof -
  have "take (m - 1) (xs[m := b, m - 1 := a]) = take (m - 1) xs" by simp
  then show ?thesis
    using append_take_drop_id [of "m - 1" "xs[m := b, m - 1 := a]"] drop_update_two [OF assms, of b a]
    by simp
qed

lemma ll2string_loop_writes:
  assumes "Suc nxt = off + length (print_nat val)" and "nxt < length dst"
    and "ll2string_loop dst nxt val = (d, n, v)"
  shows "ll2string_last d n v = take off dst @ print_nat val @ drop (Suc nxt) dst"
  using assms
proof (induction dst nxt val rule: ll2string_loop.induct)
  case (1 dst nxt val)
  show ?case
  proof (cases "100 \<le> val")
    case True
    let ?i = "val mod 100 * 2"
    let ?d = "dst[nxt := digit_pairs ! (?i + 1), nxt - 1 := digit_pairs ! ?i]"
    have len: "length (print_nat val) = length (print_nat (val div 100)) + 2"
      unfolding print_nat_two [OF True] by simp
    have pos: "0 < length (print_nat (val div 100))" by simp
    have nxt: "Suc (nxt - 2) = off + length (print_nat (val div 100))" "2 \<le> nxt"
      using "1.prems"(1) len pos by linarith+
    have rec: "ll2string_loop ?d (nxt - 2) (val div 100) = (d, n, v)"
      using "1.prems"(3) True by (simp add: ll2string_loop.simps [of dst nxt val] Let_def)
    have s: "Suc (nxt - 2) = nxt - 1" and off: "off \<le> nxt - 1" using nxt pos by linarith+
    have IH: "ll2string_last d n v = take off ?d @ print_nat (val div 100) @ drop (nxt - 1) ?d"
      using "1.IH" [OF True refl nxt(1) _ rec] "1.prems"(2) unfolding s by simp
    have "take off ?d = take off dst" using off by simp
    moreover have "drop (nxt - 1) ?d =
        [digit_char (val mod 100 div 10), digit_char (val mod 100 mod 10)] @ drop (Suc nxt) dst"
      unfolding drop_update_two [OF le_trans [OF one_le_numeral nxt(2)] "1.prems"(2)]
      using digit_pairs_nth [of "val mod 100"] by simp
    ultimately show ?thesis unfolding IH print_nat_two [OF True] by simp
  next
    case False
    then have r: "d = dst" "n = nxt" "v = val"
      using "1.prems"(3) by (simp_all add: ll2string_loop.simps [of dst nxt val])
    show ?thesis
    proof (cases "val < 10")
      case True
      with "1.prems"(1) have "off = nxt" by (simp add: print_nat_small)
      with True r "1.prems"(2) show ?thesis
        by (simp add: ll2string_last_def print_nat_small upd_conv_take_nth_drop)
    next
      case False
      with \<open>\<not> 100 \<le> val\<close> have pn: "print_nat val = [digit_char (val div 10), digit_char (val mod 10)]"
        by (simp add: print_nat_big print_nat_small)
      with "1.prems"(1) have off: "off = nxt - 1" "1 \<le> nxt" by simp_all
      have "ll2string_last d n v =
          dst[nxt := digit_char (val mod 10), nxt - 1 := digit_char (val div 10)]"
        using False \<open>\<not> 100 \<le> val\<close> digit_pairs_nth [of val] unfolding r ll2string_last_def by simp
      then show ?thesis
        unfolding update_two [OF off(2) "1.prems"(2)] pn off(1) by simp
    qed
  qed
qed

lemma ll2string_correct:
  assumes "is_long i" and "length (print_int i) < dstlen" and "dstlen \<le> length dst"
  shows "ll2string dst dstlen i =
    (length (print_int i), print_int i @ NUL # drop (Suc (length (print_int i))) dst)"
proof -
  define neg where "neg = (i < 0)"
  define m where "m = nat \<bar>i\<bar>"
  define off where "off = (if neg then 1 else 0 :: nat)"
  let ?l = "length (print_int i)"
  have pi: "print_int i = (if neg then CHR ''-'' # print_nat m else print_nat m)"
    by (simp add: print_int_def neg_def m_def)
  have len: "off + length (print_nat m) = ?l" by (simp add: pi off_def)
  have l0: "0 < length (print_nat m)" by simp
  obtain d n v where loop: "ll2string_loop (dst[?l := NUL]) (?l - 1) m = (d, n, v)"
    by (cases "ll2string_loop (dst[?l := NUL]) (?l - 1) m") auto
  have w: "ll2string_last d n v =
      take off (dst[?l := NUL]) @ print_nat m @ drop (Suc (?l - 1)) (dst[?l := NUL])"
    using loop len l0 assms by (intro ll2string_loop_writes) auto
  have pos: "0 < ?l" by simp
  have dr: "drop (Suc (?l - 1)) (dst[?l := NUL]) = NUL # drop (Suc ?l) dst"
    using assms pos by (simp add: upd_conv_take_nth_drop)
  have v: "(if i < 0 then (if i \<noteq> LLONG_MIN then nat (- i) else nat LLONG_MAX + 1) else nat i) = m"
    by (simp add: m_def)
  have t: "(take off (dst[?l := NUL]) @ print_nat m @ x)[0 := CHR ''-''] = CHR ''-'' # print_nat m @ x"
    if neg for x
    using that assms by (cases dst) (auto simp: off_def pi)
  have "ll2string dst dstlen i =
      (?l, if neg then (ll2string_last d n v)[0 := CHR ''-''] else ll2string_last d n v)"
    using assms loop len unfolding ll2string_def v
    by (simp add: Let_def digits10_length neg_def off_def add.commute)
  then show ?thesis
    unfolding w dr using t by (simp add: pi off_def)
qed

lemma ll2string_too_small:
  assumes "is_long i" and "dstlen \<le> length (print_int i)"
  shows "ll2string dst dstlen i = (0, dst)"
  using assms by (auto simp: ll2string_def print_int_def digits10_length Let_def)

subsection \<open>\<open>string2ll\<close> accepts exactly the decimal texts\<close>

lemma foldl_digits_ge: "v \<le> foldl (\<lambda>a c. 10 * a + digit_val c) v cs"
proof (induction cs arbitrary: v)
  case Nil
  then show ?case by simp
next
  case (Cons c cs)
  have "v \<le> 10 * v + digit_val c" by simp
  also have "\<dots> \<le> foldl (\<lambda>a c. 10 * a + digit_val c) (10 * v + digit_val c) cs" by (rule Cons)
  finally show ?case by simp
qed

lemma string2ll_loop_eq:
  assumes "v \<le> ULLONG_MAX"
  shows "string2ll_loop v cs =
    (let w = foldl (\<lambda>a c. 10 * a + digit_val c) v (takeWhile is_digit cs)
     in if w \<le> ULLONG_MAX then Some (w, dropWhile is_digit cs) else None)"
  using assms
proof (induction v cs rule: string2ll_loop.induct)
  case (1 v)
  then show ?case by simp
next
  case (2 v c cs)
  show ?case
  proof (cases "is_digit c")
    case True
    let ?v = "v * 10 + digit_val c"
    have d: "digit_val c < 10" using True by (rule digit_val_less)
    show ?thesis
    proof (cases "?v \<le> ULLONG_MAX")
      case le: True
      then have "\<not> v > ULLONG_MAX div 10" "\<not> v * 10 > ULLONG_MAX - digit_val c"
        using d by simp_all
      with 2 True le show ?thesis by (simp add: Let_def mult.commute)
    next
      case False
      then have "v > ULLONG_MAX div 10 \<or> v * 10 > ULLONG_MAX - digit_val c" using d by linarith
      then have "string2ll_loop v (c # cs) = None" using True by auto
      moreover have "\<not> foldl (\<lambda>a c. 10 * a + digit_val c) ?v (takeWhile is_digit cs) \<le> ULLONG_MAX"
        using foldl_digits_ge [of ?v "takeWhile is_digit cs"] False by linarith
      ultimately show ?thesis using True by (simp add: Let_def mult.commute)
    qed
  next
    case False
    with 2 show ?thesis by simp
  qed
qed

lemma nonzero_digit: "c \<in> set ''123456789'' \<longleftrightarrow> is_digit c \<and> c \<noteq> CHR ''0''"
proof -
  have "is_digit c \<longleftrightarrow> c \<in> set (map digit_char [0..<10])"
  proof
    assume "is_digit c"
    then show "c \<in> set (map digit_char [0..<10])"
      by (metis atLeastLessThan_iff digit_char_digit_val digit_val_less image_eqI list.set_map
          set_upt zero_le)
  qed (auto simp: is_digit_digit_char)
  also have "map digit_char [0..<10] = ''0123456789''" by code_simp
  finally show ?thesis by auto
qed

text \<open>A text of one or more digits without leading zero, as \<open>string2ll\<close> reads it.\<close>

lemma string2ll_digits:
  assumes "p \<noteq> []" and "hd p \<in> set ''123456789''"
  shows "string2ll_loop (digit_val (hd p)) (tl p) = Some (v, []) \<longleftrightarrow>
    v \<le> ULLONG_MAX \<and> p = print_nat v"
proof -
  obtain c cs where p: "p = c # cs" using assms(1) by (cases p) auto
  have c: "is_digit c" "c \<noteq> CHR ''0''"
    using assms(2) nonzero_digit [of c] unfolding p list.sel by blast+
  have "digit_val c \<le> ULLONG_MAX" using digit_val_less [OF c(1)] by simp
  note eq = string2ll_loop_eq [OF this, of cs]
  have w: "foldl (\<lambda>a c. 10 * a + digit_val c) (digit_val c) xs = digits_val (c # xs)" for xs
    by (simp add: digits_val_def)
  show ?thesis
  proof
    assume l: "string2ll_loop (digit_val (hd p)) (tl p) = Some (v, [])"
    then have v: "v = digits_val (c # takeWhile is_digit cs)" "v \<le> ULLONG_MAX"
      and d: "dropWhile is_digit cs = []"
      by (auto simp: p eq w Let_def split: if_splits)
    have all: "takeWhile is_digit cs = cs" using d by (metis append_Nil2 takeWhile_dropWhile_id)
    then have "\<forall>x \<in> set cs. is_digit x" by (metis set_takeWhileD)
    with c have "print_nat (digits_val (c # cs)) = c # cs" by (intro print_nat_digits_val) auto
    with v all p show "v \<le> ULLONG_MAX \<and> p = print_nat v" by simp
  next
    assume r: "v \<le> ULLONG_MAX \<and> p = print_nat v"
    have all: "\<forall>x \<in> set cs. is_digit x"
      using print_nat_digits [of v] r p by (metis list.set_intros(2))
    have "digits_val (c # cs) = v" using r p digits_val_print_nat [of v] by simp
    then have "string2ll_loop (digit_val c) cs = Some (v, [])"
      using r all by (simp add: eq w Let_def takeWhile_all dropWhile_all)
    then show "string2ll_loop (digit_val (hd p)) (tl p) = Some (v, [])" unfolding p by simp
  qed
qed

lemma print_nat_no_minus: "hd (print_nat n) \<noteq> CHR ''-''"
  using hd_print_nat_digit [of n] minus_not_space(2) by metis

lemma not_decimal:
  assumes "p \<noteq> []" and "hd p \<notin> set ''123456789''" and "p \<noteq> ''0''"
  shows "p \<noteq> print_nat n"
proof
  assume p: "p = print_nat n"
  then have "hd p = CHR ''0''" using assms(2) hd_print_nat_digit [of n] unfolding nonzero_digit by blast
  then have "n = 0" using hd_print_nat_zero p by simp
  with p assms(3) show False by (simp add: print_nat_small digit_char_0)
qed

text \<open>The accumulated magnitude, with the range test of the branch for its sign.\<close>

lemma string2ll_neg:
  assumes "hd p \<in> set ''123456789''" and "p \<noteq> []"
  shows "string2ll (CHR ''-'' # p) = Some i \<longleftrightarrow> is_long i \<and> i < 0 \<and> p = print_nat (nat (- i))"
proof -
  have pos: "v \<noteq> 0" if "p = print_nat v" for v
    using assms that hd_print_nat_zero [of v] unfolding nonzero_digit by blast
  have "string2ll (CHR ''-'' # p) = Some i \<longleftrightarrow>
      (\<exists>v. string2ll_loop (digit_val (hd p)) (tl p) = Some (v, []) \<and> v \<le> 9223372036854775808 \<and> i = - int v)"
    using assms by (auto simp: string2ll_def simp del: list.set split: option.splits if_splits)
  also have "\<dots> \<longleftrightarrow> is_long i \<and> i < 0 \<and> p = print_nat (nat (- i))"
    using pos unfolding string2ll_digits [OF assms(2,1)] by (force simp: is_long_def)
  finally show ?thesis .
qed

lemma string2ll_nonneg:
  assumes "hd p \<in> set ''123456789''" and "p \<noteq> []"
  shows "string2ll p = Some i \<longleftrightarrow> is_long i \<and> 0 \<le> i \<and> p = print_nat (nat i)"
proof -
  have h: "hd p \<noteq> CHR ''-''" "p \<noteq> ''0''" using assms by auto
  have "string2ll p = Some i \<longleftrightarrow>
      (\<exists>v. string2ll_loop (digit_val (hd p)) (tl p) = Some (v, []) \<and> int v \<le> LLONG_MAX \<and> i = int v)"
    using assms h by (auto simp: string2ll_def simp del: list.set split: option.splits if_splits)
  also have "\<dots> \<longleftrightarrow> is_long i \<and> 0 \<le> i \<and> p = print_nat (nat i)"
    unfolding string2ll_digits [OF assms(2,1)] by (force simp: is_long_def)
  finally show ?thesis .
qed

lemma string2ll_decimal: "string2ll s = Some i \<longleftrightarrow> is_long i \<and> s = print_int i"
proof (cases "s = [] \<or> s = ''0''")
  case True
  have "print_int i = ''0'' \<longleftrightarrow> i = 0"
    using print_int_inj [of i 0] by (simp add: print_int_def print_nat_small digit_char_0)
  with True show ?thesis using print_int_not_Nil [of i, symmetric] by (auto simp: string2ll_def is_long_def)
next
  case False
  then have ne: "s \<noteq> []" "s \<noteq> ''0''" by auto
  show ?thesis
  proof (cases "hd s = CHR ''-''")
    case True
    then obtain p where s: "s = CHR ''-'' # p" using ne(1) by (cases s) auto
    have r: "s = print_int i \<longleftrightarrow> i < 0 \<and> p = print_nat (nat (- i))"
      using print_nat_no_minus [of "nat i"]
      by (cases "i < 0") (simp_all add: print_int_def s, metis list.sel(1))
    show ?thesis
    proof (cases "p \<noteq> [] \<and> hd p \<in> set ''123456789''")
      case True
      then show ?thesis unfolding r unfolding s using string2ll_neg [of p i] by blast
    next
      case False
      have "p \<noteq> print_nat (nat (- i))" if "i < 0"
      proof
        assume p: "p = print_nat (nat (- i))"
        then have "is_digit (hd p)" "hd p \<noteq> CHR ''0''" "p \<noteq> []"
          using that hd_print_nat_digit hd_print_nat_zero [of "nat (- i)"] by simp_all
        with False show False unfolding nonzero_digit by blast
      qed
      moreover have "string2ll s = None" using False by (auto simp: string2ll_def s simp del: list.set)
      ultimately show ?thesis using r by auto
    qed
  next
    case minus: False
    have r: "s = print_int i \<longleftrightarrow> 0 \<le> i \<and> s = print_nat (nat i)"
      using minus by (auto simp: print_int_def)
    show ?thesis
    proof (cases "hd s \<in> set ''123456789''")
      case True
      then show ?thesis using string2ll_nonneg [OF _ ne(1)] r by blast
    next
      case False
      have "string2ll s = None"
        using ne minus False by (cases s) (auto simp: string2ll_def simp del: list.set)
      then show ?thesis using not_decimal [OF ne(1) False ne(2)] r by simp
    qed
  qed
qed

text \<open>
  C35. \<open>string2ll\<close> accepts a text exactly when it is the decimal text of a \<open>long long\<close>, and then
  returns that number: no leading zero, sign plus, blank or out-of-range text is accepted.
\<close>

theorem string2ll_iff: "string2ll s = Some i \<longleftrightarrow> is_long i \<and> s = print_int i"
  by (rule string2ll_decimal)

section \<open>Round trip and memory sizes\<close>

text \<open>
  C36. \<open>ll2string\<close> writes the decimal text of every \<open>long long\<close> with its terminating NUL, touches
  nothing after it and returns its length, or returns 0 and touches nothing when the text and
  the NUL do not fit.
\<close>

theorem ll2string_exact:
  assumes "is_long i" and "dstlen \<le> length dst"
  shows "ll2string dst dstlen i =
    (if length (print_int i) < dstlen
     then (length (print_int i), print_int i @ NUL # drop (Suc (length (print_int i))) dst)
     else (0, dst))"
  using assms ll2string_correct ll2string_too_small by simp

theorem ll2string_exact_witness:
  "ll2string ''abcdef'' 6 (- 987) = (4, ''-987'' @ NUL # ''f'') \<and> ll2string ''abc'' 3 123 = (0, ''abc'')"
proof -
  have "print_int (- 987) = ''-987''" "print_int 123 = ''123''" by code_simp+
  then show ?thesis
    using ll2string_exact [of "- 987" 6 "''abcdef''"] ll2string_exact [of 123 3 "''abc''"]
    by (simp add: is_long_def)
qed

lemma print_nat_length_le: "n < 10 ^ Suc k \<Longrightarrow> length (print_nat n) \<le> Suc k"
proof (induction k arbitrary: n)
  case 0
  then show ?case by (simp add: print_nat_small)
next
  case (Suc k)
  show ?case
  proof (cases "n < 10")
    case True
    then show ?thesis by (simp add: print_nat_small)
  next
    case False
    have "n div 10 < 10 ^ Suc k" using Suc.prems by (simp add: div_less_iff_less_mult)
    with Suc.IH False show ?thesis by (simp add: print_nat_big)
  qed
qed

lemma print_int_length:
  assumes "is_long i"
  shows "length (print_int i) \<le> 20"
proof -
  have "length (print_nat (nat \<bar>i\<bar>)) \<le> 19"
    using assms print_nat_length_le [of "nat \<bar>i\<bar>" 18] by (auto simp: is_long_def)
  then show ?thesis by (auto simp: print_int_def)
qed

text \<open>
  \<open>memtoll\<close> reads a number followed by a unit as that number times the unit, as
  \<open>long long\<close>.
\<close>

lemma memtoll_unit:
  assumes "is_long i" and "mem_unit u = Some m"
  shows "memtoll (print_int i @ u) = Some (c_long (i * m))"
proof -
  have u: "u = [] \<or> \<not> is_digit (hd u)"
  proof (rule ccontr)
    assume c: "\<not> ?thesis"
    then obtain c cs where "u = c # cs" "is_digit c" by (cases u) auto
    moreover from this have "tolower c = c" by (auto simp: tolower_def is_digit_def Let_def)
    ultimately show False
      using assms(2) by (auto simp: mem_unit_def strcaseeq_def tolower_def is_digit_def split: if_splits)
  qed
  have s: "strtoll (print_int i) = (i, [])" using strtoll_print_int [of "[]" i] assms(1) by simp
  have l: "length (print_int i) < 128" using print_int_length [OF assms(1)] by simp
  show ?thesis
  proof (cases "i < 0")
    case True
    then have p: "print_int i = CHR ''-'' # print_nat (nat (- i))" by (simp add: print_int_def)
    show ?thesis
      using s l assms(2) u unfolding p
      by (simp add: memtoll_def takeWhile_print_nat dropWhile_print_nat Let_def)
  next
    case False
    then have p: "print_int i = print_nat (nat i)" by (simp add: print_int_def)
    show ?thesis
      using s l assms(2) u print_nat_no_minus [of "nat i"] unfolding p
      by (simp add: memtoll_def takeWhile_print_nat dropWhile_print_nat Let_def)
  qed
qed

lemma memtoll_unit_witness: "memtoll ''12Kb'' = Some 12288 \<and> memtoll ''-3m'' = Some (- 3000000)"
proof -
  have "print_int 12 = ''12''" "print_int (- 3) = ''-3''" by code_simp+
  moreover have "mem_unit ''Kb'' = Some 1024" "mem_unit ''m'' = Some 1000000" by code_simp+
  ultimately show ?thesis
    using memtoll_unit [of 12 "''Kb''" 1024] memtoll_unit [of "- 3" "''m''" 1000000]
    by (simp add: is_long_def c_long_def)
qed

end
