(* ===== verification/Vec.thy ===== *)
theory Vec
  imports CLib
begin

text \<open>
  The growable array of \<open>src/src/stl.c\<close> (\<open>Vector\<close>) and the stack built on it
  (\<open>Stack\<close>). The allocation is kept with its uninitialised slots, so that the theorems also
  say that no operation reads outside the initialised part. A well-formed vector is shown to
  behave as the list of its elements; the stack meets the contract of a last-in first-out store.
\<close>

section \<open>Vector\<close>

text \<open>
  A slot of the allocation: never written, or a pointer (null or to a datum). \<open>vdata\<close> is nothing
  when the pointer is null. The type tag has two bits, counts are \<open>size_t\<close>. Allocation
  succeeds.
\<close>

datatype 'a slot = Raw | Dat "'a option"

record 'a vector =
  vtype :: nat
  vdata :: "'a slot list option"
  vsize :: nat
  vcount :: nat

abbreviation (input) STL_TYPE_DEFAULT :: nat where "STL_TYPE_DEFAULT \<equiv> 0"
abbreviation (input) STL_TYPE_SDS :: nat where "STL_TYPE_SDS \<equiv> 1"
abbreviation (input) STL_TYPE_LONG :: nat where "STL_TYPE_LONG \<equiv> 2"
abbreviation (input) STL_TYPE_ROBJ :: nat where "STL_TYPE_ROBJ \<equiv> 3"
abbreviation (input) INIT_VECTOR_SIZE :: nat where "INIT_VECTOR_SIZE \<equiv> 10"

text \<open>Subtracting one from a \<open>size_t\<close>.\<close>

definition size_dec :: "nat \<Rightarrow> nat" where
  "size_dec n = (if n = 0 then 2 ^ 64 - 1 else n - 1)"

definition vectorGetDatumSize :: "'a vector \<Rightarrow> nat res" where
  "vectorGetDatumSize v = (if vtype v \<in> {0, 1, 2, 3} then Inr 8 else Inl ServerPanic)"

definition vectorInit :: "'a vector" where
  "vectorInit = \<lparr>vtype = STL_TYPE_DEFAULT, vdata = None, vsize = 0, vcount = 0\<rparr>"

definition vectorTypeInit :: "int \<Rightarrow> 'a vector" where
  "vectorTypeInit type = vectorInit\<lparr>vtype := nat (type mod 4)\<rparr>"

definition vectorTypeInitWithSize :: "int \<Rightarrow> nat \<Rightarrow> 'a vector" where
  "vectorTypeInitWithSize type sz =
     (vectorTypeInit type)\<lparr>vsize := sz, vdata := Some (replicate sz Raw)\<rparr>"

definition vectorCreate :: "int \<Rightarrow> nat \<Rightarrow> 'a vector" where
  "vectorCreate type sz = vectorTypeInitWithSize type sz"

definition vectorCount :: "'a vector \<Rightarrow> nat" where
  "vectorCount v = vcount v"

text \<open>A read and a write of \<open>v->data[index]\<close>.\<close>

definition slot_get :: "'a vector \<Rightarrow> nat \<Rightarrow> 'a option res" where
  "slot_get v i =
     bindr (deref (vdata v)) (\<lambda>d.
       if i < length d then (case d ! i of Raw \<Rightarrow> Inl UninitRead | Dat x \<Rightarrow> Inr x)
       else Inl OutOfBounds)"

definition slot_set :: "'a vector \<Rightarrow> nat \<Rightarrow> 'a option \<Rightarrow> 'a vector res" where
  "slot_set v i x =
     bindr (deref (vdata v)) (\<lambda>d.
       if i < length d then Inr (v\<lparr>vdata := Some (d[i := Dat x])\<rparr>) else Inl OutOfBounds)"

definition vectorGet :: "'a vector \<Rightarrow> nat \<Rightarrow> 'a option res" where
  "vectorGet v index = (if index \<ge> vcount v then Inr None else slot_get v index)"

text \<open>The flag is the return code: true for \<open>C_OK\<close>.\<close>

definition vectorSet :: "'a vector \<Rightarrow> nat \<Rightarrow> 'a option \<Rightarrow> (bool \<times> 'a vector) res" where
  "vectorSet v index datum =
     (if index \<ge> vcount v then Inr (False, v)
      else if vtype v \<in> {0, 1, 2, 3} then
        bindr (slot_set v index datum) (\<lambda>v'. Inr (True, v'))
      else Inr (False, v))"

text \<open>What \<open>vectorFreeDatum\<close> releases: nothing for integers.\<close>

definition vectorFreeDatum :: "'a vector \<Rightarrow> 'a option \<Rightarrow> 'a option list" where
  "vectorFreeDatum v datum = (if vtype v \<in> {0, 1, 3} then [datum] else [])"

definition vectorFree :: "'a vector \<Rightarrow> bool \<times> 'a vector" where
  "vectorFree v =
     (case vdata v of
        None \<Rightarrow> (False, v)
      | Some _ \<Rightarrow> (True, v\<lparr>vdata := None, vcount := 0, vsize := 0\<rparr>))"

text \<open>The released data, in order, with the return code and the vector.\<close>

fun free_from :: "'a vector \<Rightarrow> nat list \<Rightarrow> 'a option list res" where
  "free_from v [] = Inr []"
| "free_from v (i # is) =
     bindr (vectorGet v i) (\<lambda>x. bindr (free_from v is) (\<lambda>fs. Inr (vectorFreeDatum v x @ fs)))"

definition vectorFreeDeep :: "'a vector \<Rightarrow> ('a option list \<times> bool \<times> 'a vector) res" where
  "vectorFreeDeep v =
     (case vdata v of
        None \<Rightarrow> Inr ([], False, v)
      | Some _ \<Rightarrow>
          bindr (free_from v [0..<vcount v]) (\<lambda>fs. Inr (fs, True, snd (vectorFree v))))"

definition vectorResizeIfNeeded :: "'a vector \<Rightarrow> 'a vector res" where
  "vectorResizeIfNeeded v =
     bindr (if vsize v = 0 then
              bindr (vectorFreeDeep v) (\<lambda>(_, _, v).
                bindr (vectorGetDatumSize v) (\<lambda>_.
                  Inr (v\<lparr>vsize := INIT_VECTOR_SIZE,
                         vdata := Some (replicate INIT_VECTOR_SIZE Raw)\<rparr>)))
            else Inr v) (\<lambda>v.
       if vsize v \<le> vcount v then
         bindr (vectorGetDatumSize v) (\<lambda>_.
           let d = (case vdata v of None \<Rightarrow> [] | Some d \<Rightarrow> d);
               sz = vsize v + INIT_VECTOR_SIZE
           in Inr (v\<lparr>vsize := sz, vdata := Some (d @ replicate (sz - length d) Raw)\<rparr>))
       else Inr v)"

definition vectorAdd :: "'a vector \<Rightarrow> 'a option \<Rightarrow> (bool \<times> 'a vector) res" where
  "vectorAdd v datum =
     bindr (vectorResizeIfNeeded v) (\<lambda>v.
       let index = vcount v in vectorSet (v\<lparr>vcount := vcount v + 1\<rparr>) index datum)"

text \<open>
  The copy loop of \<open>vectorDelete\<close> and \<open>vectorUnlink\<close>: every slot but one moves to the new
  array; the slot left out is the target.
\<close>

fun copy_but :: "'a vector \<Rightarrow> nat \<Rightarrow> nat list \<Rightarrow> 'a slot list \<Rightarrow> nat \<Rightarrow> 'a slot list res" where
  "copy_but v index [] arr j = Inr arr"
| "copy_but v index (i # is) arr j =
     (if i = index then copy_but v index is arr j
      else
        bindr (slot_get v i) (\<lambda>x.
          if j < length arr then copy_but v index is (arr[j := Dat x]) (j + 1)
          else Inl OutOfBounds))"

definition vectorUnlink :: "'a vector \<Rightarrow> nat \<Rightarrow> ('a option \<times> 'a vector) res" where
  "vectorUnlink v index =
     (if index \<ge> vcount v then Inr (None, v)
      else
        bindr (vectorGetDatumSize v) (\<lambda>_.
          bindr (slot_get v index) (\<lambda>target.
            bindr (copy_but v index [0..<vcount v] (replicate (vsize v) Raw) 0) (\<lambda>arr.
              Inr (target, v\<lparr>vdata := Some arr, vcount := size_dec (vcount v)\<rparr>)))))"

definition vectorDelete :: "'a vector \<Rightarrow> nat \<Rightarrow> ('a option list \<times> bool \<times> 'a vector) res" where
  "vectorDelete v index =
     (if index \<ge> vcount v then Inr ([], False, v)
      else
        bindr (vectorGetDatumSize v) (\<lambda>_.
          bindr (vectorGet v index) (\<lambda>x.
            bindr (copy_but v index [0..<vcount v] (replicate (vsize v) Raw) 0) (\<lambda>arr.
              Inr (vectorFreeDatum v x, True,
                   v\<lparr>vdata := Some arr, vcount := size_dec (vcount v)\<rparr>)))))"

definition vectorPop :: "'a vector \<Rightarrow> ('a option \<times> 'a vector) res" where
  "vectorPop v =
     bindr (vectorGet v (size_dec (vcount v))) (\<lambda>target.
       bindr (vectorSet v (size_dec (vcount v)) None) (\<lambda>(_, v').
         Inr (target, v'\<lparr>vcount := size_dec (vcount v')\<rparr>)))"

text \<open>
  \<open>vectorToSds\<close>: the elements joined by blanks. The loop index is an \<open>int\<close>; an element that is
  null is dereferenced by \<open>sdscatsds\<close>.
\<close>

fun to_sds_loop :: "string vector \<Rightarrow> nat list \<Rightarrow> string \<Rightarrow> string res" where
  "to_sds_loop v [] s = Inr s"
| "to_sds_loop v (i # is) s =
     bindr (vectorGet v i) (\<lambda>x. bindr (deref x) (\<lambda>e.
       if i = size_dec (vcount v) then Inr (s @ e) else to_sds_loop v is (s @ e @ '' '')))"

definition vectorToSds :: "string vector \<Rightarrow> string res" where
  "vectorToSds v = to_sds_loop v [0..<vcount v] []"

section \<open>Stack\<close>

record 'a stack =
  stype :: nat
  sdata :: "'a vector"

definition stackInit :: "'a stack" where
  "stackInit = \<lparr>stype = STL_TYPE_DEFAULT, sdata = vectorInit\<rparr>"

definition stackTypeInit :: "int \<Rightarrow> 'a stack" where
  "stackTypeInit type =
     \<lparr>stype = nat (type mod 4), sdata = (sdata stackInit)\<lparr>vtype := nat (type mod 4)\<rparr>\<rparr>"

definition stackCount :: "'a stack \<Rightarrow> nat" where
  "stackCount s = vcount (sdata s)"

definition stackPush :: "'a stack \<Rightarrow> 'a option \<Rightarrow> (bool \<times> 'a stack) res" where
  "stackPush s datum = bindr (vectorAdd (sdata s) datum) (\<lambda>(rc, v). Inr (rc, s\<lparr>sdata := v\<rparr>))"

definition stackPop :: "'a stack \<Rightarrow> ('a option \<times> 'a stack) res" where
  "stackPop s = bindr (vectorPop (sdata s)) (\<lambda>(x, v). Inr (x, s\<lparr>sdata := v\<rparr>))"

definition stackFree :: "'a stack \<Rightarrow> bool \<times> 'a stack" where
  "stackFree s = (let (rc, v) = vectorFree (sdata s) in (rc, s\<lparr>sdata := v\<rparr>))"

definition stackFreeDeep :: "'a stack \<Rightarrow> ('a option list \<times> bool \<times> 'a stack) res" where
  "stackFreeDeep s =
     bindr (vectorFreeDeep (sdata s)) (\<lambda>(fs, rc, v). Inr (fs, rc, s\<lparr>sdata := v\<rparr>))"

section \<open>A vector is the list of its elements\<close>

text \<open>The vector is well formed and holds the given elements.\<close>

definition vok :: "'a vector \<Rightarrow> 'a option list \<Rightarrow> bool" where
  "vok v xs \<longleftrightarrow> vtype v < 4 \<and> vcount v = length xs \<and>
     (case vdata v of
        None \<Rightarrow> vsize v = 0 \<and> xs = []
      | Some d \<Rightarrow> length d = vsize v \<and> length xs \<le> length d \<and> take (length xs) d = map Dat xs)"

lemma type_range: "(t :: nat) < 4 \<Longrightarrow> t \<in> {0, 1, 2, 3}"
  by auto

lemma vok_type: "vok v xs \<Longrightarrow> vtype v \<in> {0, 1, 2, 3}"
  by (rule type_range) (simp add: vok_def)

lemma vok_count: "vok v xs \<Longrightarrow> vcount v = length xs"
  by (simp add: vok_def)

lemma vok_datumSize: "vok v xs \<Longrightarrow> vectorGetDatumSize v = Inr 8"
  using vok_type [of v xs] by (simp add: vectorGetDatumSize_def)

lemma vok_data:
  assumes "vok v xs" and "xs \<noteq> []"
  obtains d where "vdata v = Some d" "length d = vsize v" "length xs \<le> length d"
    "take (length xs) d = map Dat xs"
  using assms by (auto simp: vok_def split: option.splits)

lemma vok_init: "vok (vectorTypeInit t) []"
  by (simp add: vok_def vectorTypeInit_def vectorInit_def nat_less_iff)

lemma vok_initWithSize: "vok (vectorTypeInitWithSize t sz) []"
  by (simp add: vok_def vectorTypeInitWithSize_def vectorTypeInit_def vectorInit_def nat_less_iff)

lemma take_Dat_nth: "take (length xs) d = map Dat xs \<Longrightarrow> i < length xs \<Longrightarrow> d ! i = Dat (xs ! i)"
  by (metis nth_map nth_take)

lemma vok_slot_get: "vok v xs \<Longrightarrow> i < length xs \<Longrightarrow> slot_get v i = Inr (xs ! i)"
  by (auto simp: slot_get_def take_Dat_nth elim!: vok_data [of v xs])

lemma vok_get:
  assumes "vok v xs"
  shows "vectorGet v i = Inr (if i < length xs then xs ! i else None)"
  using assms vok_slot_get [OF assms] by (simp add: vectorGet_def vok_count)

lemma vok_set:
  assumes "vok v xs" and "i < length xs"
  shows "\<exists>v'. vectorSet v i x = Inr (True, v') \<and> vok v' (xs[i := x]) \<and> vtype v' = vtype v"
proof -
  obtain d where d: "vdata v = Some d" "length d = vsize v" "length xs \<le> length d"
    "take (length xs) d = map Dat xs" using assms by (auto simp: vok_def split: option.splits)
  have "slot_set v i x = Inr (v\<lparr>vdata := Some (d[i := Dat x])\<rparr>)"
    using d assms(2) by (simp add: slot_set_def)
  moreover have "vok (v\<lparr>vdata := Some (d[i := Dat x])\<rparr>) (xs[i := x])"
    using assms d by (simp add: vok_def take_update_swap map_update)
  ultimately show ?thesis using vok_type [OF assms(1)] assms by (simp add: vectorSet_def vok_count)
qed

lemma free_from_vok:
  assumes "vok v xs"
  shows "\<forall>i \<in> set is. i < length xs \<Longrightarrow>
    free_from v is = Inr (concat (map (\<lambda>i. vectorFreeDatum v (xs ! i)) is))"
  by (induction "is") (simp_all add: vok_get [OF assms])

lemma vok_freeDeep:
  assumes "vok v xs"
  shows "\<exists>v'. vectorFreeDeep v = Inr (if vtype v = STL_TYPE_LONG then [] else xs, vdata v \<noteq> None, v') \<and>
    vok v' [] \<and> vtype v' = vtype v \<and> vdata v' = None"
proof (cases "vdata v")
  case None
  with assms show ?thesis by (simp add: vectorFreeDeep_def vok_def)
next
  case (Some d)
  have "concat (map (\<lambda>i. vectorFreeDatum v (xs ! i)) [0..<length xs]) =
      (if vtype v = STL_TYPE_LONG then [] else xs)"
    using vok_type [OF assms] by (auto simp: vectorFreeDatum_def map_nth concat_map_singleton)
  with Some assms show ?thesis
    using free_from_vok [OF assms, of "[0..<length xs]"]
    by (simp add: vectorFreeDeep_def vok_count [OF assms] vectorFree_def vok_def)
qed

lemma vok_resize:
  assumes "vok v xs"
  shows "\<exists>v'. vectorResizeIfNeeded v = Inr v' \<and> vok v' xs \<and> vtype v' = vtype v \<and> length xs < vsize v'"
proof (cases "vsize v = 0")
  case True
  then have xs: "xs = []" using assms by (auto simp: vok_def split: option.splits)
  obtain fs rc v' where f: "vectorFreeDeep v = Inr (fs, rc, v')" "vok v' []" "vtype v' = vtype v"
    using vok_freeDeep [OF assms] by blast
  show ?thesis
    using True f(1,3) vok_datumSize [OF f(2)] vok_count [OF f(2)] f(2) xs
    by (simp add: vectorResizeIfNeeded_def vok_def)
next
  case False
  then obtain d where d: "vdata v = Some d" "length d = vsize v" "length xs \<le> length d"
    "take (length xs) d = map Dat xs" using assms by (auto simp: vok_def split: option.splits)
  show ?thesis
    using False d assms vok_datumSize [OF assms]
    by (auto simp: vectorResizeIfNeeded_def vok_def Let_def)
qed

lemma vok_grow:
  assumes "vok v xs" and "length xs < vsize v"
  shows "\<exists>v'. vectorSet (v\<lparr>vcount := vcount v + 1\<rparr>) (length xs) x = Inr (True, v') \<and>
    vok v' (xs @ [x]) \<and> vtype v' = vtype v"
proof -
  obtain d where d: "vdata v = Some d" "length d = vsize v" "length xs \<le> length d"
    "take (length xs) d = map Dat xs" using assms by (auto simp: vok_def split: option.splits)
  have "take (Suc (length xs)) (d[length xs := Dat x]) = map Dat (xs @ [x])"
    using d assms(2) by (simp add: take_Suc_conv_app_nth)
  then show ?thesis
    using d assms vok_type [OF assms(1)]
    by (auto simp: vectorSet_def slot_set_def vok_def)
qed

lemma vok_add:
  assumes "vok v xs"
  shows "\<exists>v'. vectorAdd v x = Inr (True, v') \<and> vok v' (xs @ [x]) \<and> vtype v' = vtype v"
proof -
  obtain u where u: "vectorResizeIfNeeded v = Inr u" "vok u xs" "vtype u = vtype v" "length xs < vsize u"
    using vok_resize [OF assms] by blast
  show ?thesis
    using vok_grow [OF u(2,4), of x] u(1,3) vok_count [OF u(2)] by (simp add: vectorAdd_def Let_def)
qed

lemma size_dec_pos: "0 < n \<Longrightarrow> size_dec n = n - 1"
  by (simp add: size_dec_def)

lemma vok_take:
  assumes "vok v xs" and "n \<le> length xs"
  shows "vok (v\<lparr>vcount := n\<rparr>) (take n xs)"
proof -
  have "take n d = map Dat (take n xs)" if "take (length xs) d = map Dat xs" for d
    using that assms(2) by (metis min.absorb1 take_map take_take)
  then show ?thesis using assms by (auto simp: vok_def min_def split: option.splits)
qed

lemma vok_pop:
  assumes "vok v xs" and "xs \<noteq> []"
  shows "\<exists>v'. vectorPop v = Inr (last xs, v') \<and> vok v' (butlast xs) \<and> vtype v' = vtype v"
proof -
  have n: "size_dec (vcount v) = length xs - 1" "length xs - 1 < length xs"
    using assms by (simp_all add: vok_count size_dec_pos)
  obtain u where u: "vectorSet v (length xs - 1) None = Inr (True, u)"
    "vok u (xs[length xs - 1 := None])" "vtype u = vtype v" using vok_set [OF assms(1) n(2)] by blast
  have "vok (u\<lparr>vcount := size_dec (vcount u)\<rparr>) (butlast xs)"
    using vok_take [OF u(2), of "length xs - 1"] assms(2) vok_count [OF u(2)]
    by (simp add: size_dec_pos butlast_conv_take)
  with u n assms show ?thesis
    by (simp add: vectorPop_def vok_get [OF assms(1)] last_conv_nth)
qed

text \<open>The copy loop moves what lies before and after the index, in order.\<close>

lemma copy_but_vok:
  assumes "vok v xs" and "i \<le> length xs"
  shows "length arr = vsize v \<Longrightarrow> j \<le> i \<Longrightarrow> i - j \<le> 1 \<Longrightarrow> length xs \<le> vsize v \<Longrightarrow>
    (index < i \<longleftrightarrow> j < i) \<Longrightarrow>
    \<exists>arr'. copy_but v index [i..<length xs] arr j = Inr arr' \<and> length arr' = vsize v \<and>
      take (j + length (filter ((\<noteq>) index) [i..<length xs])) arr' =
        take j arr @ map (\<lambda>k. Dat (xs ! k)) (filter ((\<noteq>) index) [i..<length xs])"
  using assms(2)
proof (induction "length xs - i" arbitrary: i j arr)
  case 0
  then have "[i..<length xs] = []" by simp
  with 0 show ?case by simp
next
  case (Suc n)
  then have i: "i < length xs" "[i..<length xs] = i # [Suc i..<length xs]"
    by (simp_all add: upt_conv_Cons)
  show ?case
  proof (cases "i = index")
    case True
    with Suc.prems have "j = i" by auto
    have "\<exists>arr'. copy_but v index [Suc i..<length xs] arr j = Inr arr' \<and> length arr' = vsize v \<and>
      take (j + length (filter ((\<noteq>) index) [Suc i..<length xs])) arr' =
        take j arr @ map (\<lambda>k. Dat (xs ! k)) (filter ((\<noteq>) index) [Suc i..<length xs])"
      using Suc.hyps(2) Suc.prems i(1) True \<open>j = i\<close> by (intro Suc.hyps(1)) auto
    with True show ?thesis unfolding i(2) by simp
  next
    case False
    have "\<exists>arr'. copy_but v index [Suc i..<length xs] (arr[j := Dat (xs ! i)]) (Suc j) = Inr arr' \<and>
      length arr' = vsize v \<and>
      take (Suc j + length (filter ((\<noteq>) index) [Suc i..<length xs])) arr' =
        take (Suc j) (arr[j := Dat (xs ! i)]) @
        map (\<lambda>k. Dat (xs ! k)) (filter ((\<noteq>) index) [Suc i..<length xs])"
      using Suc.hyps(2) Suc.prems i(1) False by (intro Suc.hyps(1)) auto
    moreover have "j < length arr" using Suc.prems i(1) by simp
    ultimately show ?thesis
      using False vok_slot_get [OF assms(1) i(1)] unfolding i(2) by (simp add: take_Suc_conv_app_nth)
  qed
qed

lemma filter_upt_but:
  assumes "index < n"
  shows "filter ((\<noteq>) index) [0..<n] = [0..<index] @ [Suc index..<n]"
proof -
  have "[0..<n] = [0..<index] @ index # [Suc index..<n]"
    using assms by (metis less_imp_add_positive upt_add_eq_append upt_conv_Cons zero_le less_imp_le_nat)
  then show ?thesis by (simp add: filter_id_conv)
qed

lemma map_nth_but:
  assumes "index < length xs"
  shows "map (\<lambda>k. Dat (xs ! k)) ([0..<index] @ [Suc index..<length xs]) =
    map Dat (take index xs @ drop (Suc index) xs)"
proof -
  have "map (\<lambda>k. Dat (xs ! k)) [0..<index] = map Dat (take index xs)"
    using assms by (intro nth_equalityI) auto
  moreover have "map (\<lambda>k. Dat (xs ! k)) [Suc index..<length xs] = map Dat (drop (Suc index) xs)"
    by (intro nth_equalityI) auto
  ultimately show ?thesis by simp
qed

lemma vok_copy:
  assumes "vok v xs" and "index < length xs"
  shows "\<exists>arr. copy_but v index [0..<vcount v] (replicate (vsize v) Raw) 0 = Inr arr \<and>
    vok (v\<lparr>vdata := Some arr, vcount := size_dec (vcount v)\<rparr>) (take index xs @ drop (Suc index) xs)"
proof -
  have le: "length xs \<le> vsize v" using assms by (auto simp: vok_def split: option.splits)
  let ?ys = "take index xs @ drop (Suc index) xs"
  have len: "length ?ys = length xs - 1" using assms(2) by simp
  obtain arr where a: "copy_but v index [0..<length xs] (replicate (vsize v) Raw) 0 = Inr arr"
    "length arr = vsize v" "take (length xs - 1) arr = map Dat ?ys"
    using copy_but_vok [OF assms(1), of 0 "replicate (vsize v) Raw" 0 index] assms(2) le
    unfolding filter_upt_but [OF assms(2)] map_nth_but [OF assms(2)] by auto
  show ?thesis
    using assms a le len by (intro exI [of _ arr]) (auto simp: vok_def vok_count [OF assms(1)] size_dec_def)
qed

lemma vok_unlink:
  assumes "vok v xs" and "index < length xs"
  shows "\<exists>v'. vectorUnlink v index = Inr (xs ! index, v') \<and>
    vok v' (take index xs @ drop (Suc index) xs)"
  using vok_copy [OF assms] vok_slot_get [OF assms] assms(2) vok_datumSize [OF assms(1)]
  by (auto simp: vectorUnlink_def vok_count [OF assms(1)])

lemma vok_delete:
  assumes "vok v xs" and "index < length xs"
  shows "\<exists>v'. vectorDelete v index = Inr (vectorFreeDatum v (xs ! index), True, v') \<and>
    vok v' (take index xs @ drop (Suc index) xs)"
  using vok_copy [OF assms] vok_get [OF assms(1), of index] assms(2) vok_datumSize [OF assms(1)]
  by (auto simp: vectorDelete_def vok_count [OF assms(1)])

text \<open>
  C31. The array behind a vector behaves as the list of its elements: reads and writes inside the
  list, append, removal at an index and at the end do to the list what their names say, never
  touch memory outside the allocation or read a slot that was not written, and keep the vector
  well formed. Reads and writes outside the list change nothing and report the error.
\<close>

theorem vector_refines_list:
  assumes "vok v xs"
  shows "vectorGet v i = Inr (if i < length xs then xs ! i else None) \<and>
    (\<exists>v'. vectorSet v i x = Inr (i < length xs, v') \<and> vok v' (xs[i := x])) \<and>
    (\<exists>v'. vectorAdd v x = Inr (True, v') \<and> vok v' (xs @ [x])) \<and>
    (xs = [] \<or> (\<exists>v'. vectorPop v = Inr (last xs, v') \<and> vok v' (butlast xs))) \<and>
    (\<exists>v'. vectorUnlink v i = Inr (if i < length xs then xs ! i else None, v') \<and>
       vok v' (take i xs @ drop (Suc i) xs)) \<and>
    (\<exists>fs v'. vectorDelete v i = Inr (fs, i < length xs, v') \<and>
       vok v' (take i xs @ drop (Suc i) xs))"
proof (intro conjI)
  note c = vok_count [OF assms]
  show "vectorGet v i = Inr (if i < length xs then xs ! i else None)" by (rule vok_get [OF assms])
  show "\<exists>v'. vectorSet v i x = Inr (i < length xs, v') \<and> vok v' (xs[i := x])"
    using vok_set [OF assms, of i x] assms c
    by (cases "i < length xs") (fastforce, simp add: vectorSet_def list_update_beyond)
  show "\<exists>v'. vectorAdd v x = Inr (True, v') \<and> vok v' (xs @ [x])"
    using vok_add [OF assms] by blast
  show "xs = [] \<or> (\<exists>v'. vectorPop v = Inr (last xs, v') \<and> vok v' (butlast xs))"
    using vok_pop [OF assms] by blast
  show "\<exists>v'. vectorUnlink v i = Inr (if i < length xs then xs ! i else None, v') \<and>
      vok v' (take i xs @ drop (Suc i) xs)"
    using vok_unlink [OF assms, of i] assms c by (cases "i < length xs") (auto simp: vectorUnlink_def)
  show "\<exists>fs v'. vectorDelete v i = Inr (fs, i < length xs, v') \<and>
      vok v' (take i xs @ drop (Suc i) xs)"
    using vok_delete [OF assms, of i] assms c by (cases "i < length xs") (auto simp: vectorDelete_def)
qed

text \<open>A vector of two elements on its first allocation, at which the theorem applies.\<close>

definition sample_vector :: "nat vector" where
  "sample_vector = \<lparr>vtype = 2, vdata = Some ([Dat (Some 7), Dat (Some 8)] @ replicate 8 Raw),
     vsize = 10, vcount = 2\<rparr>"

theorem vector_refines_list_witness:
  "vok sample_vector [Some 7, Some 8] \<and> vectorGet sample_vector 1 = Inr (Some 8) \<and>
   (\<exists>v'. vectorPop sample_vector = Inr (Some 8, v') \<and> vok v' [Some 7])"
proof -
  have "vok sample_vector [Some 7, Some 8]" by (simp add: vok_def sample_vector_def)
  then show ?thesis using vector_refines_list [of sample_vector "[Some 7, Some 8]" 1] by simp
qed

text \<open>
  \<open>vectorFreeDeep\<close> releases every element once, in order, for the types whose elements are
  allocated, and none for integers; the vector is empty afterwards and keeps its type.
\<close>

lemma vectorFreeDeep_releases:
  assumes "vok v xs"
  shows "\<exists>v'. vectorFreeDeep v = Inr (if vtype v = STL_TYPE_LONG then [] else xs, vdata v \<noteq> None, v') \<and>
    vok v' [] \<and> vtype v' = vtype v \<and> vdata v' = None"
  using assms by (rule vok_freeDeep)

lemma vectorFreeDeep_releases_witness:
  "\<exists>v'. vectorFreeDeep (sample_vector\<lparr>vtype := 1\<rparr>) = Inr ([Some 7, Some 8], True, v') \<and> vok v' []"
proof -
  have "vok (sample_vector\<lparr>vtype := 1\<rparr>) [Some 7, Some 8]" by (simp add: vok_def sample_vector_def)
  then show ?thesis using vectorFreeDeep_releases [of "sample_vector\<lparr>vtype := 1\<rparr>" "[Some 7, Some 8]"]
    by (auto simp: sample_vector_def)
qed

text \<open>
  \<open>vectorPop\<close>, and with it \<open>stackPop\<close>, does not test for the empty vector: it returns null
  and the count wraps to the largest \<open>size_t\<close>, after which the first read goes outside the
  allocation.
\<close>

lemma vectorPop_empty:
  assumes "vok v []" and "vsize v < 2 ^ 64 - 1"
  shows "vectorPop v = Inr (None, v\<lparr>vcount := 2 ^ 64 - 1\<rparr>) \<and>
    (\<exists>e. vectorGet (v\<lparr>vcount := 2 ^ 64 - 1\<rparr>) (vsize v) = Inl e)"
  using assms
  by (auto simp: vectorPop_def vectorGet_def vectorSet_def slot_get_def vok_def size_dec_def
      split: option.splits)

lemma vectorPop_empty_witness:
  "vectorPop (vectorTypeInitWithSize 2 4) = Inr (None :: nat option,
     (vectorTypeInitWithSize 2 4)\<lparr>vcount := 2 ^ 64 - 1\<rparr>)"
  using vectorPop_empty [OF vok_initWithSize [where 'a = nat and t = 2 and sz = 4]]
  by (simp add: vectorTypeInitWithSize_def vectorTypeInit_def vectorInit_def)

section \<open>Last-in first-out stores\<close>

text \<open>
  What the clients of a stack rely on: the store is described by a list whose last element is on
  top.
\<close>

locale lifo =
  fixes emp :: "'s"
    and push :: "'s \<Rightarrow> 'a option \<Rightarrow> (bool \<times> 's) res"
    and pop :: "'s \<Rightarrow> ('a option \<times> 's) res"
    and cnt :: "'s \<Rightarrow> nat"
    and holds :: "'s \<Rightarrow> 'a option list \<Rightarrow> bool"
  assumes holds_emp: "holds emp []"
    and holds_cnt: "holds s xs \<Longrightarrow> cnt s = length xs"
    and holds_push: "holds s xs \<Longrightarrow> \<exists>s'. push s x = Inr (True, s') \<and> holds s' (xs @ [x])"
    and holds_pop: "holds s xs \<Longrightarrow> xs \<noteq> [] \<Longrightarrow> \<exists>s'. pop s = Inr (last xs, s') \<and> holds s' (butlast xs)"
begin

lemma pop_snoc: "holds s (xs @ [x]) \<Longrightarrow> \<exists>s'. pop s = Inr (x, s') \<and> holds s' xs"
  using holds_pop [of s "xs @ [x]"] by simp

lemma pop_push: "holds s xs \<Longrightarrow> \<exists>s' s''. push s x = Inr (True, s') \<and> pop s' = Inr (x, s'') \<and> holds s'' xs"
  using holds_push pop_snoc by blast

lemma pop_two:
  assumes "holds s (xs @ [x, y])"
  obtains s' s'' where "pop s = Inr (y, s')" "pop s' = Inr (x, s'')" "holds s'' xs"
proof -
  obtain s' where s': "pop s = Inr (y, s')" "holds s' (xs @ [x])"
    using pop_snoc [of s "xs @ [x]" y] assms by auto
  from pop_snoc [OF s'(2)] s'(1) that show thesis by blast
qed

end

definition sok :: "'a stack \<Rightarrow> 'a option list \<Rightarrow> bool" where
  "sok s xs \<longleftrightarrow> vok (sdata s) xs"

interpretation cstack: lifo stackInit stackPush stackPop stackCount sok
proof
  show "sok stackInit []" by (simp add: sok_def stackInit_def vok_def vectorInit_def)
  show "stackCount s = length xs" if "sok s xs" for s :: "'a stack" and xs
    using that by (simp add: sok_def stackCount_def vok_count)
  show "\<exists>s'. stackPush s x = Inr (True, s') \<and> sok s' (xs @ [x])" if "sok s xs" for s :: "'a stack" and xs x
    using vok_add [OF that [unfolded sok_def], of x] by (auto simp: stackPush_def sok_def)
  show "\<exists>s'. stackPop s = Inr (last xs, s') \<and> sok s' (butlast xs)"
    if "sok s xs" "xs \<noteq> []" for s :: "'a stack" and xs
    using vok_pop [OF that(1) [unfolded sok_def] that(2)] by (auto simp: stackPop_def sok_def)
qed

text \<open>
  A datum pushed on a stack is what the next pop returns, and the pop leaves the stack with
  the elements it held before the push.
\<close>

lemma stack_pop_push:
  assumes "sok s xs"
  shows "\<exists>s' s''. stackPush s x = Inr (True, s') \<and> stackPop s' = Inr (x, s'') \<and> sok s'' xs"
  using assms by (rule cstack.pop_push)

lemma stack_pop_push_witness:
  "\<exists>s' s''. stackPush stackInit (Some (3 :: nat)) = Inr (True, s') \<and> stackPop s' = Inr (Some 3, s'') \<and>
     sok s'' []"
  using stack_pop_push [OF cstack.holds_emp] .

end
