(* ===== verification/Dict.thy ===== *)
theory Dict
  imports Prelude "HOL-Library.Multiset"
begin

text \<open>
  The hash table of \<open>src/src/dict.c\<close>: two tables of chained buckets with incremental
  rehashing. Every operation is shown to keep the table well formed, never to leave its arrays,
  and to act on the finite map of its entries, whatever the hash function. The contract of a
  dictionary that the database relies on is a locale, met by the hash table and by association
  lists.
\<close>

section \<open>Definitions\<close>

text \<open>A bucket is the chain of its entries; a table that is not allocated is nothing.\<close>

record ('k, 'v) dictht =
  table :: "('k \<times> 'v) list list option"
  ht_size :: nat
  sizemask :: nat
  used :: nat

record ('k, 'v) dict =
  ht0 :: "('k, 'v) dictht"
  ht1 :: "('k, 'v) dictht"
  rehashidx :: int
  iterators :: nat

abbreviation (input) DICT_HT_INITIAL_SIZE :: nat where "DICT_HT_INITIAL_SIZE \<equiv> 4"
abbreviation (input) LONG_MAX :: nat where "LONG_MAX \<equiv> 9223372036854775807"

definition dictReset :: "('k, 'v) dictht" where
  "dictReset = \<lparr>table = None, ht_size = 0, sizemask = 0, used = 0\<rparr>"

definition dictCreate :: "('k, 'v) dict" where
  "dictCreate = \<lparr>ht0 = dictReset, ht1 = dictReset, rehashidx = - 1, iterators = 0\<rparr>"

definition dictIsRehashing :: "('k, 'v) dict \<Rightarrow> bool" where
  "dictIsRehashing d \<longleftrightarrow> rehashidx d \<noteq> - 1"

function next_power :: "nat \<Rightarrow> nat \<Rightarrow> nat" where
  "next_power i n = (if i \<ge> n \<or> i = 0 then i else next_power (i * 2) n)"
  by pat_completeness auto
termination
  by (relation "measure (\<lambda>(i, n). n - i)") auto

declare next_power.simps [simp del]

definition dictNextPower :: "nat \<Rightarrow> nat" where
  "dictNextPower n = (if n \<ge> LONG_MAX then LONG_MAX else next_power DICT_HT_INITIAL_SIZE n)"

text \<open>The flag is true for \<open>DICT_OK\<close>.\<close>

definition dictExpand :: "('k, 'v) dict \<Rightarrow> nat \<Rightarrow> bool \<times> ('k, 'v) dict" where
  "dictExpand d n =
     (let realsize = dictNextPower n
      in if dictIsRehashing d \<or> used (ht0 d) > n then (False, d)
         else if realsize = ht_size (ht0 d) then (False, d)
         else
           let t = \<lparr>table = Some (replicate realsize []), ht_size = realsize,
                    sizemask = realsize - 1, used = 0\<rparr>
           in if table (ht0 d) = None then (True, d\<lparr>ht0 := t\<rparr>)
              else (True, d\<lparr>ht1 := t, rehashidx := 0\<rparr>))"

text \<open>\<open>dict_can_resize\<close> is the argument \<open>can\<close>.\<close>

definition dictResize :: "bool \<Rightarrow> ('k, 'v) dict \<Rightarrow> bool \<times> ('k, 'v) dict" where
  "dictResize can d =
     (if \<not> can \<or> dictIsRehashing d then (False, d)
      else dictExpand d (max (used (ht0 d)) DICT_HT_INITIAL_SIZE))"

definition dictExpandIfNeeded :: "bool \<Rightarrow> ('k, 'v) dict \<Rightarrow> bool \<times> ('k, 'v) dict" where
  "dictExpandIfNeeded can d =
     (if dictIsRehashing d then (True, d)
      else if ht_size (ht0 d) = 0 then dictExpand d DICT_HT_INITIAL_SIZE
      else if used (ht0 d) \<ge> ht_size (ht0 d) \<and> (can \<or> used (ht0 d) div ht_size (ht0 d) > 5)
        then dictExpand d (used (ht0 d) * 2)
      else (True, d))"

text \<open>
  The hash function of the dictionary type is the argument \<open>hf\<close>; the index of a key is its hash,
  as \<open>unsigned int\<close>, masked. Reads and writes of a bucket are checked.
\<close>

definition key_slot :: "('k \<Rightarrow> nat) \<Rightarrow> ('k, 'v) dictht \<Rightarrow> 'k \<Rightarrow> nat" where
  "key_slot hf t k = and (hf k mod 2 ^ 32) (sizemask t)"

definition bucket :: "('k, 'v) dictht \<Rightarrow> nat \<Rightarrow> ('k \<times> 'v) list res" where
  "bucket t i = bindr (deref (table t)) (\<lambda>tb. if i < length tb then Inr (tb ! i) else Inl OutOfBounds)"

definition set_bucket :: "('k, 'v) dictht \<Rightarrow> nat \<Rightarrow> ('k \<times> 'v) list \<Rightarrow> ('k, 'v) dictht res" where
  "set_bucket t i es =
     bindr (deref (table t)) (\<lambda>tb.
       if i < length tb then Inr (t\<lparr>table := Some (tb[i := es])\<rparr>) else Inl OutOfBounds)"

text \<open>Inserting at the head of a chain.\<close>

definition push_entry :: "('k \<Rightarrow> nat) \<Rightarrow> ('k, 'v) dictht \<Rightarrow> 'k \<times> 'v \<Rightarrow> ('k, 'v) dictht res" where
  "push_entry hf t e =
     (let i = key_slot hf t (fst e)
      in bindr (bucket t i) (\<lambda>es. bindr (set_bucket t i (e # es)) (\<lambda>t. Inr (t\<lparr>used := used t + 1\<rparr>))))"

fun move_entries :: "('k \<Rightarrow> nat) \<Rightarrow> ('k \<times> 'v) list \<Rightarrow> ('k, 'v) dictht \<Rightarrow> ('k, 'v) dictht res" where
  "move_entries hf [] t = Inr t"
| "move_entries hf (e # es) t = bindr (push_entry hf t e) (\<lambda>t. move_entries hf es t)"

text \<open>
  The search for a bucket that is not empty: the index, the visits left, and whether the visits
  ran out.
\<close>

function rehash_skip :: "('k \<times> 'v) list list \<Rightarrow> nat \<Rightarrow> nat \<Rightarrow> (nat \<times> nat \<times> bool) res" where
  "rehash_skip tb i visits =
     (if i \<ge> length tb then Inl OutOfBounds
      else if tb ! i \<noteq> [] then Inr (i, visits, False)
      else if visits - 1 = 0 then Inr (i + 1, visits - 1, True)
      else rehash_skip tb (i + 1) (visits - 1))"
  by pat_completeness auto
termination
  by (relation "measure (\<lambda>(tb, i, _). length tb - i)") auto

declare rehash_skip.simps [simp del]

fun rehash_loop :: "('k \<Rightarrow> nat) \<Rightarrow> nat \<Rightarrow> nat \<Rightarrow> ('k, 'v) dict \<Rightarrow> (bool \<times> ('k, 'v) dict) res" where
  "rehash_loop hf 0 visits d = Inr (False, d)"
| "rehash_loop hf (Suc n) visits d =
     (if used (ht0 d) = 0 then Inr (False, d)
      else
        assertr (int (ht_size (ht0 d)) > rehashidx d)
          (bindr (deref (table (ht0 d))) (\<lambda>tb.
             bindr (rehash_skip tb (nat (rehashidx d)) visits) (\<lambda>(i, visits, stop).
               if stop then Inr (True, d\<lparr>rehashidx := int i\<rparr>)
               else
                 bindr (move_entries hf (tb ! i) (ht1 d)) (\<lambda>t1.
                   rehash_loop hf n visits
                     (d\<lparr>ht0 := (ht0 d)\<lparr>table := Some (tb[i := []]),
                                         used := used (ht0 d) - length (tb ! i)\<rparr>,
                        ht1 := t1, rehashidx := int i + 1\<rparr>))))))"

definition dictRehash :: "('k \<Rightarrow> nat) \<Rightarrow> nat \<Rightarrow> ('k, 'v) dict \<Rightarrow> (bool \<times> ('k, 'v) dict) res" where
  "dictRehash hf n d =
     (if \<not> dictIsRehashing d then Inr (False, d)
      else
        bindr (rehash_loop hf n (n * 10) d) (\<lambda>(stop, d).
          if stop then Inr (True, d)
          else if used (ht0 d) = 0 then
            Inr (False, d\<lparr>ht0 := ht1 d, ht1 := dictReset, rehashidx := - 1\<rparr>)
          else Inr (True, d)))"

definition dictRehashStep :: "('k \<Rightarrow> nat) \<Rightarrow> ('k, 'v) dict \<Rightarrow> ('k, 'v) dict res" where
  "dictRehashStep hf d =
     (if iterators d = 0 then bindr (dictRehash hf 1 d) (\<lambda>(_, d). Inr d) else Inr d)"

definition rehash_if :: "('k \<Rightarrow> nat) \<Rightarrow> ('k, 'v) dict \<Rightarrow> ('k, 'v) dict res" where
  "rehash_if hf d = (if dictIsRehashing d then dictRehashStep hf d else Inr d)"

text \<open>The search of the first and, while rehashing, of the second table.\<close>

definition find_tables :: "('k \<Rightarrow> nat) \<Rightarrow> ('k, 'v) dict \<Rightarrow> 'k \<Rightarrow> 'v option res" where
  "find_tables hf d k =
     bindr (bucket (ht0 d) (key_slot hf (ht0 d) k)) (\<lambda>b.
       case map_of b k of
         Some v \<Rightarrow> Inr (Some v)
       | None \<Rightarrow>
           if \<not> dictIsRehashing d then Inr None
           else bindr (bucket (ht1 d) (key_slot hf (ht1 d) k)) (\<lambda>b. Inr (map_of b k)))"

definition dictFind :: "('k \<Rightarrow> nat) \<Rightarrow> ('k, 'v) dict \<Rightarrow> 'k \<Rightarrow> ('v option \<times> ('k, 'v) dict) res" where
  "dictFind hf d k =
     (if used (ht0 d) + used (ht1 d) = 0 then Inr (None, d)
      else bindr (rehash_if hf d) (\<lambda>d. bindr (find_tables hf d k) (\<lambda>r. Inr (r, d))))"

definition dictFetchValue :: "('k \<Rightarrow> nat) \<Rightarrow> ('k, 'v) dict \<Rightarrow> 'k \<Rightarrow> ('v option \<times> ('k, 'v) dict) res" where
  "dictFetchValue hf d k = dictFind hf d k"

text \<open>
  \<open>_dictKeyIndex\<close> and \<open>dictAddRaw\<close>: nothing when the tables cannot grow; else whether the key
  was there already, which leaves the tables as they are, and the tables. The new entry is filled
  with the value its caller sets.
\<close>

definition dictAddRaw ::
  "('k \<Rightarrow> nat) \<Rightarrow> bool \<Rightarrow> ('k, 'v) dict \<Rightarrow> 'k \<Rightarrow> 'v \<Rightarrow> (bool option \<times> ('k, 'v) dict) res" where
  "dictAddRaw hf can d k v =
     bindr (rehash_if hf d) (\<lambda>d.
       let (ok, d) = dictExpandIfNeeded can d
       in if \<not> ok then Inr (None, d)
          else
            bindr (find_tables hf d k) (\<lambda>r.
              if r \<noteq> None then Inr (Some True, d)
              else if dictIsRehashing d then
                bindr (push_entry hf (ht1 d) (k, v)) (\<lambda>t. Inr (Some False, d\<lparr>ht1 := t\<rparr>))
              else bindr (push_entry hf (ht0 d) (k, v)) (\<lambda>t. Inr (Some False, d\<lparr>ht0 := t\<rparr>))))"

definition dictAdd :: "('k \<Rightarrow> nat) \<Rightarrow> bool \<Rightarrow> ('k, 'v) dict \<Rightarrow> 'k \<Rightarrow> 'v \<Rightarrow> (bool \<times> ('k, 'v) dict) res" where
  "dictAdd hf can d k v = bindr (dictAddRaw hf can d k v) (\<lambda>(r, d). Inr (r = Some False, d))"

text \<open>Setting the value of the first entry with the key that a search finds.\<close>

definition overwrite :: "('k \<Rightarrow> nat) \<Rightarrow> ('k, 'v) dict \<Rightarrow> 'k \<Rightarrow> 'v \<Rightarrow> ('k, 'v) dict res" where
  "overwrite hf d k v =
     bindr (bucket (ht0 d) (key_slot hf (ht0 d) k)) (\<lambda>b.
       if map_of b k \<noteq> None then
         bindr (set_bucket (ht0 d) (key_slot hf (ht0 d) k) (AList.update k v b)) (\<lambda>t. Inr (d\<lparr>ht0 := t\<rparr>))
       else
         bindr (bucket (ht1 d) (key_slot hf (ht1 d) k)) (\<lambda>b.
           bindr (set_bucket (ht1 d) (key_slot hf (ht1 d) k) (AList.update k v b)) (\<lambda>t. Inr (d\<lparr>ht1 := t\<rparr>))))"

definition dictReplace :: "('k \<Rightarrow> nat) \<Rightarrow> bool \<Rightarrow> ('k, 'v) dict \<Rightarrow> 'k \<Rightarrow> 'v \<Rightarrow> (bool \<times> ('k, 'v) dict) res" where
  "dictReplace hf can d k v =
     bindr (dictAddRaw hf can d k v) (\<lambda>(r, d).
       case r of
         None \<Rightarrow> Inl NullDeref
       | Some False \<Rightarrow> Inr (True, d)
       | Some True \<Rightarrow> bindr (overwrite hf d k v) (\<lambda>d. Inr (False, d)))"

text \<open>Unlinking the entry of a key from one table: the table changes only when it is found.\<close>

definition unlink_entry :: "('k \<Rightarrow> nat) \<Rightarrow> ('k, 'v) dictht \<Rightarrow> 'k \<Rightarrow> ('v option \<times> ('k, 'v) dictht) res" where
  "unlink_entry hf t k =
     (let i = key_slot hf t k
      in bindr (bucket t i) (\<lambda>b.
           case map_of b k of
             None \<Rightarrow> Inr (None, t)
           | Some v \<Rightarrow>
               bindr (set_bucket t i (remove1 (k, v) b)) (\<lambda>t.
                 Inr (Some v, t\<lparr>used := used t - 1\<rparr>))))"

definition dictGenericDelete :: "('k \<Rightarrow> nat) \<Rightarrow> ('k, 'v) dict \<Rightarrow> 'k \<Rightarrow> ('v option \<times> ('k, 'v) dict) res" where
  "dictGenericDelete hf d k =
     (if used (ht0 d) = 0 \<and> used (ht1 d) = 0 then Inr (None, d)
      else
        bindr (rehash_if hf d) (\<lambda>d.
          bindr (unlink_entry hf (ht0 d) k) (\<lambda>(r, t).
            if r \<noteq> None then Inr (r, d\<lparr>ht0 := t\<rparr>)
            else if \<not> dictIsRehashing d then Inr (None, d)
            else bindr (unlink_entry hf (ht1 d) k) (\<lambda>(r, t). Inr (r, d\<lparr>ht1 := t\<rparr>)))))"

definition dictDelete :: "('k \<Rightarrow> nat) \<Rightarrow> ('k, 'v) dict \<Rightarrow> 'k \<Rightarrow> (bool \<times> ('k, 'v) dict) res" where
  "dictDelete hf d k = bindr (dictGenericDelete hf d k) (\<lambda>(r, d). Inr (r \<noteq> None, d))"

definition dictUnlink :: "('k \<Rightarrow> nat) \<Rightarrow> ('k, 'v) dict \<Rightarrow> 'k \<Rightarrow> ('v option \<times> ('k, 'v) dict) res" where
  "dictUnlink hf d k = dictGenericDelete hf d k"

definition dictClear :: "('k, 'v) dictht \<Rightarrow> ('k, 'v) dictht" where
  "dictClear t = dictReset"

definition dictEmpty :: "('k, 'v) dict \<Rightarrow> ('k, 'v) dict" where
  "dictEmpty d =
     d\<lparr>ht0 := dictClear (ht0 d), ht1 := dictClear (ht1 d), rehashidx := - 1, iterators := 0\<rparr>"

section \<open>Well-formed tables\<close>

definition tents :: "('k, 'v) dictht \<Rightarrow> ('k \<times> 'v) list" where
  "tents t = (case table t of None \<Rightarrow> [] | Some tb \<Rightarrow> concat tb)"

definition ents :: "('k, 'v) dict \<Rightarrow> ('k \<times> 'v) list" where
  "ents d = tents (ht0 d) @ tents (ht1 d)"

definition ht_ok :: "('k \<Rightarrow> nat) \<Rightarrow> ('k, 'v) dictht \<Rightarrow> bool" where
  "ht_ok hf t \<longleftrightarrow>
     (case table t of
        None \<Rightarrow> ht_size t = 0 \<and> used t = 0
      | Some tb \<Rightarrow> (\<exists>p. ht_size t = 2 ^ p) \<and> length tb = ht_size t \<and> sizemask t = ht_size t - 1 \<and>
          used t = length (concat tb) \<and>
          (\<forall>i < length tb. \<forall>e \<in> set (tb ! i). key_slot hf t (fst e) = i))"

definition dict_ok :: "('k \<Rightarrow> nat) \<Rightarrow> ('k, 'v) dict \<Rightarrow> bool" where
  "dict_ok hf d \<longleftrightarrow> ht_ok hf (ht0 d) \<and> ht_ok hf (ht1 d) \<and> distinct (map fst (ents d)) \<and>
     (if dictIsRehashing d then
        0 \<le> rehashidx d \<and> rehashidx d \<le> int (ht_size (ht0 d)) \<and> table (ht1 d) \<noteq> None \<and>
        (\<exists>tb. table (ht0 d) = Some tb \<and> (\<forall>i < nat (rehashidx d). tb ! i = []))
      else table (ht1 d) = None)"

text \<open>The finite map a table stands for.\<close>

definition dmap :: "('k, 'v) dict \<Rightarrow> 'k \<Rightarrow> 'v option" where
  "dmap d = map_of (ents d)"

lemma key_slot_less:
  assumes "ht_ok hf t" and "table t = Some tb"
  shows "key_slot hf t k < length tb"
proof -
  obtain p where p: "ht_size t = 2 ^ p" "sizemask t = 2 ^ p - 1" "length tb = 2 ^ p"
    using assms by (auto simp: ht_ok_def)
  have "and (hf k mod 2 ^ 32) (mask p) < 2 ^ p"
    unfolding take_bit_eq_mask [symmetric] by (simp add: take_bit_nat_less_exp)
  then show ?thesis unfolding key_slot_def p by (simp add: mask_eq_exp_minus_1)
qed

lemma bucket_ok:
  assumes "ht_ok hf t" and "table t = Some tb"
  shows "bucket t (key_slot hf t k) = Inr (tb ! key_slot hf t k)"
  using key_slot_less [OF assms] assms(2) by (simp add: bucket_def)

lemma concat_split: "i < length tb \<Longrightarrow> concat tb = concat (take i tb) @ tb ! i @ concat (drop (Suc i) tb)"
  by (metis concat.simps(2) concat_append id_take_nth_drop)

lemma concat_update_mset:
  "i < length tb \<Longrightarrow> mset (concat (tb[i := es])) + mset (tb ! i) = mset (concat tb) + mset es"
  using concat_split [of i tb] by (simp add: upd_conv_take_nth_drop)

text \<open>A key is only in its own bucket.\<close>

lemma slot_only:
  assumes "ht_ok hf t" and "table t = Some tb" and "j < length tb" and "k \<in> fst ` set (tb ! j)"
  shows "j = key_slot hf t k"
  using assms by (auto simp: ht_ok_def)

lemma tents_lookup:
  assumes "ht_ok hf t" and "table t = Some tb"
  shows "map_of (tents t) k = map_of (tb ! key_slot hf t k) k"
proof -
  let ?i = "key_slot hf t k"
  have i: "?i < length tb" by (rule key_slot_less [OF assms])
  have "map_of (concat (take ?i tb)) k = None"
  proof (rule ccontr)
    assume "\<not> ?thesis"
    then have "k \<in> fst ` set (concat (take ?i tb))" by (metis map_of_eq_None_iff)
    then obtain b where b: "b \<in> set (take ?i tb)" "k \<in> fst ` set b" by auto
    then obtain j where "j < ?i" "b = tb ! j" using i by (auto simp: in_set_conv_nth)
    with slot_only [OF assms, of j k] i b(2) show False by simp
  qed
  moreover have "map_of (concat (drop (Suc ?i) tb)) k = None"
  proof (rule ccontr)
    assume "\<not> ?thesis"
    then have "k \<in> fst ` set (concat (drop (Suc ?i) tb))" by (metis map_of_eq_None_iff)
    then obtain b where b: "b \<in> set (drop (Suc ?i) tb)" "k \<in> fst ` set b" by auto
    then obtain j where "j < length (drop (Suc ?i) tb)" "b = drop (Suc ?i) tb ! j"
      by (metis in_set_conv_nth)
    then have "Suc ?i + j < length tb" "b = tb ! (Suc ?i + j)" by simp_all
    with slot_only [OF assms, of "Suc ?i + j" k] b(2) show False by simp
  qed
  ultimately show ?thesis
    using assms(2) concat_split [OF i] by (simp add: tents_def map_add_def split: option.splits)
qed

text \<open>Replacing the chain of one bucket by one whose keys belong there.\<close>

lemma set_bucket_ok:
  assumes "ht_ok hf t" and "table t = Some tb" and "i < length tb"
    and "\<forall>e \<in> set es. key_slot hf t (fst e) = i"
  shows "\<exists>t'. set_bucket t i es = Inr t' \<and> ht_ok hf (t'\<lparr>used := length (concat (tb[i := es]))\<rparr>) \<and>
    table t' = Some (tb[i := es]) \<and> ht_size t' = ht_size t \<and> used t' = used t \<and> sizemask t' = sizemask t"
proof -
  let ?t = "t\<lparr>table := Some (tb[i := es])\<rparr>"
  have "key_slot hf (?t\<lparr>used := length (concat (tb[i := es]))\<rparr>) k = key_slot hf t k" for k by (simp add: key_slot_def)
  then have "ht_ok hf (?t\<lparr>used := length (concat (tb[i := es]))\<rparr>)"
    using assms by (auto simp: ht_ok_def nth_list_update)
  then show ?thesis using assms(2,3) by (simp add: set_bucket_def)
qed

lemma push_entry_ok:
  assumes "ht_ok hf t" and "table t \<noteq> None"
  shows "\<exists>t'. push_entry hf t e = Inr t' \<and> ht_ok hf t' \<and> table t' \<noteq> None \<and> ht_size t' = ht_size t \<and>
    mset (tents t') = add_mset e (mset (tents t)) \<and> used t' = Suc (used t)"
proof -
  obtain tb where tb: "table t = Some tb" using assms(2) by auto
  let ?i = "key_slot hf t (fst e)"
  have i: "?i < length tb" by (rule key_slot_less [OF assms(1) tb])
  have "\<forall>x \<in> set (e # tb ! ?i). key_slot hf t (fst x) = ?i"
    using assms(1) tb i by (auto simp: ht_ok_def)
  then obtain u where u: "set_bucket t ?i (e # tb ! ?i) = Inr u"
    "ht_ok hf (u\<lparr>used := length (concat (tb[?i := e # tb ! ?i]))\<rparr>)"
    "table u = Some (tb[?i := e # tb ! ?i])" "ht_size u = ht_size t" "used u = used t"
    using set_bucket_ok [OF assms(1) tb i] by blast
  have m: "mset (concat (tb[?i := e # tb ! ?i])) = add_mset e (mset (concat tb))"
    using concat_update_mset [OF i, of "e # tb ! ?i"] by simp
  have "used t = length (concat tb)" using assms(1) tb by (simp add: ht_ok_def)
  then have l: "length (concat (tb[?i := e # tb ! ?i])) = Suc (used t)"
    using m by (metis size_add_mset size_mset)
  show ?thesis
    using u(2) u(1,3-5) bucket_ok [OF assms(1) tb] m tb unfolding l
    by (simp add: push_entry_def Let_def tents_def)
qed

lemma move_entries_ok:
  assumes "ht_ok hf t" and "table t \<noteq> None"
  shows "\<exists>t'. move_entries hf es t = Inr t' \<and> ht_ok hf t' \<and> table t' \<noteq> None \<and> ht_size t' = ht_size t \<and>
    mset (tents t') = mset es + mset (tents t)"
  using assms
proof (induction es arbitrary: t)
  case (Cons e es)
  obtain u where u: "push_entry hf t e = Inr u" "ht_ok hf u" "table u \<noteq> None" "ht_size u = ht_size t"
    "mset (tents u) = add_mset e (mset (tents t))" using push_entry_ok [OF Cons.prems] by blast
  with Cons.IH [OF u(2,3)] show ?case by auto
qed simp

section \<open>Rehashing\<close>

lemma rehash_skip_ok:
  assumes "i \<le> j" and "j < length tb" and "tb ! j \<noteq> []" and "0 < visits"
  shows "\<exists>i' v stop. rehash_skip tb i visits = Inr (i', v, stop) \<and> i \<le> i' \<and> i' \<le> j \<and>
    (\<forall>m. i \<le> m \<longrightarrow> m < i' \<longrightarrow> tb ! m = []) \<and> (\<not> stop \<longrightarrow> tb ! i' \<noteq> [] \<and> 0 < v)"
  using assms
proof (induction "j - i" arbitrary: i visits)
  case 0
  then show ?case by (subst rehash_skip.simps) auto
next
  case (Suc n)
  show ?case
  proof (cases "tb ! i \<noteq> [] \<or> visits - 1 = 0")
    case True
    with Suc show ?thesis by (subst rehash_skip.simps) (auto simp: less_Suc_eq)
  next
    case False
    then have v: "0 < visits - 1" by simp
    have "n = j - Suc i" "Suc i \<le> j" using Suc.hyps(2) by linarith+
    from Suc.hyps(1) [OF this Suc.prems(2,3) v] obtain i' w stop where r:
      "rehash_skip tb (Suc i) (visits - 1) = Inr (i', w, stop)" "Suc i \<le> i'" "i' \<le> j"
      "\<forall>m. Suc i \<le> m \<longrightarrow> m < i' \<longrightarrow> tb ! m = []" "\<not> stop \<longrightarrow> tb ! i' \<noteq> [] \<and> 0 < w" by blast
    have "\<forall>m. i \<le> m \<longrightarrow> m < i' \<longrightarrow> tb ! m = []" using r(4) False by (metis Suc_leI le_neq_implies_less)
    with r False Suc.prems show ?thesis by (subst rehash_skip.simps) auto
  qed
qed

text \<open>While entries are left in the old table, one of its buckets from the index on holds them.\<close>

lemma rehash_bucket_left:
  assumes "dict_ok hf d" and "dictIsRehashing d" and "used (ht0 d) \<noteq> 0" and "table (ht0 d) = Some tb"
  obtains j where "nat (rehashidx d) \<le> j" "j < length tb" "tb ! j \<noteq> []"
proof -
  have "length (concat tb) \<noteq> 0" using assms by (simp add: dict_ok_def ht_ok_def)
  then obtain b where "b \<in> set tb" "b \<noteq> []" by fastforce
  then obtain j where j: "j < length tb" "tb ! j \<noteq> []" by (metis in_set_conv_nth)
  have "\<forall>i < nat (rehashidx d). tb ! i = []" using assms by (simp add: dict_ok_def)
  with j have "nat (rehashidx d) \<le> j" using not_le_imp_less by blast
  with j that show thesis by blast
qed

text \<open>Moving one bucket keeps the invariant and the entries.\<close>

lemma rehash_move_ok:
  assumes "dict_ok hf d" and "dictIsRehashing d" and "table (ht0 d) = Some tb" and "i < length tb"
    and "nat (rehashidx d) \<le> i" and "\<forall>m. nat (rehashidx d) \<le> m \<longrightarrow> m < i \<longrightarrow> tb ! m = []"
  shows "\<exists>t1. move_entries hf (tb ! i) (ht1 d) = Inr t1 \<and>
    (let d' = d\<lparr>ht0 := (ht0 d)\<lparr>table := Some (tb[i := []]), used := used (ht0 d) - length (tb ! i)\<rparr>,
                ht1 := t1, rehashidx := int i + 1\<rparr>
     in dict_ok hf d' \<and> dictIsRehashing d' \<and> mset (ents d') = mset (ents d) \<and> iterators d' = iterators d)"
proof -
  note ok = assms(1,2) [unfolded dict_ok_def]
  have t1: "ht_ok hf (ht1 d)" "table (ht1 d) \<noteq> None" using assms(1,2) by (simp_all add: dict_ok_def)
  have t0: "ht_ok hf (ht0 d)" using assms(1) by (simp add: dict_ok_def)
  obtain u where u: "move_entries hf (tb ! i) (ht1 d) = Inr u" "ht_ok hf u" "table u \<noteq> None"
    "mset (tents u) = mset (tb ! i) + mset (tents (ht1 d))" using move_entries_ok [OF t1] by blast
  let ?t = "(ht0 d)\<lparr>table := Some (tb[i := []]), used := used (ht0 d) - length (tb ! i)\<rparr>"
  let ?d = "d\<lparr>ht0 := ?t, ht1 := u, rehashidx := int i + 1\<rparr>"
  have m: "mset (concat (tb[i := []])) + mset (tb ! i) = mset (concat tb)"
    using concat_update_mset [OF assms(4), of "[]"] by simp
  have ents: "mset (ents ?d) = mset (ents d)"
    using m u(4) assms(3) by (simp add: ents_def tents_def add.assoc [symmetric])
  have "length (concat (tb[i := []])) + length (tb ! i) = length (concat tb)"
    using m by (metis size_mset size_union)
  then have l: "length (concat (tb[i := []])) = used (ht0 d) - length (tb ! i)"
    using t0 assms(3) by (simp add: ht_ok_def)
  have slot: "key_slot hf ?t k = key_slot hf (ht0 d) k" for k by (simp add: key_slot_def)
  have "ht_ok hf ?t"
    using t0 assms(3,4) l slot by (auto simp: ht_ok_def nth_list_update)
  moreover have "tb[i := []] ! m = []" if "m < nat (int i + 1)" for m
  proof (cases "m = i")
    case False
    with that have "m < i" by simp
    moreover have "\<forall>m < nat (rehashidx d). tb ! m = []" using assms(1-3) by (simp add: dict_ok_def)
    ultimately show ?thesis using assms(6) False by (cases "m < nat (rehashidx d)") auto
  qed (use assms(4) in simp)
  moreover have "length tb = ht_size (ht0 d)" using t0 assms(3) by (simp add: ht_ok_def)
  moreover have "distinct (map fst (ents ?d))"
    using ents assms(1) by (metis dict_ok_def mset_eq_imp_distinct_iff mset_map)
  ultimately show ?thesis
    using u(1-3) ents assms(4) by (simp add: dict_ok_def dictIsRehashing_def Let_def)
qed

text \<open>What the steps of rehashing keep: the invariant, the entries and the iterators.\<close>

definition keeps :: "('k \<Rightarrow> nat) \<Rightarrow> ('k, 'v) dict \<Rightarrow> ('k, 'v) dict \<Rightarrow> bool" where
  "keeps hf d d' \<longleftrightarrow> dict_ok hf d' \<and> mset (ents d') = mset (ents d) \<and> iterators d' = iterators d"

lemma keeps_trans: "keeps hf a b \<Longrightarrow> keeps hf b c \<Longrightarrow> keeps hf a c"
  by (simp add: keeps_def)

lemma rehash_loop_ok:
  assumes "dict_ok hf d" and "dictIsRehashing d" and "0 < visits"
  shows "\<exists>stop d'. rehash_loop hf n visits d = Inr (stop, d') \<and> keeps hf d d' \<and> dictIsRehashing d'"
  using assms
proof (induction n arbitrary: visits d)
  case 0
  then show ?case by (intro exI [of _ False]) (simp add: keeps_def)
next
  case (Suc n)
  show ?case
  proof (cases "used (ht0 d) = 0")
    case True
    with Suc.prems show ?thesis by (intro exI [of _ False]) (simp add: keeps_def)
  next
    case False
    obtain tb where tb: "table (ht0 d) = Some tb" using Suc.prems by (auto simp: dict_ok_def)
    obtain j where j: "nat (rehashidx d) \<le> j" "j < length tb" "tb ! j \<noteq> []"
      using rehash_bucket_left [OF Suc.prems(1,2) False tb] .
    obtain i v stop where s: "rehash_skip tb (nat (rehashidx d)) visits = Inr (i, v, stop)"
      "nat (rehashidx d) \<le> i" "i \<le> j" "\<forall>m. nat (rehashidx d) \<le> m \<longrightarrow> m < i \<longrightarrow> tb ! m = []"
      "\<not> stop \<longrightarrow> tb ! i \<noteq> [] \<and> 0 < v" using rehash_skip_ok [OF j Suc.prems(3)] by blast
    have sz: "length tb = ht_size (ht0 d)" "0 \<le> rehashidx d"
      using Suc.prems tb by (auto simp: dict_ok_def ht_ok_def)
    then have a: "int (ht_size (ht0 d)) > rehashidx d" using j by linarith
    show ?thesis
    proof (cases stop)
      case True
      have "\<forall>m < i. tb ! m = []"
        using s(4) Suc.prems tb by (metis dict_ok_def le_less_linear option.inject)
      then have "keeps hf d (d\<lparr>rehashidx := int i\<rparr>) \<and> dictIsRehashing (d\<lparr>rehashidx := int i\<rparr>)"
        using Suc.prems tb s(3) j(2) sz(1)
        by (simp add: keeps_def dict_ok_def dictIsRehashing_def ents_def)
      then show ?thesis using False a tb s(1) True by (intro exI [of _ True]) simp
    next
      case nstop: False
      have i: "i < length tb" using s(3) j(2) by simp
      let ?d = "\<lambda>t1. d\<lparr>ht0 := (ht0 d)\<lparr>table := Some (tb[i := []]), used := used (ht0 d) - length (tb ! i)\<rparr>,
        ht1 := t1, rehashidx := int i + 1\<rparr>"
      obtain t1 where t1: "move_entries hf (tb ! i) (ht1 d) = Inr t1" "dict_ok hf (?d t1)"
        "dictIsRehashing (?d t1)" "mset (ents (?d t1)) = mset (ents d)"
        using rehash_move_ok [OF Suc.prems(1,2) tb i s(2,4)] by (auto simp: Let_def)
      have "keeps hf d (?d t1)" using t1 by (simp add: keeps_def)
      moreover obtain st d' where "rehash_loop hf n v (?d t1) = Inr (st, d')" "keeps hf (?d t1) d'" "dictIsRehashing d'"
        using Suc.IH [OF t1(2,3), of v] s(5) nstop by blast
      ultimately show ?thesis
        using False a tb s(1) nstop t1(1) keeps_trans [of hf d "?d t1" d'] by simp
    qed
  qed
qed

lemma dictRehash_ok:
  assumes "dict_ok hf d" and "0 < n"
  shows "\<exists>r d'. dictRehash hf n d = Inr (r, d') \<and> keeps hf d d'"
proof (cases "dictIsRehashing d")
  case True
  obtain stop d' where l: "rehash_loop hf n (n * 10) d = Inr (stop, d')" "keeps hf d d'" "dictIsRehashing d'"
    using rehash_loop_ok [OF assms(1) True, of "n * 10" n] assms(2) by auto
  have "keeps hf d' (d'\<lparr>ht0 := ht1 d', ht1 := dictReset, rehashidx := - 1\<rparr>)" if "used (ht0 d') = 0"
  proof -
    have "tents (ht0 d') = []"
      using that l(2,3) by (auto simp: keeps_def dict_ok_def ht_ok_def tents_def split: option.splits)
    then show ?thesis
      using l(2,3) by (simp add: keeps_def dict_ok_def dictIsRehashing_def ents_def tents_def dictReset_def ht_ok_def)
  qed
  then show ?thesis
    using True l keeps_trans [OF l(2)] by (auto simp: dictRehash_def)
next
  case False
  with assms show ?thesis by (intro exI [of _ False]) (simp add: dictRehash_def keeps_def)
qed

lemma rehash_if_ok:
  assumes "dict_ok hf d"
  shows "\<exists>d'. rehash_if hf d = Inr d' \<and> keeps hf d d'"
proof -
  obtain r d' where "dictRehash hf 1 d = Inr (r, d')" "keeps hf d d'"
    using dictRehash_ok [OF assms, of 1] by auto
  then show ?thesis using assms by (auto simp: rehash_if_def dictRehashStep_def keeps_def)
qed

text \<open>Equal multisets of entries with distinct keys stand for the same map.\<close>

lemma map_of_mset:
  assumes "mset xs = mset ys" and "distinct (map fst xs)"
  shows "map_of xs = map_of ys"
proof -
  have "distinct (map fst ys)" using assms by (metis mset_eq_imp_distinct_iff mset_map)
  moreover have "set xs = set ys" using assms(1) by (rule mset_eq_setD)
  ultimately show ?thesis using assms(2) by (metis map_of_eqI map_of_eq_Some_iff option.exhaust_sel ext)
qed

lemma keeps_dmap: "dict_ok hf d \<Longrightarrow> keeps hf d d' \<Longrightarrow> dmap d' = dmap d"
  unfolding dmap_def keeps_def dict_ok_def by (rule map_of_mset) auto

section \<open>Operations act on the map\<close>

lemma dict_ok_table0:
  assumes "dict_ok hf d" and "dictIsRehashing d \<or> ht_size (ht0 d) \<noteq> 0"
  obtains tb where "table (ht0 d) = Some tb"
  using assms by (auto simp: dict_ok_def ht_ok_def split: option.splits if_splits)

lemma dmap_tables:
  assumes "dict_ok hf d"
  shows "dmap d k = (case map_of (tents (ht0 d)) k of
    Some v \<Rightarrow> Some v | None \<Rightarrow> map_of (tents (ht1 d)) k)"
proof (cases "map_of (tents (ht0 d)) k")
  case (Some v)
  then have "(k, v) \<in> set (ents d)" using map_of_SomeD [OF Some] by (simp add: ents_def)
  then show ?thesis using assms Some by (simp add: dmap_def dict_ok_def)
next
  case None
  then show ?thesis by (simp add: dmap_def ents_def map_add_def split: option.splits)
qed

lemma find_tables_ok:
  assumes "dict_ok hf d" and "table (ht0 d) = Some tb"
  shows "find_tables hf d k = Inr (dmap d k)"
proof -
  have t0: "ht_ok hf (ht0 d)" and t1: "ht_ok hf (ht1 d)" using assms(1) by (simp_all add: dict_ok_def)
  note l0 = tents_lookup [OF t0 assms(2), of k] and b0 = bucket_ok [OF t0 assms(2), of k]
  note m = dmap_tables [OF assms(1), of k]
  show ?thesis
  proof (cases "dictIsRehashing d")
    case True
    then obtain tb1 where tb1: "table (ht1 d) = Some tb1" using assms(1) by (auto simp: dict_ok_def)
    show ?thesis
      using True tents_lookup [OF t1 tb1, of k] bucket_ok [OF t1 tb1, of k] l0 b0 m
      by (simp add: find_tables_def split: option.splits)
  next
    case False
    then have "tents (ht1 d) = []" using assms(1) by (simp add: dict_ok_def tents_def)
    with False show ?thesis
      using l0 b0 m by (simp add: find_tables_def split: option.splits)
  qed
qed

lemma dictFind_ok:
  assumes "dict_ok hf d"
  shows "\<exists>d'. dictFind hf d k = Inr (dmap d k, d') \<and> keeps hf d d'"
proof (cases "used (ht0 d) + used (ht1 d) = 0")
  case True
  then have "ents d = []"
    using assms by (auto simp: ents_def tents_def dict_ok_def ht_ok_def split: option.splits)
  with True assms show ?thesis by (simp add: dictFind_def dmap_def keeps_def)
next
  case False
  obtain d' where d': "rehash_if hf d = Inr d'" "keeps hf d d'" using rehash_if_ok [OF assms] by blast
  have ok: "dict_ok hf d'" using d'(2) by (simp add: keeps_def)
  have "length (ents d) = used (ht0 d) + used (ht1 d)"
    using assms by (auto simp: ents_def tents_def dict_ok_def ht_ok_def split: option.splits)
  then have "length (ents d') \<noteq> 0" using False d'(2) by (metis keeps_def size_mset)
  then obtain tb where "table (ht0 d') = Some tb"
    using ok by (auto simp: ents_def tents_def dict_ok_def split: option.splits if_splits)
  with find_tables_ok [OF ok] keeps_dmap [OF assms d'(2)] d' False
  show ?thesis by (auto simp: dictFind_def)
qed

subsection \<open>Growing\<close>

lemma next_power_ok:
  "(\<exists>p. i = 2 ^ p) \<Longrightarrow> (\<exists>p. next_power i n = 2 ^ p) \<and> n \<le> next_power i n \<and> i \<le> next_power i n"
proof (induction i n rule: next_power.induct)
  case (1 i n)
  show ?case
  proof (cases "i \<ge> n \<or> i = 0")
    case True
    with "1.prems" show ?thesis by (subst (1 2 3) next_power.simps) auto
  next
    case False
    have "\<exists>p. i * 2 = 2 ^ p" using "1.prems" by (metis mult.commute power_Suc)
    from "1.IH" [OF False this] False show ?thesis by (subst (1 2 3) next_power.simps) auto
  qed
qed

lemma dictNextPower_ok:
  assumes "n < LONG_MAX"
  shows "(\<exists>p. dictNextPower n = 2 ^ p) \<and> n \<le> dictNextPower n \<and> 4 \<le> dictNextPower n"
proof -
  have "\<exists>p. (4 :: nat) = 2 ^ p" by (intro exI [of _ 2]) simp
  from next_power_ok [OF this, of n] assms show ?thesis by (simp add: dictNextPower_def)
qed

lemma fresh_table_ok:
  "\<exists>p. n = 2 ^ p \<Longrightarrow> ht_ok hf \<lparr>table = Some (replicate n []), ht_size = n, sizemask = n - 1, used = 0\<rparr>"
  by (auto simp: ht_ok_def)

lemma tents_fresh: "tents \<lparr>table = Some (replicate n []), ht_size = n, sizemask = n - 1, used = 0\<rparr> = []"
  by (simp add: tents_def)

text \<open>A successful expansion keeps the entries; the first table is allocated afterwards.\<close>

lemma dictExpand_ok:
  assumes "dict_ok hf d" and "\<not> dictIsRehashing d" and "n < LONG_MAX" and "used (ht0 d) \<le> n"
    and "dictNextPower n \<noteq> ht_size (ht0 d)"
  shows "\<exists>d'. dictExpand d n = (True, d') \<and> keeps hf d d' \<and> table (ht0 d') \<noteq> None"
proof -
  let ?n = "dictNextPower n"
  let ?t = "\<lparr>table = Some (replicate ?n []), ht_size = ?n, sizemask = ?n - 1, used = 0\<rparr>"
  have t: "ht_ok hf ?t" using dictNextPower_ok [OF assms(3)] by (intro fresh_table_ok) blast
  note ok = assms(1) [unfolded dict_ok_def]
  show ?thesis
  proof (cases "table (ht0 d)")
    case None
    then have "keeps hf d (d\<lparr>ht0 := ?t\<rparr>)"
      using ok t assms(2) by (auto simp: keeps_def dict_ok_def dictIsRehashing_def ents_def tents_def)
    with None assms show ?thesis by (simp add: dictExpand_def Let_def)
  next
    case (Some tb)
    then have "keeps hf d (d\<lparr>ht1 := ?t, rehashidx := 0\<rparr>)"
      using ok t assms(2) by (auto simp: keeps_def dict_ok_def dictIsRehashing_def ents_def tents_def)
    with Some assms show ?thesis by (simp add: dictExpand_def Let_def)
  qed
qed

lemma dictExpandIfNeeded_ok:
  assumes "dict_ok hf d" and "used (ht0 d) * 2 < LONG_MAX"
  shows "\<exists>d'. dictExpandIfNeeded can d = (True, d') \<and> keeps hf d d' \<and> table (ht0 d') \<noteq> None"
proof -
  have z: "ht_size (ht0 d) = 0 \<longleftrightarrow> table (ht0 d) = None" "ht_size (ht0 d) = 0 \<Longrightarrow> used (ht0 d) = 0"
    using assms(1) by (auto simp: dict_ok_def ht_ok_def split: option.splits)
  consider (re) "dictIsRehashing d" | (emp) "\<not> dictIsRehashing d" "ht_size (ht0 d) = 0"
    | (grow) "\<not> dictIsRehashing d" "ht_size (ht0 d) \<noteq> 0" "used (ht0 d) \<ge> ht_size (ht0 d)"
        "can \<or> used (ht0 d) div ht_size (ht0 d) > 5"
    | (stay) "\<not> dictIsRehashing d" "ht_size (ht0 d) \<noteq> 0"
        "\<not> (used (ht0 d) \<ge> ht_size (ht0 d) \<and> (can \<or> used (ht0 d) div ht_size (ht0 d) > 5))" by blast
  then show ?thesis
  proof cases
    case re
    with assms show ?thesis by (auto simp: dictExpandIfNeeded_def keeps_def dict_ok_def)
  next
    case emp
    have "dictNextPower 4 \<noteq> ht_size (ht0 d)" using dictNextPower_ok [of 4] emp by simp
    with dictExpand_ok [OF assms(1) emp(1), of 4] emp z show ?thesis by (simp add: dictExpandIfNeeded_def)
  next
    case grow
    have "used (ht0 d) * 2 \<le> dictNextPower (used (ht0 d) * 2)" using dictNextPower_ok assms(2) by blast
    then have "dictNextPower (used (ht0 d) * 2) \<noteq> ht_size (ht0 d)" using grow by linarith
    with dictExpand_ok [OF assms(1) grow(1) assms(2)] grow show ?thesis by (simp add: dictExpandIfNeeded_def)
  next
    case stay
    then have "dictExpandIfNeeded can d = (True, d)" by (auto simp: dictExpandIfNeeded_def)
    with assms z stay show ?thesis by (simp add: keeps_def)
  qed
qed

subsection \<open>Adding\<close>

lemma ents_length: "dict_ok hf d \<Longrightarrow> length (ents d) = used (ht0 d) + used (ht1 d)"
  by (auto simp: ents_def tents_def dict_ok_def ht_ok_def split: option.splits)

lemma dmap_add:
  assumes "dict_ok hf d" and "dict_ok hf d'" and "mset (ents d') = add_mset (k, v) (mset (ents d))"
  shows "dmap d' = (dmap d)(k \<mapsto> v)"
proof -
  have "dmap d' = map_of ((k, v) # ents d)"
    unfolding dmap_def using assms by (intro map_of_mset) (auto simp: dict_ok_def)
  then show ?thesis by (simp add: dmap_def)
qed

lemma push_new_ok:
  assumes "dict_ok hf d" and "dmap d k = None" and "table (ht0 d) \<noteq> None"
  shows "\<exists>d'. (if dictIsRehashing d then bindr (push_entry hf (ht1 d) (k, v)) (\<lambda>t. Inr (Some False, d\<lparr>ht1 := t\<rparr>))
      else bindr (push_entry hf (ht0 d) (k, v)) (\<lambda>t. Inr (Some False, d\<lparr>ht0 := t\<rparr>))) = Inr (Some False, d') \<and>
    dict_ok hf d' \<and> mset (ents d') = add_mset (k, v) (mset (ents d)) \<and> iterators d' = iterators d"
proof -
  note ok = assms(1) [unfolded dict_ok_def]
  have new: "distinct (map fst ((k, v) # ents d))"
    using assms(1,2) by (simp add: dict_ok_def dmap_def map_of_eq_None_iff)
  have dist: "distinct (map fst (ents d'))" if "mset (ents d') = add_mset (k, v) (mset (ents d))" for d'
    using new that by (metis mset.simps(2) mset_eq_imp_distinct_iff mset_map)
  show ?thesis
  proof (cases "dictIsRehashing d")
    case True
    then obtain t where t: "push_entry hf (ht1 d) (k, v) = Inr t" "ht_ok hf t" "table t \<noteq> None"
      "mset (tents t) = add_mset (k, v) (mset (tents (ht1 d)))"
      using push_entry_ok [of hf "ht1 d" "(k, v)"] assms(1) by (auto simp: dict_ok_def)
    have "mset (ents (d\<lparr>ht1 := t\<rparr>)) = add_mset (k, v) (mset (ents d))" using t(4) by (simp add: ents_def)
    with True t(1-3) ok dist [OF this] show ?thesis by (simp add: dict_ok_def dictIsRehashing_def)
  next
    case False
    obtain t where t: "push_entry hf (ht0 d) (k, v) = Inr t" "ht_ok hf t" "table t \<noteq> None"
      "mset (tents t) = add_mset (k, v) (mset (tents (ht0 d)))"
      using push_entry_ok [of hf "ht0 d" "(k, v)"] assms(1,3) by (auto simp: dict_ok_def)
    have "mset (ents (d\<lparr>ht0 := t\<rparr>)) = add_mset (k, v) (mset (ents d))" using t(4) by (simp add: ents_def)
    with False t(1-3) ok dist [OF this] show ?thesis by (simp add: dict_ok_def dictIsRehashing_def)
  qed
qed

lemma dictAddRaw_ok:
  assumes "dict_ok hf d" and "length (ents d) * 2 < LONG_MAX"
  shows "\<exists>d'. dictAddRaw hf can d k v = Inr (Some (dmap d k \<noteq> None), d') \<and> dict_ok hf d' \<and>
    iterators d' = iterators d \<and> table (ht0 d') \<noteq> None \<and>
    mset (ents d') = (if dmap d k = None then add_mset (k, v) (mset (ents d)) else mset (ents d))"
proof -
  obtain a where a: "rehash_if hf d = Inr a" "keeps hf d a" using rehash_if_ok [OF assms(1)] by blast
  then have "dict_ok hf a" "length (ents a) = length (ents d)"
    by (simp_all add: keeps_def) (metis size_mset)
  moreover from this have "used (ht0 a) * 2 < LONG_MAX" using ents_length [of hf a] assms(2) by simp
  ultimately obtain b where b: "dictExpandIfNeeded can a = (True, b)" "keeps hf a b" "table (ht0 b) \<noteq> None"
    using dictExpandIfNeeded_ok by blast
  have k: "keeps hf d b" "dict_ok hf b" using a(2) b(2) by (auto simp: keeps_def)
  have f: "find_tables hf b k = Inr (dmap d k)"
    using find_tables_ok [OF k(2)] b(3) keeps_dmap [OF assms(1) k(1)] by auto
  show ?thesis
  proof (cases "dmap d k = None")
    case True
    then have "dmap b k = None" using keeps_dmap [OF assms(1) k(1)] by simp
    from push_new_ok [OF k(2) this b(3), of v] obtain c where c:
      "(if dictIsRehashing b then bindr (push_entry hf (ht1 b) (k, v)) (\<lambda>t. Inr (Some False, b\<lparr>ht1 := t\<rparr>))
        else bindr (push_entry hf (ht0 b) (k, v)) (\<lambda>t. Inr (Some False, b\<lparr>ht0 := t\<rparr>))) = Inr (Some False, c)"
      "dict_ok hf c" "mset (ents c) = add_mset (k, v) (mset (ents b))" "iterators c = iterators b" by blast
    have "table (ht0 c) \<noteq> None"
      using c(1) b(3) by (auto simp: bindr_eq_Inr push_entry_def set_bucket_def Let_def split: if_splits)
    with c a(1) b(1) f True k(1) show ?thesis by (simp add: dictAddRaw_def keeps_def)
  next
    case False
    with a(1) b f k show ?thesis by (simp add: dictAddRaw_def keeps_def)
  qed
qed

lemma dictAdd_ok:
  assumes "dict_ok hf d" and "length (ents d) * 2 < LONG_MAX"
  shows "\<exists>d'. dictAdd hf can d k v = Inr (dmap d k = None, d') \<and> dict_ok hf d' \<and>
    dmap d' = (if dmap d k = None then (dmap d)(k \<mapsto> v) else dmap d)"
proof -
  obtain d' where d': "dictAddRaw hf can d k v = Inr (Some (dmap d k \<noteq> None), d')" "dict_ok hf d'"
    "mset (ents d') = (if dmap d k = None then add_mset (k, v) (mset (ents d)) else mset (ents d))"
    using dictAddRaw_ok [OF assms] by blast
  have "dmap d' = (if dmap d k = None then (dmap d)(k \<mapsto> v) else dmap d)"
    using d'(3) dmap_add [OF assms(1) d'(2)] map_of_mset [of "ents d'" "ents d"] d'(2)
    by (auto simp: dmap_def dict_ok_def split: if_splits)
  with d' show ?thesis by (simp add: dictAdd_def)
qed

subsection \<open>Overwriting and deleting\<close>

text \<open>What a table stands for after one chain is replaced.\<close>

lemma tents_set_bucket:
  assumes "ht_ok hf t'" and "table t' = Some (tb[i := es])" and "ht_ok hf t" and "table t = Some tb"
    and "sizemask t' = sizemask t"
  shows "map_of (tents t') k = (if key_slot hf t k = i then map_of es k else map_of (tents t) k)"
proof -
  have "key_slot hf t' k = key_slot hf t k" using assms(5) by (simp add: key_slot_def)
  then show ?thesis
    using tents_lookup [OF assms(1,2), of k] tents_lookup [OF assms(3,4), of k]
      key_slot_less [OF assms(3,4), of k] by (auto simp: nth_list_update)
qed

lemma keys_update: "k \<in> fst ` set b \<Longrightarrow> map fst (AList.update k v b) = map fst b"
  by (induction b) auto

lemma set_update: "e \<in> set (AList.update k v b) \<Longrightarrow> e = (k, v) \<or> e \<in> set b"
  by (induction b) (auto split: if_splits)

lemma concat_keys:
  "i < length tb \<Longrightarrow> map fst es = map fst (tb ! i) \<Longrightarrow> map fst (concat (tb[i := es])) = map fst (concat tb)"
  using concat_split [of i tb] by (simp add: upd_conv_take_nth_drop)

lemma overwrite_table_ok:
  assumes "ht_ok hf t" and "map_of (tents t) k \<noteq> None"
  shows "\<exists>t' tb. table t = Some tb \<and>
    set_bucket t (key_slot hf t k) (AList.update k v (tb ! key_slot hf t k)) = Inr t' \<and> ht_ok hf t' \<and>
    map fst (tents t') = map fst (tents t) \<and> map_of (tents t') = (map_of (tents t))(k \<mapsto> v) \<and>
    table t' \<noteq> None \<and> ht_size t' = ht_size t \<and>
    (\<forall>tb'. table t' = Some tb' \<longrightarrow> (\<forall>i < length tb. tb ! i = [] \<longrightarrow> tb' ! i = []))"
proof -
  obtain tb where tb: "table t = Some tb" using assms(2) by (auto simp: tents_def split: option.splits)
  let ?i = "key_slot hf t k" and ?b = "AList.update k v (tb ! key_slot hf t k)"
  have i: "?i < length tb" by (rule key_slot_less [OF assms(1) tb])
  have kb: "k \<in> fst ` set (tb ! ?i)"
    using assms(2) tents_lookup [OF assms(1) tb, of k] by (metis map_of_eq_None_iff)
  have "\<forall>e \<in> set ?b. key_slot hf t (fst e) = ?i"
    using assms(1) tb i by (auto simp: ht_ok_def dest!: set_update)
  then obtain u where u: "set_bucket t ?i ?b = Inr u" "ht_ok hf (u\<lparr>used := length (concat (tb[?i := ?b]))\<rparr>)"
    "table u = Some (tb[?i := ?b])" "ht_size u = ht_size t" "used u = used t" "sizemask u = sizemask t"
    using set_bucket_ok [OF assms(1) tb i] by blast
  have keys: "map fst (concat (tb[?i := ?b])) = map fst (concat tb)"
    by (rule concat_keys [OF i keys_update [OF kb]])
  have "used t = length (concat tb)" using assms(1) tb by (simp add: ht_ok_def)
  then have "length (concat (tb[?i := ?b])) = used u"
    using u(5) arg_cong [OF keys, of length] by (simp only: length_map)
  then have ok: "ht_ok hf u" using u(2) by simp
  have "map_of (tents u) = (map_of (tents t))(k \<mapsto> v)"
    using tents_set_bucket [OF ok u(3) assms(1) tb u(6)] tents_lookup [OF assms(1) tb]
    by (auto simp: update_conv')
  moreover have "tb[?i := ?b] ! j = []" if "j < length tb" "tb ! j = []" for j
    using that kb by (cases "j = ?i") auto
  ultimately show ?thesis using tb u ok keys by (auto simp: tents_def)
qed

lemma overwrite_ok:
  assumes "dict_ok hf d" and "dmap d k \<noteq> None" and "table (ht0 d) \<noteq> None"
  shows "\<exists>d'. overwrite hf d k v = Inr d' \<and> dict_ok hf d' \<and> dmap d' = (dmap d)(k \<mapsto> v)"
proof -
  have t0: "ht_ok hf (ht0 d)" and t1: "ht_ok hf (ht1 d)" and dist: "distinct (map fst (ents d))"
    using assms(1) by (simp_all add: dict_ok_def)
  obtain tb0 where tb0: "table (ht0 d) = Some tb0" using assms(3) by auto
  note b0 = bucket_ok [OF t0 tb0, of k] and l0 = tents_lookup [OF t0 tb0, of k]
  show ?thesis
  proof (cases "map_of (tents (ht0 d)) k = None")
    case False
    from overwrite_table_ok [OF t0 False, of v] tb0 obtain u where u:
      "set_bucket (ht0 d) (key_slot hf (ht0 d) k) (AList.update k v (tb0 ! key_slot hf (ht0 d) k)) = Inr u"
      "ht_ok hf u" "map fst (tents u) = map fst (tents (ht0 d))" "map_of (tents u) = (map_of (tents (ht0 d)))(k \<mapsto> v)"
      "table u \<noteq> None" "ht_size u = ht_size (ht0 d)"
      "\<forall>tb'. table u = Some tb' \<longrightarrow> (\<forall>i < length tb0. tb0 ! i = [] \<longrightarrow> tb' ! i = [])" by auto
    have len: "length tb0 = ht_size (ht0 d)" using t0 tb0 by (simp add: ht_ok_def)
    have ok: "dict_ok hf (d\<lparr>ht0 := u\<rparr>)"
      using assms(1) u(2,3,5,6,7) tb0 len dist by (auto simp: dict_ok_def dictIsRehashing_def ents_def)
    then have "dmap (d\<lparr>ht0 := u\<rparr>) = (dmap d)(k \<mapsto> v)"
      using dmap_tables [OF ok] dmap_tables [OF assms(1)] u(4) by (auto split: option.splits)
    with ok u(1) b0 l0 False show ?thesis by (simp add: overwrite_def)
  next
    case True
    then have k1: "map_of (tents (ht1 d)) k \<noteq> None" using dmap_tables [OF assms(1), of k] assms(2) by simp
    from overwrite_table_ok [OF t1 this, of v] obtain u tb1 where u: "table (ht1 d) = Some tb1"
      "set_bucket (ht1 d) (key_slot hf (ht1 d) k) (AList.update k v (tb1 ! key_slot hf (ht1 d) k)) = Inr u"
      "ht_ok hf u" "map fst (tents u) = map fst (tents (ht1 d))" "map_of (tents u) = (map_of (tents (ht1 d)))(k \<mapsto> v)"
      "table u \<noteq> None" by blast
    have ok: "dict_ok hf (d\<lparr>ht1 := u\<rparr>)"
      using assms(1) u dist by (auto simp: dict_ok_def dictIsRehashing_def ents_def split: if_splits)
    have "dmap (d\<lparr>ht1 := u\<rparr>) x = ((dmap d)(k \<mapsto> v)) x" for x
      using dmap_tables [OF ok, of x] dmap_tables [OF assms(1), of x] u(5) True
      by (auto split: option.splits)
    with ok u(1,2) b0 l0 True bucket_ok [OF t1 u(1), of k] show ?thesis by (auto simp: overwrite_def)
  qed
qed

lemma dictReplace_ok:
  assumes "dict_ok hf d" and "length (ents d) * 2 < LONG_MAX"
  shows "\<exists>d'. dictReplace hf can d k v = Inr (dmap d k = None, d') \<and> dict_ok hf d' \<and>
    dmap d' = (dmap d)(k \<mapsto> v)"
proof -
  obtain a where a: "dictAddRaw hf can d k v = Inr (Some (dmap d k \<noteq> None), a)" "dict_ok hf a" "table (ht0 a) \<noteq> None"
    "mset (ents a) = (if dmap d k = None then add_mset (k, v) (mset (ents d)) else mset (ents d))"
    using dictAddRaw_ok [OF assms] by blast
  show ?thesis
  proof (cases "dmap d k = None")
    case True
    with a dmap_add [OF assms(1) a(2)] show ?thesis by (simp add: dictReplace_def)
  next
    case False
    have m: "dmap a = dmap d"
      using a(2,4) False map_of_mset [of "ents a" "ents d"] by (simp add: dmap_def dict_ok_def)
    from overwrite_ok [OF a(2) _ a(3), of k v] False a(1) m show ?thesis by (auto simp: dictReplace_def)
  qed
qed

lemma map_of_remove1:
  assumes "distinct (map fst b)" and "map_of b k = Some v"
  shows "map_of (remove1 (k, v) b) = (map_of b)(k := None)"
proof
  fix x
  have d: "distinct b" using assms(1) by (metis distinct_map)
  have r: "set (remove1 (k, v) b) = set b - {(k, v)}" using d by simp
  have dr: "distinct (map fst (remove1 (k, v) b))"
    using assms(1) by (metis distinct_map inj_on_subset set_remove1_subset distinct_remove1)
  have "map_of (remove1 (k, v) b) x = Some w \<longleftrightarrow> ((map_of b)(k := None)) x = Some w" for w
    using map_of_eq_Some_iff [OF dr, of x w] map_of_eq_Some_iff [OF assms(1), of x w]
      map_of_eq_Some_iff [OF assms(1), of k w] assms(2) r by auto
  then show "map_of (remove1 (k, v) b) x = ((map_of b)(k := None)) x" by (metis option.exhaust)
qed

lemma unlink_entry_ok:
  assumes "ht_ok hf t" and "table t \<noteq> None" and "distinct (map fst (tents t))"
  shows "\<exists>t'. unlink_entry hf t k = Inr (map_of (tents t) k, t') \<and> ht_ok hf t' \<and>
    (\<forall>v. map_of (tents t) k = Some v \<longrightarrow> mset (tents t) = add_mset (k, v) (mset (tents t'))) \<and>
    (map_of (tents t) k = None \<longrightarrow> t' = t) \<and>
    map_of (tents t') = (map_of (tents t))(k := None) \<and> table t' \<noteq> None \<and> ht_size t' = ht_size t \<and>
    (\<forall>tb tb'. table t = Some tb \<longrightarrow> table t' = Some tb' \<longrightarrow>
      (\<forall>i < length tb. tb ! i = [] \<longrightarrow> tb' ! i = []))"
proof -
  obtain tb where tb: "table t = Some tb" using assms(2) by auto
  let ?i = "key_slot hf t k"
  have i: "?i < length tb" by (rule key_slot_less [OF assms(1) tb])
  note l = tents_lookup [OF assms(1) tb] and b = bucket_ok [OF assms(1) tb, of k]
  show ?thesis
  proof (cases "map_of (tents t) k")
    case None
    with l b tb assms show ?thesis by (simp add: unlink_entry_def Let_def fun_upd_idem)
  next
    case (Some v)
    let ?b = "remove1 (k, v) (tb ! ?i)"
    have mem: "(k, v) \<in> set (tb ! ?i)" using Some l [of k] map_of_SomeD [of "tb ! ?i" k v] by simp
    have "\<forall>e \<in> set ?b. key_slot hf t (fst e) = ?i"
    proof
      fix e assume "e \<in> set ?b"
      then have "e \<in> set (tb ! ?i)" by (rule subsetD [OF set_remove1_subset])
      then show "key_slot hf t (fst e) = ?i" using assms(1) tb i by (auto simp: ht_ok_def)
    qed
    then obtain u where u: "set_bucket t ?i ?b = Inr u" "ht_ok hf (u\<lparr>used := length (concat (tb[?i := ?b]))\<rparr>)"
      "table u = Some (tb[?i := ?b])" "ht_size u = ht_size t" "used u = used t" "sizemask u = sizemask t"
      using set_bucket_ok [OF assms(1) tb i] by blast
    have "mset (concat (tb[?i := ?b])) + mset (tb ! ?i) = mset (concat tb) + (mset (tb ! ?i) - {#(k, v)#})"
      using concat_update_mset [OF i, of ?b] by simp
    then have m: "mset (concat tb) = add_mset (k, v) (mset (concat (tb[?i := ?b])))"
      using mem by (metis (no_types, lifting) add_mset_add_single add_right_cancel insert_DiffM
          set_mset_mset union_mset_add_mset_right union_mset_add_mset_left)
    have "used t = length (concat tb)" using assms(1) tb by (simp add: ht_ok_def)
    then have len: "length (concat (tb[?i := ?b])) = used u - 1"
      using u(5) arg_cong [OF m, of size] by (simp only: size_mset size_add_mset diff_Suc_1)
    let ?u = "u\<lparr>used := used u - 1\<rparr>"
    have ok: "ht_ok hf ?u" "table ?u = Some (tb[?i := ?b])" "sizemask ?u = sizemask t"
      using u(2,3,6) unfolding len by simp_all
    have "distinct (map fst (tb ! ?i))"
      using assms(3) concat_split [OF i] tb by (simp add: tents_def)
    then have "map_of ?b = (map_of (tb ! ?i))(k := None)"
      using map_of_remove1 Some l [of k] by metis
    then have "map_of (tents ?u) = (map_of (tents t))(k := None)"
      using tents_set_bucket [OF ok(1,2) assms(1) tb ok(3)] l by auto
    moreover have "tb[?i := ?b] ! j = []" if "j < length tb" "tb ! j = []" for j
      using that by (cases "j = ?i") auto
    moreover have "unlink_entry hf t k = Inr (Some v, ?u)"
      using Some l [of k] b u(1) by (simp add: unlink_entry_def Let_def)
    moreover have "mset (tents t) = add_mset (k, v) (mset (tents ?u))"
      using m tb ok(2) by (simp add: tents_def)
    ultimately show ?thesis
      using Some ok u(4) tb by (intro exI [of _ ?u]) auto
  qed
qed

lemma dictGenericDelete_ok:
  assumes "dict_ok hf d"
  shows "\<exists>d'. dictGenericDelete hf d k = Inr (dmap d k, d') \<and> dict_ok hf d' \<and> dmap d' = (dmap d)(k := None)"
proof (cases "used (ht0 d) = 0 \<and> used (ht1 d) = 0")
  case True
  then have "dmap d k = None" using ents_length [OF assms] by (simp add: dmap_def)
  with True assms show ?thesis by (simp add: dictGenericDelete_def fun_upd_idem)
next
  case False
  obtain a where a: "rehash_if hf d = Inr a" "keeps hf d a" using rehash_if_ok [OF assms] by blast
  have ok: "dict_ok hf a" and m: "dmap a = dmap d" using a keeps_dmap [OF assms] by (auto simp: keeps_def)
  have t0: "ht_ok hf (ht0 a)" and t1: "ht_ok hf (ht1 a)" and dist: "distinct (map fst (tents (ht0 a)))"
    "distinct (map fst (tents (ht1 a)))" using ok by (simp_all add: dict_ok_def ents_def)
  have "length (ents a) \<noteq> 0" using False ents_length [OF assms] a(2) by (metis add_is_0 keeps_def size_mset)
  then have n0: "table (ht0 a) \<noteq> None"
    using ok by (auto simp: ents_def tents_def dict_ok_def split: option.splits if_splits)
  obtain u where u: "unlink_entry hf (ht0 a) k = Inr (map_of (tents (ht0 a)) k, u)" "ht_ok hf u"
    "\<forall>v. map_of (tents (ht0 a)) k = Some v \<longrightarrow> mset (tents (ht0 a)) = add_mset (k, v) (mset (tents u))"
    "map_of (tents u) = (map_of (tents (ht0 a)))(k := None)" "table u \<noteq> None" "ht_size u = ht_size (ht0 a)"
    "\<forall>tb tb'. table (ht0 a) = Some tb \<longrightarrow> table u = Some tb' \<longrightarrow>
      (\<forall>i < length tb. tb ! i = [] \<longrightarrow> tb' ! i = [])"
    using unlink_entry_ok [OF t0 n0 dist(1), of k] by blast
  show ?thesis
  proof (cases "map_of (tents (ht0 a)) k")
    case (Some v)
    have e: "mset (ents a) = add_mset (k, v) (mset (ents (a\<lparr>ht0 := u\<rparr>)))"
      using u(3) Some by (simp add: ents_def)
    have dd: "distinct (map fst ((k, v) # ents (a\<lparr>ht0 := u\<rparr>)))"
      using e ok by (metis dict_ok_def mset.simps(2) mset_eq_imp_distinct_iff mset_map)
    obtain tb0 tbu where tbs: "table (ht0 a) = Some tb0" "table u = Some tbu" using n0 u(5) by auto
    have "length tb0 = ht_size (ht0 a)" using t0 tbs(1) by (simp add: ht_ok_def)
    then have ok': "dict_ok hf (a\<lparr>ht0 := u\<rparr>)"
      using ok u(2,6,7) tbs dd by (auto simp: dict_ok_def dictIsRehashing_def)
    have "dmap (a\<lparr>ht0 := u\<rparr>) = (dmap a)(k := None)"
    proof -
      have "dmap a = (dmap (a\<lparr>ht0 := u\<rparr>))(k \<mapsto> v)" by (rule dmap_add [OF ok' ok e])
      moreover have "dmap (a\<lparr>ht0 := u\<rparr>) k = None" using dd by (simp add: dmap_def map_of_eq_None_iff)
      ultimately show ?thesis by (simp add: fun_upd_idem)
    qed
    moreover have "dmap d k = Some v" using dmap_tables [OF ok, of k] Some m by simp
    ultimately show ?thesis using ok' u(1) Some a(1) False m by (auto simp: dictGenericDelete_def)
  next
    case None
    show ?thesis
    proof (cases "dictIsRehashing a")
      case re: True
      then have n1: "table (ht1 a) \<noteq> None" using ok by (simp add: dict_ok_def)
      obtain w where w: "unlink_entry hf (ht1 a) k = Inr (map_of (tents (ht1 a)) k, w)" "ht_ok hf w"
        "\<forall>v. map_of (tents (ht1 a)) k = Some v \<longrightarrow> mset (tents (ht1 a)) = add_mset (k, v) (mset (tents w))"
        "map_of (tents (ht1 a)) k = None \<longrightarrow> w = ht1 a"
        "map_of (tents w) = (map_of (tents (ht1 a)))(k := None)" "table w \<noteq> None"
        using unlink_entry_ok [OF t1 n1 dist(2), of k] by - (erule exE, elim conjE, rule that)
      have "distinct (map fst (ents (a\<lparr>ht1 := w\<rparr>)))"
      proof (cases "map_of (tents (ht1 a)) k")
        case N: None
        then show ?thesis using w(4) ok by (simp add: dict_ok_def)
      next
        case (Some v)
        then have "mset (ents a) = add_mset (k, v) (mset (ents (a\<lparr>ht1 := w\<rparr>)))"
          using w(3) by (simp add: ents_def)
        then have "mset (ents a) = mset ((k, v) # ents (a\<lparr>ht1 := w\<rparr>))" by simp
        then have "distinct (map fst ((k, v) # ents (a\<lparr>ht1 := w\<rparr>)))"
          using ok by (metis dict_ok_def mset_eq_imp_distinct_iff mset_map)
        then show ?thesis by simp
      qed
      then have ok': "dict_ok hf (a\<lparr>ht1 := w\<rparr>)"
        using ok w(2,6) re by (auto simp: dict_ok_def dictIsRehashing_def)
      have "dmap (a\<lparr>ht1 := w\<rparr>) x = ((dmap a)(k := None)) x" for x
        using dmap_tables [OF ok', of x] dmap_tables [OF ok, of x] w(5) None by (auto split: option.splits)
      moreover have "dmap d k = map_of (tents (ht1 a)) k" using dmap_tables [OF ok, of k] None m by simp
      ultimately show ?thesis
        using ok' u(1) w(1) None a(1) False m re by (auto simp: dictGenericDelete_def)
    next
      case nre: False
      then have "tents (ht1 a) = []" using ok by (simp add: dict_ok_def tents_def)
      then have "dmap d k = None" using dmap_tables [OF ok, of k] None m by simp
      with u(1) None a(1) False m nre ok show ?thesis
        by (auto simp: dictGenericDelete_def fun_upd_idem)
    qed
  qed
qed

section \<open>Dictionaries\<close>

text \<open>
  What the database relies on: a dictionary stands for a finite map; a search returns what the
  map holds, and the other operations change the map at one key. \<open>space\<close> says when an entry may
  be added.
\<close>

locale dictionary =
  fixes find :: "'d \<Rightarrow> 'k \<Rightarrow> ('v option \<times> 'd) res"
    and add :: "'d \<Rightarrow> 'k \<Rightarrow> 'v \<Rightarrow> (bool \<times> 'd) res"
    and replace :: "'d \<Rightarrow> 'k \<Rightarrow> 'v \<Rightarrow> (bool \<times> 'd) res"
    and delete :: "'d \<Rightarrow> 'k \<Rightarrow> (bool \<times> 'd) res"
    and emp :: "'d"
    and abs_map :: "'d \<Rightarrow> 'k \<Rightarrow> 'v option"
    and valid :: "'d \<Rightarrow> bool"
    and space :: "'d \<Rightarrow> bool"
  assumes emp_law: "valid emp \<and> abs_map emp = Map.empty"
    and find_law: "valid d \<Longrightarrow> \<exists>d'. find d k = Inr (abs_map d k, d') \<and> valid d' \<and> abs_map d' = abs_map d"
    and add_law: "valid d \<Longrightarrow> space d \<Longrightarrow> \<exists>d'. add d k v = Inr (abs_map d k = None, d') \<and> valid d' \<and>
      abs_map d' = (if abs_map d k = None then (abs_map d)(k \<mapsto> v) else abs_map d)"
    and replace_law: "valid d \<Longrightarrow> space d \<Longrightarrow> \<exists>d'. replace d k v = Inr (abs_map d k = None, d') \<and> valid d' \<and>
      abs_map d' = (abs_map d)(k \<mapsto> v)"
    and delete_law: "valid d \<Longrightarrow> \<exists>d'. delete d k = Inr (abs_map d k \<noteq> None, d') \<and> valid d' \<and>
      abs_map d' = (abs_map d)(k := None)"
begin

lemma find_after_replace:
  assumes "valid d" and "space d"
  shows "\<exists>d1 d2. replace d k v = Inr (abs_map d k = None, d1) \<and>
    find d1 k' = Inr (if k' = k then Some v else abs_map d k', d2) \<and> valid d2"
proof -
  obtain d1 where d1: "replace d k v = Inr (abs_map d k = None, d1)" "valid d1" "abs_map d1 = (abs_map d)(k \<mapsto> v)"
    using replace_law [OF assms] by blast
  then show ?thesis using find_law [OF d1(2), of k'] by auto
qed

lemma find_after_delete:
  assumes "valid d"
  shows "\<exists>d1 d2. delete d k = Inr (abs_map d k \<noteq> None, d1) \<and>
    find d1 k' = Inr (if k' = k then None else abs_map d k', d2) \<and> valid d2"
proof -
  obtain d1 where d1: "delete d k = Inr (abs_map d k \<noteq> None, d1)" "valid d1" "abs_map d1 = (abs_map d)(k := None)"
    using delete_law [OF assms] by blast
  then show ?thesis using find_law [OF d1(2), of k'] by auto
qed

lemma add_new:
  assumes "valid d" and "space d" and "abs_map d k = None"
  shows "\<exists>d'. add d k v = Inr (True, d') \<and> valid d' \<and> abs_map d' = (abs_map d)(k \<mapsto> v)"
  using add_law [OF assms(1,2), of k v] assms(3) by simp

end

definition dict_space :: "('k, 'v) dict \<Rightarrow> bool" where
  "dict_space d \<longleftrightarrow> length (ents d) * 2 < LONG_MAX"

interpretation ht: dictionary "dictFind hf" "dictAdd hf can" "dictReplace hf can" "dictDelete hf"
  dictCreate dmap "dict_ok hf" dict_space
  for hf :: "'k \<Rightarrow> nat" and can :: bool
proof
  show "dict_ok hf dictCreate \<and> dmap dictCreate = Map.empty"
    by (simp add: dict_ok_def dictCreate_def dictReset_def ht_ok_def dictIsRehashing_def dmap_def ents_def tents_def)
  fix d :: "('k, 'v) dict" and k :: 'k and v :: 'v
  assume ok: "dict_ok hf d"
  show "\<exists>d'. dictFind hf d k = Inr (dmap d k, d') \<and> dict_ok hf d' \<and> dmap d' = dmap d"
    using dictFind_ok [OF ok, of k] keeps_dmap [OF ok] by (auto simp: keeps_def)
  show "\<exists>d'. dictDelete hf d k = Inr (dmap d k \<noteq> None, d') \<and> dict_ok hf d' \<and> dmap d' = (dmap d)(k := None)"
    using dictGenericDelete_ok [OF ok, of k] by (auto simp: dictDelete_def)
  assume "dict_space d"
  then have sp: "length (ents d) * 2 < LONG_MAX" by (simp add: dict_space_def)
  show "\<exists>d'. dictAdd hf can d k v = Inr (dmap d k = None, d') \<and> dict_ok hf d' \<and>
      dmap d' = (if dmap d k = None then (dmap d)(k \<mapsto> v) else dmap d)"
    by (rule dictAdd_ok [OF ok sp])
  show "\<exists>d'. dictReplace hf can d k v = Inr (dmap d k = None, d') \<and> dict_ok hf d' \<and> dmap d' = (dmap d)(k \<mapsto> v)"
    by (rule dictReplace_ok [OF ok sp])
qed

section \<open>Properties\<close>

text \<open>
  C19. Every operation of the hash table acts on the finite map of its entries, for every hash
  function and in every stage of rehashing: a search returns what the map holds and leaves the
  map as it is, adding fails exactly on a key that is there, replacing and deleting change the
  map at their key only, and none leaves the arrays or the invariant.
\<close>

theorem hash_table_refines_map:
  assumes "dict_ok hf d" and "dict_space d"
  shows "(\<exists>d'. dictFind hf d k = Inr (dmap d k, d') \<and> dict_ok hf d' \<and> dmap d' = dmap d) \<and>
    (\<exists>d'. dictAdd hf can d k v = Inr (dmap d k = None, d') \<and> dict_ok hf d' \<and>
       dmap d' = (if dmap d k = None then (dmap d)(k \<mapsto> v) else dmap d)) \<and>
    (\<exists>d'. dictReplace hf can d k v = Inr (dmap d k = None, d') \<and> dict_ok hf d' \<and> dmap d' = (dmap d)(k \<mapsto> v)) \<and>
    (\<exists>d'. dictDelete hf d k = Inr (dmap d k \<noteq> None, d') \<and> dict_ok hf d' \<and> dmap d' = (dmap d)(k := None))"
  using ht.find_law [OF assms(1)] ht.add_law [OF assms] ht.replace_law [OF assms] ht.delete_law [OF assms(1)]
  by blast

theorem hash_table_refines_map_witness:
  "\<exists>d'. dictReplace (\<lambda>n. n) True (dictCreate :: (nat, nat) dict) 5 7 = Inr (True, d') \<and>
     dict_ok (\<lambda>n. n) d' \<and> dmap d' = [5 \<mapsto> 7]"
proof -
  have "dict_ok (\<lambda>n. n) (dictCreate :: (nat, nat) dict)" "dmap (dictCreate :: (nat, nat) dict) = Map.empty"
    "dict_space (dictCreate :: (nat, nat) dict)"
    using ht.emp_law by (auto simp: dict_space_def dictCreate_def dictReset_def ents_def tents_def)
  then show ?thesis
    using hash_table_refines_map [of "\<lambda>n. n" "dictCreate :: (nat, nat) dict" 5 True 7] by auto
qed

text \<open>
  C28. Incremental rehashing moves entries without losing, duplicating or changing any: any
  number of steps on a well-formed table ends, stays inside both tables and leaves the same
  entries.
\<close>

theorem dictRehash_preserves:
  assumes "dict_ok hf d" and "0 < n"
  shows "\<exists>more d'. dictRehash hf n d = Inr (more, d') \<and> dict_ok hf d' \<and> mset (ents d') = mset (ents d) \<and>
    dmap d' = dmap d"
  using dictRehash_ok [OF assms] keeps_dmap [OF assms(1)] by (auto simp: keeps_def)

definition sample_dict :: "(nat, string) dict" where
  "sample_dict =
     \<lparr>ht0 = \<lparr>table = Some [[], [(5, ''e''), (1, ''a'')]], ht_size = 2, sizemask = 1, used = 2\<rparr>,
      ht1 = \<lparr>table = Some [[], [], [(6, ''f'')], []], ht_size = 4, sizemask = 3, used = 1\<rparr>,
      rehashidx = 1, iterators = 0\<rparr>"

lemma sample_dict_ok: "dict_ok (\<lambda>n. n) sample_dict"
proof -
  have "(2 :: nat) = 2 ^ 1" "(4 :: nat) = 2 ^ 2" by simp_all
  then have "\<exists>p. (2 :: nat) = 2 ^ p" "\<exists>p. (4 :: nat) = 2 ^ p" by blast+
  moreover have "key_slot (\<lambda>n. n) (ht0 sample_dict) 5 = 1" "key_slot (\<lambda>n. n) (ht0 sample_dict) 1 = 1"
    "key_slot (\<lambda>n. n) (ht1 sample_dict) 6 = 2" by (simp_all add: key_slot_def sample_dict_def)
  ultimately show ?thesis
    by (auto simp: dict_ok_def ht_ok_def sample_dict_def dictIsRehashing_def ents_def tents_def
        less_Suc_eq numeral_eq_Suc)
qed

theorem dictRehash_preserves_witness:
  "\<exists>more d'. dictRehash (\<lambda>n. n) 1 sample_dict = Inr (more, d') \<and> dict_ok (\<lambda>n. n) d' \<and>
     mset (ents d') = {#(5, ''e''), (1, ''a''), (6, ''f'')#}"
  using dictRehash_preserves [OF sample_dict_ok, of 1] by (auto simp: sample_dict_def ents_def tents_def)

end
