(* ===== verification/HashType.thy ===== *)
theory HashType
  imports Util Vec Dict
begin

text \<open>
  String objects and hash objects (\<open>src/src/object.c\<close>, \<open>src/src/t_hash.c\<close>). A hash is kept as
  a ziplist of alternating fields and values until it outgrows the configured limit, and as a
  hash table from then on; the rows of a relation use a third encoding whose values are column
  vectors. Ziplists (\<open>src/src/ziplist.c\<close>) are seen as the list of their entries, with the
  integer encoding of decimal texts that \<open>ziplistFind\<close> and \<open>ziplistGet\<close> depend on; a hash table
  is the association list of its entries, which meets the contract of \<open>Dict\<close>. Either encoding
  is shown to be a finite map from fields to texts, and the conversion keeps the map.
\<close>

section \<open>Association lists as dictionaries\<close>

definition al_add :: "('k \<times> 'v) list \<Rightarrow> 'k \<Rightarrow> 'v \<Rightarrow> bool \<times> ('k \<times> 'v) list" where
  "al_add d k v = (if map_of d k = None then (True, d @ [(k, v)]) else (False, d))"

definition al_replace :: "('k \<times> 'v) list \<Rightarrow> 'k \<Rightarrow> 'v \<Rightarrow> bool \<times> ('k \<times> 'v) list" where
  "al_replace d k v = (map_of d k = None, AList.update k v d)"

definition al_delete :: "('k \<times> 'v) list \<Rightarrow> 'k \<Rightarrow> bool \<times> ('k \<times> 'v) list" where
  "al_delete d k = (map_of d k \<noteq> None, AList.delete k d)"

definition al_ok :: "('k \<times> 'v) list \<Rightarrow> bool" where
  "al_ok d \<longleftrightarrow> distinct (map fst d)"

lemma al_ok_Nil [simp]: "al_ok []"
  by (simp add: al_ok_def)

lemma al_add_map: "map_of (snd (al_add d k v)) = (if map_of d k = None then (map_of d)(k \<mapsto> v) else map_of d)"
  by (auto simp: al_add_def map_add_def fun_eq_iff split: option.splits)

lemma al_add_ok: "al_ok d \<Longrightarrow> al_ok (snd (al_add d k v))"
  by (auto simp: al_ok_def al_add_def map_of_eq_None_iff)

lemma al_update_ok: "al_ok d \<Longrightarrow> al_ok (AList.update k v d)"
  by (simp add: al_ok_def distinct_update)

lemma al_delete_ok: "al_ok d \<Longrightarrow> al_ok (AList.delete k d)"
  by (simp add: al_ok_def distinct_delete)

interpretation al: dictionary "\<lambda>d k. Inr (map_of d k, d)" "\<lambda>d k v. Inr (al_add d k v)"
  "\<lambda>d k v. Inr (al_replace d k v)" "\<lambda>d k. Inr (al_delete d k)" "[]" map_of al_ok "\<lambda>_. True"
proof
  show "al_ok [] \<and> map_of [] = Map.empty" by simp
  fix d :: "('k \<times> 'v) list" and k :: 'k and v :: 'v
  assume ok: "al_ok d"
  show "\<exists>d'. Inr (map_of d k, d) = Inr (map_of d k, d') \<and> al_ok d' \<and> map_of d' = map_of d"
    using ok by blast
  show "\<exists>d'. Inr (al_add d k v) = Inr (map_of d k = None, d') \<and> al_ok d' \<and>
      map_of d' = (if map_of d k = None then (map_of d)(k \<mapsto> v) else map_of d)"
    using al_add_map [of d k v] al_add_ok [OF ok, of k v]
    by (intro exI [of _ "snd (al_add d k v)"]) (simp add: al_add_def)
  show "\<exists>d'. Inr (al_replace d k v) = Inr (map_of d k = None, d') \<and> al_ok d' \<and> map_of d' = (map_of d)(k \<mapsto> v)"
    using al_update_ok [OF ok, of k v] by (simp add: al_replace_def update_conv')
  show "\<exists>d'. Inr (al_delete d k) = Inr (map_of d k \<noteq> None, d') \<and> al_ok d' \<and> map_of d' = (map_of d)(k := None)"
    using al_delete_ok [OF ok, of k] by (simp add: al_delete_def delete_conv')
qed

section \<open>Definitions\<close>

subsection \<open>String objects\<close>

text \<open>
  A string object holds a text or, in the integer encoding, a \<open>long\<close>. The shared objects for
  small integers use the integer encoding as well.
\<close>

datatype strobj = SdsObj string | IntObj int

definition createStringObjectFromLongLong :: "int \<Rightarrow> strobj" where
  "createStringObjectFromLongLong val = (if is_long val then IntObj val else SdsObj (print_int val))"

text \<open>The buffer need not be initialised: \<open>ll2string\<close> writes the terminator.\<close>

definition getDecodedObject :: "strobj \<Rightarrow> string" where
  "getDecodedObject obj =
     (case obj of
        SdsObj s \<Rightarrow> s
      | IntObj v \<Rightarrow> cstr (snd (ll2string (replicate 32 NUL) 32 v)))"

definition getLongLongFromObject :: "strobj option \<Rightarrow> int option" where
  "getLongLongFromObject obj =
     (case obj of
        None \<Rightarrow> Some 0
      | Some (SdsObj s) \<Rightarrow> string2ll s
      | Some (IntObj v) \<Rightarrow> Some v)"

text \<open>The integer encoding of a text that only this caller refers to.\<close>

definition tryObjectEncoding :: "strobj \<Rightarrow> strobj" where
  "tryObjectEncoding obj =
     (case obj of
        IntObj v \<Rightarrow> obj
      | SdsObj s \<Rightarrow>
          if length s \<le> 20 then (case string2l s of Some v \<Rightarrow> IntObj v | None \<Rightarrow> obj) else obj)"

subsection \<open>Ziplist entries\<close>

datatype zentry = ZStr string | ZInt int

definition zipTryEncoding :: "string \<Rightarrow> int option" where
  "zipTryEncoding entry = (if length entry \<ge> 32 \<or> entry = [] then None else string2ll entry)"

definition zip_entry :: "string \<Rightarrow> zentry" where
  "zip_entry s = (case zipTryEncoding s of Some v \<Rightarrow> ZInt v | None \<Rightarrow> ZStr s)"

definition ziplistInsert :: "zentry list \<Rightarrow> nat \<Rightarrow> string \<Rightarrow> zentry list" where
  "ziplistInsert zl p s = take p zl @ zip_entry s # drop p zl"

definition ziplistPush :: "zentry list \<Rightarrow> string \<Rightarrow> zentry list" where
  "ziplistPush zl s = ziplistInsert zl (length zl) s"

definition ziplistDelete :: "zentry list \<Rightarrow> nat \<Rightarrow> zentry list" where
  "ziplistDelete zl p = take p zl @ drop (p + 1) zl"

definition ziplistIndex0 :: "zentry list \<Rightarrow> nat option" where
  "ziplistIndex0 zl = (if zl = [] then None else Some 0)"

definition ziplistNext :: "zentry list \<Rightarrow> nat \<Rightarrow> nat option" where
  "ziplistNext zl p = (if p + 1 < length zl then Some (p + 1) else None)"

definition ziplistGet :: "zentry list \<Rightarrow> nat \<Rightarrow> zentry option" where
  "ziplistGet zl p = (if p < length zl then Some (zl ! p) else None)"

definition zip_equal :: "zentry \<Rightarrow> string \<Rightarrow> bool" where
  "zip_equal e s = (case e of ZStr t \<Rightarrow> t = s | ZInt v \<Rightarrow> zipTryEncoding s = Some v)"

fun zip_find :: "zentry list \<Rightarrow> nat \<Rightarrow> string \<Rightarrow> nat \<Rightarrow> nat \<Rightarrow> nat option" where
  "zip_find [] p vstr skip skipcnt = None"
| "zip_find (e # es) p vstr skip skipcnt =
     (if skipcnt = 0 then
        if zip_equal e vstr then Some p else zip_find es (p + 1) vstr skip skip
      else zip_find es (p + 1) vstr skip (skipcnt - 1))"

definition ziplistFind :: "zentry list \<Rightarrow> nat \<Rightarrow> string \<Rightarrow> nat \<Rightarrow> nat option" where
  "ziplistFind zl p vstr skip = zip_find (drop p zl) p vstr skip 0"

definition ziplistLen :: "zentry list \<Rightarrow> nat" where
  "ziplistLen zl = length zl"

subsection \<open>Hash objects\<close>

type_synonym relation = "(string \<times> string vector) list"

datatype hash =
    OBJ_ENCODING_ZIPLIST "zentry list"
  | OBJ_ENCODING_HT "(string \<times> string) list"
  | OBJ_ENCODING_REL relation

definition createMetaHashdictFordict :: hash where
  "createMetaHashdictFordict = OBJ_ENCODING_ZIPLIST []"

definition createDataHashdictFordict :: hash where
  "createDataHashdictFordict = OBJ_ENCODING_REL []"

text \<open>The field that is searched and the position of its value.\<close>

definition hash_field_pos :: "zentry list \<Rightarrow> string \<Rightarrow> nat option" where
  "hash_field_pos zl field =
     (case ziplistIndex0 zl of None \<Rightarrow> None | Some fptr \<Rightarrow> ziplistFind zl fptr field 1)"

definition hashTypeGetFromZiplist :: "hash \<Rightarrow> string \<Rightarrow> zentry option res" where
  "hashTypeGetFromZiplist h field =
     (case h of
        OBJ_ENCODING_ZIPLIST zl \<Rightarrow>
          (case hash_field_pos zl field of
             None \<Rightarrow> Inr None
           | Some fptr \<Rightarrow>
               (case ziplistNext zl fptr of
                  None \<Rightarrow> Inl AssertFailed
                | Some vptr \<Rightarrow>
                    (case ziplistGet zl vptr of
                       None \<Rightarrow> Inl AssertFailed
                     | Some e \<Rightarrow> Inr (Some e))))
      | _ \<Rightarrow> Inl AssertFailed)"

definition hashTypeGetFromZiplistWithrobj :: "hash \<Rightarrow> strobj \<Rightarrow> zentry option res" where
  "hashTypeGetFromZiplistWithrobj h field =
     (case h of
        OBJ_ENCODING_ZIPLIST zl \<Rightarrow> hashTypeGetFromZiplist h (getDecodedObject field)
      | _ \<Rightarrow> Inl AssertFailed)"

definition hashTypeGetFromHashTable :: "(string \<times> 'v) list \<Rightarrow> string \<Rightarrow> 'v option" where
  "hashTypeGetFromHashTable d field = map_of d field"

definition hashTypeGetValue :: "hash \<Rightarrow> string \<Rightarrow> zentry option res" where
  "hashTypeGetValue h field =
     (case h of
        OBJ_ENCODING_ZIPLIST zl \<Rightarrow> hashTypeGetFromZiplist h field
      | OBJ_ENCODING_HT d \<Rightarrow> Inr (map_option ZStr (hashTypeGetFromHashTable d field))
      | OBJ_ENCODING_REL r \<Rightarrow> Inl ServerPanic)"

definition entry_object :: "zentry \<Rightarrow> strobj" where
  "entry_object e = (case e of ZStr s \<Rightarrow> SdsObj s | ZInt v \<Rightarrow> createStringObjectFromLongLong v)"

definition hashTypeGetValueObject :: "hash \<Rightarrow> string \<Rightarrow> strobj option res" where
  "hashTypeGetValueObject h field =
     bindr (hashTypeGetValue h field) (\<lambda>e. Inr (map_option entry_object e))"

definition hashTypeGetValueLength :: "hash \<Rightarrow> string \<Rightarrow> nat res" where
  "hashTypeGetValueLength h field =
     (case h of
        OBJ_ENCODING_ZIPLIST zl \<Rightarrow>
          bindr (hashTypeGetFromZiplist h field) (\<lambda>e.
            Inr (case e of None \<Rightarrow> 0 | Some (ZStr s) \<Rightarrow> length s | Some (ZInt v) \<Rightarrow> sdigits10 v))
      | OBJ_ENCODING_HT d \<Rightarrow>
          Inr (case hashTypeGetFromHashTable d field of None \<Rightarrow> 0 | Some aux \<Rightarrow> length aux)
      | OBJ_ENCODING_REL r \<Rightarrow> Inl ServerPanic)"

definition hashTypeGetValueRObject :: "hash \<Rightarrow> strobj \<Rightarrow> strobj option res" where
  "hashTypeGetValueRObject h field =
     (case h of
        OBJ_ENCODING_ZIPLIST zl \<Rightarrow>
          bindr (hashTypeGetFromZiplistWithrobj h field) (\<lambda>e. Inr (map_option entry_object e))
      | OBJ_ENCODING_HT d \<Rightarrow> Inr (map_option SdsObj (hashTypeGetFromHashTable d (getDecodedObject field)))
      | OBJ_ENCODING_REL r \<Rightarrow> Inl ServerPanic)"

definition hashTypeTryObjectEncoding :: "hash \<Rightarrow> strobj \<Rightarrow> strobj" where
  "hashTypeTryObjectEncoding subject o1 =
     (case subject of OBJ_ENCODING_HT d \<Rightarrow> tryObjectEncoding o1 | _ \<Rightarrow> o1)"

definition hashTypeExists :: "hash \<Rightarrow> string \<Rightarrow> bool res" where
  "hashTypeExists h field =
     (case h of
        OBJ_ENCODING_ZIPLIST zl \<Rightarrow> bindr (hashTypeGetFromZiplist h field) (\<lambda>e. Inr (e \<noteq> None))
      | OBJ_ENCODING_HT d \<Rightarrow> Inr (hashTypeGetFromHashTable d field \<noteq> None)
      | OBJ_ENCODING_REL r \<Rightarrow> Inl ServerPanic)"

definition hashTypeLength :: "hash \<Rightarrow> nat" where
  "hashTypeLength h =
     (case h of
        OBJ_ENCODING_ZIPLIST zl \<Rightarrow> ziplistLen zl div 2
      | OBJ_ENCODING_HT d \<Rightarrow> length d
      | OBJ_ENCODING_REL r \<Rightarrow> length r)"

text \<open>The text of an entry, as \<open>hashTypeCurrentObjectNewSds\<close> gives it.\<close>

definition entry_sds :: "zentry \<Rightarrow> string" where
  "entry_sds e = (case e of ZStr s \<Rightarrow> s | ZInt v \<Rightarrow> print_int v)"

text \<open>The loop over the pairs of the ziplist; a field without a value fails an assertion.\<close>

fun convert_pairs :: "zentry list \<Rightarrow> (string \<times> string) list \<Rightarrow> (string \<times> string) list res" where
  "convert_pairs [] d = Inr d"
| "convert_pairs [f] d = Inl AssertFailed"
| "convert_pairs (f # v # zl) d =
     (case al_add d (entry_sds f) (entry_sds v) of
        (True, d) \<Rightarrow> convert_pairs zl d
      | (False, d) \<Rightarrow> Inl ServerPanic)"

definition hashTypeConvertZiplist :: "zentry list \<Rightarrow> hash res" where
  "hashTypeConvertZiplist zl = bindr (convert_pairs zl []) (\<lambda>d. Inr (OBJ_ENCODING_HT d))"

text \<open>\<open>hashTypeConvert (o, OBJ_ENCODING_HT)\<close>.\<close>

definition hashTypeConvert :: "hash \<Rightarrow> hash res" where
  "hashTypeConvert h =
     (case h of OBJ_ENCODING_ZIPLIST zl \<Rightarrow> hashTypeConvertZiplist zl | _ \<Rightarrow> Inl ServerPanic)"

text \<open>
  The arguments are the string objects from \<open>start\<close> to \<open>end\<close>; those in the integer encoding are
  not looked at.
\<close>

definition hashTypeTryConversion :: "nat \<Rightarrow> hash \<Rightarrow> strobj list \<Rightarrow> hash res" where
  "hashTypeTryConversion max_value h argv =
     (case h of
        OBJ_ENCODING_ZIPLIST zl \<Rightarrow>
          if list_ex (\<lambda>x. case x of SdsObj s \<Rightarrow> length s > max_value | IntObj _ \<Rightarrow> False) argv
          then hashTypeConvert h else Inr h
      | _ \<Rightarrow> Inr h)"

text \<open>The update of a value in place, or the two entries at the tail.\<close>

definition zip_set :: "zentry list \<Rightarrow> string \<Rightarrow> string \<Rightarrow> (bool \<times> zentry list) res" where
  "zip_set zl field val =
     (case hash_field_pos zl field of
        Some fptr \<Rightarrow>
          (case ziplistNext zl fptr of
             None \<Rightarrow> Inl AssertFailed
           | Some vptr \<Rightarrow> Inr (True, ziplistInsert (ziplistDelete zl vptr) vptr val))
      | None \<Rightarrow> Inr (False, ziplistPush (ziplistPush zl field) val))"

definition hashTypeSetWithNoFlags :: "nat \<Rightarrow> hash \<Rightarrow> strobj \<Rightarrow> strobj \<Rightarrow> (bool \<times> hash) res" where
  "hashTypeSetWithNoFlags max_entries h field val =
     (case h of
        OBJ_ENCODING_ZIPLIST zl \<Rightarrow>
          bindr (zip_set zl (getDecodedObject field) (getDecodedObject val)) (\<lambda>(update, zl).
            let h = OBJ_ENCODING_ZIPLIST zl
            in bindr (if hashTypeLength h > max_entries then hashTypeConvert h else Inr h) (\<lambda>h.
                 Inr (update, h)))
      | OBJ_ENCODING_HT d \<Rightarrow>
          (let (new, d) = al_replace d (getDecodedObject field) (getDecodedObject val)
           in Inr (\<not> new, OBJ_ENCODING_HT d))
      | OBJ_ENCODING_REL r \<Rightarrow> Inl ServerPanic)"

definition hashTypeDelete :: "hash \<Rightarrow> string \<Rightarrow> (bool \<times> hash) res" where
  "hashTypeDelete h field =
     (case h of
        OBJ_ENCODING_ZIPLIST zl \<Rightarrow>
          (case hash_field_pos zl field of
             Some fptr \<Rightarrow> Inr (True, OBJ_ENCODING_ZIPLIST (ziplistDelete (ziplistDelete zl fptr) fptr))
           | None \<Rightarrow> Inr (False, h))
      | OBJ_ENCODING_HT d \<Rightarrow>
          (let (found, d) = al_delete d field in Inr (found, OBJ_ENCODING_HT d))
      | OBJ_ENCODING_REL r \<Rightarrow> Inl ServerPanic)"

section \<open>Texts of objects and entries\<close>

lemma nul_print_int: "NUL \<notin> set (print_int n)"
  by (auto dest!: print_int_chars simp: is_digit_def)

lemma getDecodedObject_Int: "is_long v \<Longrightarrow> getDecodedObject (IntObj v) = print_int v"
proof -
  assume v: "is_long v"
  have "ll2string (replicate 32 NUL) 32 v =
      (length (print_int v), print_int v @ NUL # drop (Suc (length (print_int v))) (replicate 32 NUL))"
    using print_int_length [OF v] by (intro ll2string_correct [OF v]) simp_all
  moreover have "takeWhile (\<lambda>c. c \<noteq> NUL) (print_int v @ NUL # r) = print_int v" for r
    using nul_print_int [of v] by (intro takeWhile_append_stop) auto
  ultimately show ?thesis by (simp add: getDecodedObject_def cstr_def)
qed

lemma getDecodedObject_Sds [simp]: "getDecodedObject (SdsObj s) = s"
  by (simp add: getDecodedObject_def)

lemma decoded_fromLongLong: "is_long v \<Longrightarrow> getDecodedObject (createStringObjectFromLongLong v) = print_int v"
  by (simp add: createStringObjectFromLongLong_def getDecodedObject_Int)

lemma getLongLong_of_text: "is_long v \<Longrightarrow> getDecodedObject obj = print_int v \<Longrightarrow>
    (\<forall>i. obj = IntObj i \<longrightarrow> is_long i) \<Longrightarrow> getLongLongFromObject (Some obj) = Some v"
  by (cases obj) (auto simp: getLongLongFromObject_def string2ll_decimal getDecodedObject_Int)

lemma string2l_decimal: "string2l s = Some v \<longleftrightarrow> is_long v \<and> s = print_int v"
proof (cases "string2ll s")
  case None
  then show ?thesis using string2ll_decimal [of s v] by (simp add: string2l_def)
next
  case (Some w)
  then show ?thesis using string2ll_decimal [of s w] by (auto simp: string2l_def is_long_def)
qed

lemma decoded_tryObjectEncoding: "getDecodedObject (tryObjectEncoding obj) = getDecodedObject obj"
  by (cases obj) (auto simp: tryObjectEncoding_def string2l_decimal getDecodedObject_Int split: option.splits)

lemma decoded_hashTypeTryObjectEncoding:
  "getDecodedObject (hashTypeTryObjectEncoding h obj) = getDecodedObject obj"
  by (auto simp: hashTypeTryObjectEncoding_def decoded_tryObjectEncoding split: hash.splits)

lemma zipTryEncoding_Some: "zipTryEncoding s = Some v \<Longrightarrow> is_long v \<and> s = print_int v"
  by (auto simp: zipTryEncoding_def string2ll_decimal split: if_splits)

lemma entry_sds_zip_entry [simp]: "entry_sds (zip_entry s) = s"
  by (auto simp: zip_entry_def entry_sds_def dest: zipTryEncoding_Some split: option.splits)

lemma zip_equal_entry [simp]: "zip_equal (zip_entry t) s \<longleftrightarrow> t = s"
  by (auto simp: zip_entry_def zip_equal_def dest: zipTryEncoding_Some split: option.splits)

lemma decoded_entry_object [simp]: "getDecodedObject (entry_object (zip_entry s)) = s"
  by (auto simp: zip_entry_def entry_object_def decoded_fromLongLong dest!: zipTryEncoding_Some split: option.splits)

section \<open>A ziplist of pairs\<close>

fun zip_pairs :: "zentry list \<Rightarrow> (string \<times> string) list" where
  "zip_pairs (f # v # zl) = (entry_sds f, entry_sds v) # zip_pairs zl"
| "zip_pairs _ = []"

fun zip_flat :: "(string \<times> string) list \<Rightarrow> zentry list" where
  "zip_flat [] = []"
| "zip_flat ((f, v) # ps) = zip_entry f # zip_entry v # zip_flat ps"

lemma zip_pairs_flat [simp]: "zip_pairs (zip_flat ps) = ps"
  by (induction ps rule: zip_flat.induct) auto

lemma zip_flat_append [simp]: "zip_flat (ps @ qs) = zip_flat ps @ zip_flat qs"
  by (induction ps rule: zip_flat.induct) auto

lemma length_zip_flat [simp]: "length (zip_flat ps) = 2 * length ps"
  by (induction ps rule: zip_flat.induct) auto

lemma zip_flat_Nil [simp]: "zip_flat ps = [] \<longleftrightarrow> ps = []"
  by (cases ps) auto

lemma zip_find_absent: "f \<notin> fst ` set ps \<Longrightarrow> zip_find (zip_flat ps) p f (Suc 0) 0 = None"
  by (induction ps arbitrary: p rule: zip_flat.induct) auto

lemma zip_find_here:
  "f \<notin> fst ` set ps \<Longrightarrow> zip_find (zip_flat ps @ zip_entry f # r) p f (Suc 0) 0 = Some (p + 2 * length ps)"
  by (induction ps arbitrary: p rule: zip_flat.induct) auto

text \<open>The first pair of a field splits the list.\<close>

lemma al_split:
  assumes "map_of ps f = Some v"
  obtains as bs where "ps = as @ (f, v) # bs" and "f \<notin> fst ` set as"
  using assms
proof (induction ps arbitrary: thesis)
  case (Cons q ps)
  show ?case
  proof (cases "fst q = f")
    case True
    with Cons.prems show ?thesis by (intro Cons.prems(1) [of "[]" ps]) auto
  next
    case False
    then obtain as bs where "ps = as @ (f, v) # bs" "f \<notin> fst ` set as"
      using Cons.IH Cons.prems(2) by (cases q) auto
    with False show ?thesis by (intro Cons.prems(1) [of "q # as" bs]) auto
  qed
qed simp

lemma hash_field_pos_None: "map_of ps f = None \<Longrightarrow> hash_field_pos (zip_flat ps) f = None"
  by (auto simp: hash_field_pos_def ziplistIndex0_def ziplistFind_def zip_find_absent map_of_eq_None_iff)

lemma hash_field_pos_Some:
  "f \<notin> fst ` set as \<Longrightarrow> hash_field_pos (zip_flat (as @ (f, v) # bs)) f = Some (2 * length as)"
  by (simp add: hash_field_pos_def ziplistIndex0_def ziplistFind_def zip_find_here)

lemma zip_nth_value:
  "ziplistNext (zip_flat (as @ (f, v) # bs)) (2 * length as) = Some (2 * length as + 1)"
  "zip_flat (as @ (f, v) # bs) ! (2 * length as + 1) = zip_entry v"
  by (simp_all add: ziplistNext_def nth_append)

lemma get_zip_flat:
  "hashTypeGetFromZiplist (OBJ_ENCODING_ZIPLIST (zip_flat ps)) f = Inr (map_option zip_entry (map_of ps f))"
proof (cases "map_of ps f")
  case None
  then show ?thesis by (simp add: hashTypeGetFromZiplist_def hash_field_pos_None)
next
  case (Some v)
  then obtain as bs where ps: "ps = as @ (f, v) # bs" and f: "f \<notin> fst ` set as" by (rule al_split)
  have "2 * length as + 1 < length (zip_flat ps)" by (simp add: ps)
  then show ?thesis
    using Some hash_field_pos_Some [OF f, of v bs] zip_nth_value [of as f v bs]
    by (simp add: hashTypeGetFromZiplist_def ziplistGet_def ps)
qed

lemma update_split: "f \<notin> fst ` set as \<Longrightarrow> AList.update f v (as @ (f, w) # bs) = as @ (f, v) # bs"
  by (induction as) auto

lemma update_absent: "map_of ps f = None \<Longrightarrow> AList.update f v ps = ps @ [(f, v)]"
  by (induction ps) (auto split: if_splits)

lemma set_zip_flat: "zip_set (zip_flat ps) f v = Inr (map_of ps f \<noteq> None, zip_flat (AList.update f v ps))"
proof (cases "map_of ps f")
  case None
  then show ?thesis
    by (simp add: zip_set_def hash_field_pos_None update_absent ziplistPush_def ziplistInsert_def)
next
  case (Some w)
  then obtain as bs where ps: "ps = as @ (f, w) # bs" and f: "f \<notin> fst ` set as" by (rule al_split)
  show ?thesis
    using Some hash_field_pos_Some [OF f, of w bs] zip_nth_value(1) [of as f w bs] update_split [OF f, of v w bs]
    by (simp add: zip_set_def ps ziplistInsert_def ziplistDelete_def)
qed

lemma delete_split:
  "distinct (map fst (as @ (f, w) # bs)) \<Longrightarrow> AList.delete f (as @ (f, w) # bs) = as @ bs"
  by (induction as) (auto simp: delete_idem)

lemma convert_zip_flat: "al_ok (d @ ps) \<Longrightarrow> convert_pairs (zip_flat ps) d = Inr (d @ ps)"
proof (induction ps arbitrary: d)
  case (Cons q ps)
  obtain f v where q: "q = (f, v)" by (cases q)
  have "map_of d f = None" using Cons.prems by (auto simp: al_ok_def q map_of_eq_None_iff)
  then show ?case using Cons by (simp add: al_add_def q)
qed simp

section \<open>A hash is a finite map\<close>

definition hash_ok :: "hash \<Rightarrow> bool" where
  "hash_ok h \<longleftrightarrow>
     (case h of
        OBJ_ENCODING_ZIPLIST zl \<Rightarrow> zl = zip_flat (zip_pairs zl) \<and> al_ok (zip_pairs zl)
      | OBJ_ENCODING_HT d \<Rightarrow> al_ok d
      | OBJ_ENCODING_REL _ \<Rightarrow> False)"

definition hash_list :: "hash \<Rightarrow> (string \<times> string) list" where
  "hash_list h =
     (case h of OBJ_ENCODING_ZIPLIST zl \<Rightarrow> zip_pairs zl | OBJ_ENCODING_HT d \<Rightarrow> d | OBJ_ENCODING_REL _ \<Rightarrow> [])"

definition hmap :: "hash \<Rightarrow> string \<Rightarrow> string option" where
  "hmap h = map_of (hash_list h)"

lemma hash_ok_cases [consumes 1, case_names zip ht]:
  assumes "hash_ok h"
  obtains (zip) ps where "h = OBJ_ENCODING_ZIPLIST (zip_flat ps)" and "al_ok ps"
        | (ht) d where "h = OBJ_ENCODING_HT d" and "al_ok d"
  using assms by (auto simp: hash_ok_def split: hash.splits)

lemma hash_views [simp]:
  "hash_list (OBJ_ENCODING_ZIPLIST (zip_flat ps)) = ps"
  "hash_list (OBJ_ENCODING_HT d) = d"
  "hash_ok (OBJ_ENCODING_ZIPLIST (zip_flat ps)) \<longleftrightarrow> al_ok ps"
  "hash_ok (OBJ_ENCODING_HT d) \<longleftrightarrow> al_ok d"
  by (simp_all add: hash_list_def hash_ok_def)

lemma convert_ok:
  assumes "hash_ok (OBJ_ENCODING_ZIPLIST zl)"
  shows "hashTypeConvert (OBJ_ENCODING_ZIPLIST zl) = Inr (OBJ_ENCODING_HT (zip_pairs zl))"
  using assms convert_zip_flat [of "[]" "zip_pairs zl"]
  by (simp add: hashTypeConvert_def hashTypeConvertZiplist_def hash_ok_def)

lemma getValueObject_ok:
  assumes "hash_ok h"
  shows "\<exists>e. hashTypeGetValueObject h f = Inr e \<and> map_option getDecodedObject e = hmap h f \<and>
    (\<forall>i. e = Some (IntObj i) \<longrightarrow> is_long i)"
  using assms
proof (cases rule: hash_ok_cases)
  case (zip ps)
  have "is_long i" if "entry_object (zip_entry s) = IntObj i" for s i
    using that by (auto simp: entry_object_def zip_entry_def createStringObjectFromLongLong_def
      dest!: zipTryEncoding_Some split: option.splits if_splits)
  with zip show ?thesis
    by (auto simp: hashTypeGetValueObject_def hashTypeGetValue_def get_zip_flat hmap_def option.map_comp
      comp_def option.map_id0 option.map_ident)
next
  case (ht d)
  then show ?thesis
    by (auto simp: hashTypeGetValueObject_def hashTypeGetValue_def hashTypeGetFromHashTable_def hmap_def
      option.map_comp comp_def entry_object_def option.map_ident)
qed

lemma getValueRObject_ok:
  assumes "hash_ok h"
  shows "hashTypeGetValueRObject h f = hashTypeGetValueObject h (getDecodedObject f)"
  using assms
  by (cases rule: hash_ok_cases)
     (simp_all add: hashTypeGetValueRObject_def hashTypeGetValueObject_def hashTypeGetValue_def
       hashTypeGetFromZiplistWithrobj_def hashTypeGetFromHashTable_def option.map_comp comp_def entry_object_def)

lemma set_ok:
  assumes "hash_ok h"
  shows "\<exists>h'. hashTypeSetWithNoFlags n h f v = Inr (hmap h (getDecodedObject f) \<noteq> None, h') \<and> hash_ok h' \<and>
    hash_list h' = AList.update (getDecodedObject f) (getDecodedObject v) (hash_list h)"
  using assms
proof (cases rule: hash_ok_cases)
  case (zip ps)
  let ?ps = "AList.update (getDecodedObject f) (getDecodedObject v) ps"
  have "al_ok ?ps" using zip by (simp add: al_update_ok)
  then show ?thesis
    using convert_ok [of "zip_flat ?ps"] zip
    by (simp add: hashTypeSetWithNoFlags_def set_zip_flat Let_def hmap_def)
next
  case (ht d)
  then show ?thesis by (simp add: hashTypeSetWithNoFlags_def al_replace_def hmap_def al_update_ok)
qed

lemma delete_ok:
  assumes "hash_ok h"
  shows "\<exists>h'. hashTypeDelete h f = Inr (hmap h f \<noteq> None, h') \<and> hash_ok h' \<and> hash_list h' = AList.delete f (hash_list h)"
  using assms
proof (cases rule: hash_ok_cases)
  case (zip ps)
  show ?thesis
  proof (cases "map_of ps f")
    case None
    then have "AList.delete f ps = ps" by (simp add: delete_idem map_of_eq_None_iff)
    with None zip show ?thesis by (simp add: hashTypeDelete_def hash_field_pos_None hmap_def)
  next
    case (Some w)
    then obtain as bs where ps: "ps = as @ (f, w) # bs" and f: "f \<notin> fst ` set as" by (rule al_split)
    have "AList.delete f ps = as @ bs" using zip(2) delete_split [of as f w bs] by (simp add: ps al_ok_def)
    moreover have "ziplistDelete (ziplistDelete (zip_flat ps) (2 * length as)) (2 * length as) = zip_flat (as @ bs)"
      by (simp add: ziplistDelete_def ps)
    ultimately show ?thesis
      using Some zip al_delete_ok [OF zip(2), of f] hash_field_pos_Some [OF f, of w bs]
      by (simp add: hashTypeDelete_def hmap_def ps del: zip_flat_append)
  qed
next
  case (ht d)
  then show ?thesis by (simp add: hashTypeDelete_def al_delete_def hmap_def al_delete_ok)
qed

text \<open>
  C20. A hash object is a finite map from fields to texts, in the ziplist and in the hash table
  encoding alike, whatever integer encodings the ziplist chose and whether or not the object is
  converted on the way: reading gives the text stored last, setting adds or replaces one field
  and reports which, deleting removes it, and the length counts the fields.
\<close>

theorem hash_refines_map:
  assumes "hash_ok h"
  shows "(\<exists>e. hashTypeGetValueObject h f = Inr e \<and> map_option getDecodedObject e = hmap h f) \<and>
    (\<exists>h'. hashTypeSetWithNoFlags n h fo vo = Inr (hmap h (getDecodedObject fo) \<noteq> None, h') \<and> hash_ok h' \<and>
       hmap h' = (hmap h)(getDecodedObject fo \<mapsto> getDecodedObject vo)) \<and>
    (\<exists>h'. hashTypeDelete h f = Inr (hmap h f \<noteq> None, h') \<and> hash_ok h' \<and> hmap h' = (hmap h)(f := None)) \<and>
    hashTypeLength h = card (dom (hmap h))"
proof (intro conjI)
  show "\<exists>e. hashTypeGetValueObject h f = Inr e \<and> map_option getDecodedObject e = hmap h f"
    using getValueObject_ok [OF assms] by blast
  show "\<exists>h'. hashTypeSetWithNoFlags n h fo vo = Inr (hmap h (getDecodedObject fo) \<noteq> None, h') \<and> hash_ok h' \<and>
       hmap h' = (hmap h)(getDecodedObject fo \<mapsto> getDecodedObject vo)"
    using set_ok [OF assms, of n fo vo] by (auto simp: hmap_def update_conv')
  show "\<exists>h'. hashTypeDelete h f = Inr (hmap h f \<noteq> None, h') \<and> hash_ok h' \<and> hmap h' = (hmap h)(f := None)"
    using delete_ok [OF assms, of f] by (auto simp: hmap_def delete_conv')
  have "card (dom (map_of ps)) = length ps" if "al_ok ps" for ps :: "(string \<times> string) list"
    using that distinct_card [of "map fst ps"] by (simp add: al_ok_def dom_map_of_conv_image_fst)
  with assms show "hashTypeLength h = card (dom (hmap h))"
    by (cases rule: hash_ok_cases) (simp_all add: hashTypeLength_def ziplistLen_def hmap_def)
qed

theorem hash_refines_map_witness:
  "\<exists>h'. hashTypeSetWithNoFlags 1 (OBJ_ENCODING_ZIPLIST [ZInt 0, ZInt 7]) (SdsObj ''a'') (IntObj 9) = Inr (False, h') \<and>
     hmap h' ''0'' = Some ''7'' \<and> hmap h' ''a'' = Some ''9''"
proof -
  have p: "print_int 0 = ''0''" "print_int 7 = ''7''" "print_int 9 = ''9''" by code_simp+
  have ok: "hash_ok (OBJ_ENCODING_ZIPLIST [ZInt 0, ZInt 7])" by code_simp
  have e: "hmap (OBJ_ENCODING_ZIPLIST [ZInt 0, ZInt 7]) = [''0'' \<mapsto> ''7'']"
    by (simp add: hmap_def hash_list_def entry_sds_def p)
  have "getDecodedObject (IntObj 9) = ''9''" using getDecodedObject_Int [of 9] p by (simp add: is_long_def)
  then show ?thesis
    using hash_refines_map [OF ok, of "''a''" 1 "SdsObj ''a''" "IntObj 9"] e by auto
qed

end
