(* ===== verification/CQueue.thy ===== *)
theory CQueue
  imports Vec
begin

text \<open>
  The circular queues of dictionary entries (\<open>src/src/circular_queue.c\<close>) that drive tiering:
  the eviction queue of each database and its free queue. The buffer is kept with its
  uninitialised slots. The queue is shown to be first-in first-out; extending a full queue
  whose rear is not at the start of the buffer is shown to drop entries.
\<close>

section \<open>Definitions\<close>

text \<open>Where the rows of an entry are: in memory, in the persistent store, or on their way.\<close>

datatype location = LOCATION_REDIS_ONLY | LOCATION_PERSISTED | LOCATION_FLUSH

record 'e cqueue =
  rear :: nat
  front :: nat
  qmax :: nat
  key_offset :: nat
  qsize :: int
  buf :: "'e slot list"

abbreviation (input) QUEUE_MAX :: nat where "QUEUE_MAX \<equiv> 2147483646"
abbreviation (input) DEFAULT_ARRAY_QUEUE_SIZE :: nat where "DEFAULT_ARRAY_QUEUE_SIZE \<equiv> 100000"
abbreviation (input) DEFAULT_FREE_QUEUE_SIZE :: nat where "DEFAULT_FREE_QUEUE_SIZE \<equiv> 64"

definition createArrayQueue :: "nat \<Rightarrow> 'e cqueue" where
  "createArrayQueue capacity =
     \<lparr>rear = 0, front = 0, qmax = capacity, key_offset = 0, qsize = 0, buf = replicate capacity Raw\<rparr>"

text \<open>\<open>(i + 1) % queue->max\<close>, a read and a write of the buffer.\<close>

definition inc :: "'e cqueue \<Rightarrow> nat \<Rightarrow> nat res" where
  "inc q i = (if qmax q = 0 then Inl DivByZero else Inr ((i + 1) mod qmax q))"

definition buf_get :: "'e cqueue \<Rightarrow> nat \<Rightarrow> 'e option res" where
  "buf_get q i =
     (if i < length (buf q) then (case buf q ! i of Raw \<Rightarrow> Inl UninitRead | Dat x \<Rightarrow> Inr x)
      else Inl OutOfBounds)"

definition buf_set :: "'e cqueue \<Rightarrow> nat \<Rightarrow> 'e option \<Rightarrow> 'e cqueue res" where
  "buf_set q i x =
     (if i < length (buf q) then Inr (q\<lparr>buf := (buf q)[i := Dat x]\<rparr>) else Inl OutOfBounds)"

text \<open>The extension of a full queue.\<close>

definition extend :: "'e cqueue \<Rightarrow> 'e cqueue res" where
  "extend q =
     (if qmax q = QUEUE_MAX then Inl AssertFailed
      else
        let newCapacity = (if QUEUE_MAX - qmax q < qmax q then QUEUE_MAX else qmax q * 2)
        in if newCapacity = 0 then Inl DivByZero
           else Inr (q\<lparr>buf := take newCapacity (buf q) @ replicate (newCapacity - length (buf q)) Raw,
                       front := qmax q - 1, qmax := newCapacity, rear := rear q mod newCapacity\<rparr>))"

definition enqueue :: "'e cqueue \<Rightarrow> 'e option \<Rightarrow> (int \<times> 'e cqueue) res" where
  "enqueue q entry =
     (case entry of
        None \<Rightarrow> Inr (0, q)
      | Some e \<Rightarrow>
          bindr (inc q (front q)) (\<lambda>f.
            bindr (if f = rear q then extend q else Inr q) (\<lambda>q.
              bindr (buf_set q (front q) (Some e)) (\<lambda>q.
                bindr (inc q (front q)) (\<lambda>f.
                  Inr (1, q\<lparr>front := f, qsize := c_int (qsize q + 1)\<rparr>))))))"

text \<open>
  The values of the entries: an entry that was released is not in the map, and the value of an
  entry may be null.
\<close>

type_synonym 'e heap = "'e \<Rightarrow> location option option"

definition entry_val :: "'e heap \<Rightarrow> 'e \<Rightarrow> location option res" where
  "entry_val h e = (case h e of None \<Rightarrow> Inl UseAfterFree | Some v \<Rightarrow> Inr v)"

definition unlink_rear :: "'e cqueue \<Rightarrow> 'e cqueue res" where
  "unlink_rear q =
     bindr (buf_set q (rear q) None) (\<lambda>q.
       bindr (inc q (rear q)) (\<lambda>r. Inr (q\<lparr>rear := r, qsize := c_int (qsize q - 1)\<rparr>)))"

definition dequeue :: "'e heap \<Rightarrow> 'e cqueue \<Rightarrow> ('e option \<times> 'e cqueue) res" where
  "dequeue h q =
     (if rear q = front q then Inr (None, q)
      else
        bindr (buf_get q (rear q)) (\<lambda>x.
          case x of
            None \<Rightarrow> Inr (None, q)
          | Some e \<Rightarrow>
              bindr (entry_val h e) (\<lambda>obj.
                assertr (obj \<noteq> None) (bindr (unlink_rear q) (\<lambda>q. Inr (Some e, q))))))"

definition dequeueForClear :: "'e heap \<Rightarrow> 'e cqueue \<Rightarrow> ('e option \<times> 'e cqueue) res" where
  "dequeueForClear h q =
     bindr (buf_get q (rear q)) (\<lambda>x.
       case x of
         None \<Rightarrow> Inl AssertFailed
       | Some e \<Rightarrow>
           bindr (entry_val h e) (\<lambda>obj.
             case obj of
               None \<Rightarrow> Inl AssertFailed
             | Some loc \<Rightarrow>
                 if loc = LOCATION_REDIS_ONLY then Inl AssertFailed
                 else if loc \<noteq> LOCATION_PERSISTED then Inr (None, q)
                 else bindr (unlink_rear q) (\<lambda>q. Inr (Some e, q))))"

definition forceDequeue :: "'e heap \<Rightarrow> 'e cqueue \<Rightarrow> ('e option \<times> 'e cqueue) res" where
  "forceDequeue h q =
     (if rear q = front q then Inr (None, q)
      else
        bindr (buf_get q (rear q)) (\<lambda>x.
          case x of
            None \<Rightarrow> Inl AssertFailed
          | Some e \<Rightarrow>
              bindr (entry_val h e) (\<lambda>obj.
                assertr (obj \<noteq> None) (bindr (unlink_rear q) (\<lambda>q. Inr (Some e, q))))))"

definition isEmpty :: "'e cqueue \<Rightarrow> bool" where
  "isEmpty q \<longleftrightarrow> rear q = front q"

text \<open>The loop counts from the rear to the front, both inclusive, as they are on entry.\<close>

fun force_times :: "nat \<Rightarrow> 'e heap \<Rightarrow> 'e cqueue \<Rightarrow> 'e cqueue res" where
  "force_times 0 h q = Inr q"
| "force_times (Suc n) h q = bindr (forceDequeue h q) (\<lambda>(_, q). force_times n h q)"

definition initializeQueue :: "'e heap \<Rightarrow> 'e cqueue \<Rightarrow> 'e cqueue res" where
  "initializeQueue h q =
     bindr (force_times (front q + 1 - rear q) h q) (\<lambda>q.
       Inr (q\<lparr>rear := 0, key_offset := 0, front := 0\<rparr>))"

definition chooseBestKeyFromQueue :: "'e heap \<Rightarrow> 'e cqueue \<Rightarrow> ('e option \<times> 'e cqueue) res" where
  "chooseBestKeyFromQueue h q =
     (if front q = rear q then Inr (None, q)
      else
        bindr (bindr (buf_get q (key_offset q)) deref) (\<lambda>e.
          bindr (bindr (entry_val h e) deref) (\<lambda>loc.
            bindr (if loc = LOCATION_PERSISTED \<and> key_offset q \<noteq> front q then
                     bindr (inc q (key_offset q)) (\<lambda>k.
                       let q = q\<lparr>key_offset := k\<rparr>
                       in bindr (bindr (buf_get q k) deref) (\<lambda>e.
                            bindr (bindr (entry_val h e) deref) (\<lambda>loc. Inr (e, loc, q))))
                   else Inr (e, loc, q)) (\<lambda>(e, loc, q).
              if loc \<noteq> LOCATION_PERSISTED \<and> loc \<noteq> LOCATION_REDIS_ONLY then Inl AssertFailed
              else assertr (loc = LOCATION_REDIS_ONLY) (Inr (Some e, q))))))"

definition chooseClearKeyFromQueue :: "'e heap \<Rightarrow> 'e cqueue \<Rightarrow> ('e option \<times> 'e cqueue) res" where
  "chooseClearKeyFromQueue h q = dequeueForClear h q"

text \<open>
  \<open>chooseBestKeyFromQueue_\<close>: the entry at the rear of the eviction queue is marked as being
  flushed and moves to the free queue. The entry is dereferenced without a test for null.
\<close>

definition chooseBestKeyFromQueue2 ::
  "'e heap \<Rightarrow> 'e cqueue \<Rightarrow> 'e cqueue \<Rightarrow> ('e \<times> 'e heap \<times> 'e cqueue \<times> 'e cqueue) res" where
  "chooseBestKeyFromQueue2 h q freequeue =
     bindr (dequeue h q) (\<lambda>(x, q).
       bindr (deref x) (\<lambda>e.
         bindr (bindr (entry_val h e) deref) (\<lambda>loc.
           assertr (loc = LOCATION_REDIS_ONLY)
             (bindr (enqueue freequeue (Some e)) (\<lambda>(_, freequeue).
                Inr (e, h(e := Some (Some LOCATION_FLUSH)), q, freequeue))))))"

definition RearEntry :: "'e cqueue \<Rightarrow> 'e option res" where
  "RearEntry q = buf_get q (rear q)"

section \<open>A queue is the list of its entries\<close>

text \<open>
  The slots from the rear up to the front hold the given entries. \<open>qok\<close> adds that the recorded
  size is right.
\<close>

definition qholds :: "'e cqueue \<Rightarrow> 'e list \<Rightarrow> bool" where
  "qholds q xs \<longleftrightarrow> 0 < qmax q \<and> qmax q \<le> QUEUE_MAX \<and> length (buf q) = qmax q \<and> rear q < qmax q \<and>
     length xs < qmax q \<and> front q = (rear q + length xs) mod qmax q \<and>
     (\<forall>i < length xs. buf q ! ((rear q + i) mod qmax q) = Dat (Some (xs ! i)))"

definition qok :: "'e cqueue \<Rightarrow> 'e list \<Rightarrow> bool" where
  "qok q xs \<longleftrightarrow> qholds q xs \<and> qsize q = int (length xs)"

text \<open>No index of the window is met twice.\<close>

lemma window_inj:
  assumes "i < m" and "j < m" and "(r + i) mod m = (r + j) mod (m :: nat)"
  shows "i = j"
proof -
  have "(int r + int i) mod int m = (int r + int j) mod int m"
    using assms(3) by (metis of_nat_add zmod_int)
  then have "(int r + int i - int r) mod int m = (int r + int j - int r) mod int m"
    by (intro mod_diff_cong) simp_all
  then show ?thesis using assms(1,2) by simp
qed

lemma window_full:
  assumes "r < m" and "Suc n \<le> (m :: nat)"
  shows "Suc ((r + n) mod m) mod m = r \<longleftrightarrow> Suc n = m"
proof -
  have e: "Suc ((r + n) mod m) mod m = (r + Suc n) mod m" by (simp add: mod_Suc_eq)
  show ?thesis
  proof (cases "Suc n = m")
    case True
    then show ?thesis unfolding e using assms by simp
  next
    case False
    then have "(r + Suc n) mod m \<noteq> (r + 0) mod m" using window_inj [of "Suc n" m 0 r] assms by auto
    with False assms show ?thesis unfolding e by simp
  qed
qed

text \<open>Writing at the front of a queue with room, and what it does to the contents.\<close>

definition put :: "'e cqueue \<Rightarrow> 'e \<Rightarrow> (int \<times> 'e cqueue) res" where
  "put q e =
     bindr (buf_set q (front q) (Some e)) (\<lambda>q.
       bindr (inc q (front q)) (\<lambda>f. Inr (1, q\<lparr>front := f, qsize := c_int (qsize q + 1)\<rparr>)))"

lemma put_holds:
  assumes "qholds q xs" and "Suc (length xs) < qmax q"
  shows "\<exists>q'. put q e = Inr (1, q') \<and> qholds q' (xs @ [e]) \<and> qsize q' = c_int (qsize q + 1) \<and>
    qmax q' = qmax q \<and> rear q' = rear q"
proof -
  let ?m = "qmax q" and ?r = "rear q" and ?n = "length xs"
  note h = assms(1) [unfolded qholds_def]
  have f: "front q < ?m" "front q = (?r + ?n) mod ?m" using h by auto
  have b: "(buf q)[front q := Dat (Some e)] ! ((?r + i) mod ?m) = Dat (Some ((xs @ [e]) ! i))"
    if "i < Suc ?n" for i
  proof (cases "i = ?n")
    case True
    with f h show ?thesis by simp
  next
    case False
    with that have i: "i < ?n" by simp
    then have "(?r + i) mod ?m \<noteq> front q" using window_inj [of i ?m ?n ?r] h f(2) by auto
    with i h show ?thesis by (simp add: nth_append)
  qed
  have s: "Suc ((?r + ?n) mod ?m) mod ?m = Suc (?r + ?n) mod ?m" by (simp add: mod_Suc_eq)
  show ?thesis
    using h f b assms(2) s by (auto simp: put_def buf_set_def inc_def qholds_def)
qed

lemma enqueue_put:
  "enqueue q (Some e) =
     bindr (inc q (front q)) (\<lambda>f. bindr (if f = rear q then extend q else Inr q) (\<lambda>q. put q e))"
  by (simp add: enqueue_def put_def)

lemma inc_front:
  assumes "qholds q xs"
  shows "\<exists>f. inc q (front q) = Inr f \<and> (f = rear q \<longleftrightarrow> Suc (length xs) = qmax q)"
  using assms window_full [of "rear q" "qmax q" "length xs"] by (simp add: inc_def qholds_def)

lemma enqueue_room:
  assumes "qok q xs" and "Suc (length xs) < qmax q"
  shows "\<exists>q'. enqueue q (Some e) = Inr (1, q') \<and> qok q' (xs @ [e]) \<and> qmax q' = qmax q \<and> rear q' = rear q"
proof -
  have h: "qholds q xs" "qsize q = int (length xs)" using assms(1) by (simp_all add: qok_def)
  obtain f where "inc q (front q) = Inr f" "f \<noteq> rear q" using inc_front [OF h(1)] assms(2) by auto
  moreover have "c_int (int (length xs) + 1) = int (length (xs @ [e]))"
    using h(1) assms(2) by (simp add: c_int_id is_int_def qholds_def)
  ultimately show ?thesis using put_holds [OF h(1) assms(2), of e] h(2) by (auto simp: enqueue_put qok_def)
qed

text \<open>The extension keeps the slots before the old end of the buffer and puts the front there.\<close>

lemma extend_holds:
  assumes "qholds q xs" and "Suc (length xs) = qmax q" and "qmax q \<noteq> QUEUE_MAX"
  shows "\<exists>q'. extend q = Inr q' \<and> qholds q' (take (qmax q - 1 - rear q) xs) \<and> qsize q' = qsize q \<and>
    qmax q < qmax q' \<and> rear q' = rear q"
proof -
  note h = assms(1) [unfolded qholds_def]
  define c where "c = (if QUEUE_MAX - qmax q < qmax q then QUEUE_MAX else qmax q * 2)"
  have c: "qmax q < c" "c \<le> QUEUE_MAX" using h assms(3) by (auto simp: c_def)
  let ?q = "q\<lparr>buf := take c (buf q) @ replicate (c - length (buf q)) Raw,
    front := qmax q - 1, qmax := c, rear := rear q mod c\<rparr>"
  have "extend q = Inr ?q" using assms(3) c by (simp add: extend_def c_def [symmetric] Let_def)
  moreover have "?q = q\<lparr>buf := buf q @ replicate (c - qmax q) Raw, front := qmax q - 1, qmax := c\<rparr>"
    using h c(1) by simp
  moreover have "buf q ! ((rear q + i) mod c) = Dat (Some (xs ! i))" if "i < qmax q - 1 - rear q" for i
  proof -
    have "rear q + i < qmax q" "i < length xs" using that assms(2) by linarith+
    moreover from this have "(rear q + i) mod c = (rear q + i) mod qmax q" using c(1) by simp
    moreover have "\<forall>i < length xs. buf q ! ((rear q + i) mod qmax q) = Dat (Some (xs ! i))"
      using h by blast
    ultimately show ?thesis by metis
  qed
  ultimately show ?thesis
    using h c assms(2) by (auto simp: qholds_def nth_append)
qed

lemma enqueue_full:
  assumes "qok q xs" and "Suc (length xs) = qmax q" and "qmax q \<noteq> QUEUE_MAX"
  shows "\<exists>q'. enqueue q (Some e) = Inr (1, q') \<and>
    qholds q' (take (qmax q - 1 - rear q) xs @ [e]) \<and> qsize q' = int (length xs) + 1 \<and>
    qmax q < qmax q' \<and> rear q' = rear q"
proof -
  have h: "qholds q xs" "qsize q = int (length xs)" using assms(1) by (simp_all add: qok_def)
  let ?ys = "take (qmax q - 1 - rear q) xs"
  obtain f where f: "inc q (front q) = Inr f" "f = rear q" using inc_front [OF h(1)] assms(2) by auto
  obtain u where u: "extend q = Inr u" "qholds u ?ys" "qsize u = qsize q" "qmax q < qmax u" "rear u = rear q"
    using extend_holds [OF h(1) assms(2,3)] by blast
  have "Suc (length ?ys) < qmax u" using u(4) assms(2) by simp
  from put_holds [OF u(2) this, of e] obtain w where w: "put u e = Inr (1, w)" "qholds w (?ys @ [e])"
    "qsize w = c_int (qsize u + 1)" "qmax w = qmax u" "rear w = rear u" by blast
  have "c_int (int (length xs) + 1) = int (length xs) + 1"
    using h(1) assms(2) by (simp add: c_int_id is_int_def qholds_def)
  with f u w h(2) show ?thesis by (simp add: enqueue_put)
qed

lemma unlink_qholds:
  assumes "qholds q (x # xs)"
  shows "\<exists>q'. unlink_rear q = Inr q' \<and> qholds q' xs \<and> qsize q' = c_int (qsize q - 1) \<and> qmax q' = qmax q \<and> buf_get q (rear q) = Inr (Some x) \<and>
    rear q \<noteq> front q"
proof -
  let ?m = "qmax q" and ?r = "rear q"
  note h = assms [unfolded qholds_def]
  have "buf q ! ((?r + 0) mod ?m) = Dat (Some x)" using h by fastforce
  then have x: "buf_get q ?r = Inr (Some x)" using h by (simp add: buf_get_def)
  have "(?r + 0) mod ?m \<noteq> (?r + Suc (length xs)) mod ?m"
    using window_inj [of 0 ?m "Suc (length xs)" ?r] h by auto
  then have ne: "?r \<noteq> front q" using h by simp
  have s: "(Suc ?r mod ?m + i) mod ?m = (?r + Suc i) mod ?m" for i
    by (simp add: mod_simps)
  have b: "(buf q)[?r := Dat None] ! ((Suc ?r mod ?m + i) mod ?m) = Dat (Some (xs ! i))"
    if "i < length xs" for i
  proof -
    have "(?r + 0) mod ?m \<noteq> (?r + Suc i) mod ?m" using window_inj [of 0 ?m "Suc i" ?r] h that by auto
    then have "(?r + Suc i) mod ?m \<noteq> ?r" using h by simp
    moreover have "buf q ! ((?r + Suc i) mod ?m) = Dat (Some ((x # xs) ! Suc i))"
      using h that by (metis Suc_less_eq length_Cons)
    ultimately show ?thesis unfolding s by simp
  qed
  show ?thesis
    using h b s [of "length xs"] x ne
    by (auto simp: unlink_rear_def buf_set_def inc_def qholds_def)
qed

lemma unlink_holds:
  assumes "qok q (x # xs)"
  shows "\<exists>q'. unlink_rear q = Inr q' \<and> qok q' xs \<and> qmax q' = qmax q \<and> buf_get q (rear q) = Inr (Some x) \<and>
    rear q \<noteq> front q"
proof -
  have h: "qholds q (x # xs)" "qsize q = int (length xs) + 1" using assms by (simp_all add: qok_def)
  then have "c_int (qsize q - 1) = int (length xs)" by (simp add: qholds_def c_int_id is_int_def)
  with unlink_qholds [OF h(1)] show ?thesis by (auto simp: qok_def)
qed

text \<open>Whatever happens to a full queue, what it holds afterwards are entries it held, in order, and the new one.\<close>

lemma enqueue_qholds:
  assumes "qholds q xs" and "enqueue q (Some e) = Inr (r, q')"
  shows "\<exists>n. qholds q' (take n xs @ [e])"
proof (cases "Suc (length xs) = qmax q")
  case True
  obtain u where u: "extend q = Inr u" "put u e = Inr (r, q')"
    using assms inc_front [OF assms(1)] True by (auto simp: enqueue_put bindr_eq_Inr)
  have "qmax q \<noteq> QUEUE_MAX" using u(1) by (auto simp: extend_def)
  from extend_holds [OF assms(1) True this] u(1)
  have h: "qholds u (take (qmax q - 1 - rear q) xs)" "qmax q < qmax u" by auto
  have "Suc (length (take (qmax q - 1 - rear q) xs)) < qmax u" using h(2) True by simp
  from put_holds [OF h(1) this, of e] u(2) show ?thesis by auto
next
  case False
  then have "Suc (length xs) < qmax q" using assms(1) by (auto simp: qholds_def)
  moreover have "put q e = Inr (r, q')"
    using assms inc_front [OF assms(1)] False by (auto simp: enqueue_put bindr_eq_Inr)
  ultimately show ?thesis using put_holds [OF assms(1), of e] by (metis Inr_inject Pair_inject take_all order_refl)
qed

lemma dequeue_empty: "qok q [] \<Longrightarrow> dequeue h q = Inr (None, q)"
  by (simp add: dequeue_def qok_def qholds_def)

lemma dequeue_Cons:
  assumes "qok q (x # xs)" and "h x = Some (Some loc)"
  shows "\<exists>q'. dequeue h q = Inr (Some x, q') \<and> qok q' xs \<and> qmax q' = qmax q"
  using unlink_holds [OF assms(1)] assms(2) by (auto simp: dequeue_def entry_val_def)

lemma forceDequeue_Cons:
  assumes "qok q (x # xs)" and "h x = Some (Some loc)"
  shows "\<exists>q'. forceDequeue h q = Inr (Some x, q') \<and> qok q' xs \<and> qmax q' = qmax q"
  using unlink_holds [OF assms(1)] assms(2) by (auto simp: forceDequeue_def entry_val_def)

lemma dequeueForClear_Cons:
  assumes "qok q (x # xs)" and "h x = Some (Some loc)" and "loc \<noteq> LOCATION_REDIS_ONLY"
  shows "\<exists>q'. dequeueForClear h q = Inr (if loc = LOCATION_PERSISTED then (Some x, q') else (None, q)) \<and>
    qok q' xs \<and> qmax q' = qmax q"
  using unlink_holds [OF assms(1)] assms(2,3) by (auto simp: dequeueForClear_def entry_val_def)

lemma qok_create: "0 < n \<Longrightarrow> n \<le> QUEUE_MAX \<Longrightarrow> qok (createArrayQueue n) []"
  by (simp add: createArrayQueue_def qok_def qholds_def)

section \<open>First-in first-out stores\<close>

text \<open>
  What the tiering code relies on: entries leave in the order they came. \<open>room\<close> says when an
  entry may be added.
\<close>

locale fifo =
  fixes emp :: "'q"
    and enq :: "'q \<Rightarrow> 'e option \<Rightarrow> (int \<times> 'q) res"
    and deq :: "('e \<Rightarrow> location option option) \<Rightarrow> 'q \<Rightarrow> ('e option \<times> 'q) res"
    and room :: "'q \<Rightarrow> bool"
    and holds :: "'q \<Rightarrow> 'e list \<Rightarrow> bool"
  assumes holds_emp: "holds emp []"
    and holds_enq: "holds q xs \<Longrightarrow> room q \<Longrightarrow> \<exists>q'. enq q (Some e) = Inr (1, q') \<and> holds q' (xs @ [e])"
    and holds_deq: "holds q (x # xs) \<Longrightarrow> h x = Some (Some loc) \<Longrightarrow> \<exists>q'. deq h q = Inr (Some x, q') \<and> holds q' xs"
    and deq_none: "holds q [] \<Longrightarrow> deq h q = Inr (None, q)"
begin

text \<open>Emptying the store returns what it held, in order.\<close>

lemma drain:
  assumes "holds q xs" and "\<forall>x \<in> set xs. \<exists>loc. h x = Some (Some loc)"
  shows "\<exists>f. f 0 = q \<and> (\<forall>i < length xs. deq h (f i) = Inr (Some (xs ! i), f (Suc i))) \<and>
    deq h (f (length xs)) = Inr (None, f (length xs))"
  using assms
proof (induction xs arbitrary: q)
  case Nil
  then show ?case using deq_none by (intro exI [of _ "\<lambda>_. q"]) simp
next
  case (Cons x xs)
  then obtain q' where q': "deq h q = Inr (Some x, q')" "holds q' xs"
    using holds_deq [of q x xs h] by (metis list.set_intros(1))
  with Cons obtain f where f: "f 0 = q'" "\<forall>i < length xs. deq h (f i) = Inr (Some (xs ! i), f (Suc i))"
    "deq h (f (length xs)) = Inr (None, f (length xs))" by (meson list.set_intros(2))
  define g where "g = case_nat q f"
  have "g 0 = q" "\<And>i. g (Suc i) = f i" by (simp_all add: g_def)
  then show ?case using q'(1) f
    by (intro exI [of _ g]) (auto simp: less_Suc_eq_0_disj)
qed

end

text \<open>A buffer holds one list only.\<close>

lemma qholds_unique:
  assumes "qholds q xs" and "qholds q ys"
  shows "xs = ys"
proof -
  note h = assms [unfolded qholds_def]
  have l: "length xs = length ys"
    using h window_inj [of "length xs" "qmax q" "length ys" "rear q"] by simp
  then show ?thesis using h by (intro nth_equalityI) auto
qed

text \<open>Every entry may be added to a queue that is not at its largest size, though a full one may lose entries.\<close>

lemma enqueue_some:
  assumes "qholds q xs" and "Suc (length xs) < QUEUE_MAX"
  shows "\<exists>r q'. enqueue q (Some e) = Inr (r, q')"
proof (cases "Suc (length xs) = qmax q")
  case True
  then obtain u where u: "extend q = Inr u" "qholds u (take (qmax q - 1 - rear q) xs)" "qmax q < qmax u"
    using extend_holds [OF assms(1)] assms(2) by auto
  then have "Suc (length (take (qmax q - 1 - rear q) xs)) < qmax u" using True by simp
  then obtain q' where "put u e = Inr (1, q')" using put_holds [OF u(2)] by blast
  then show ?thesis using inc_front [OF assms(1)] u(1) True by (auto simp: enqueue_put)
next
  case False
  then have "Suc (length xs) < qmax q" using assms(1) by (simp add: qholds_def)
  then obtain q' where "put q e = Inr (1, q')" using put_holds [OF assms(1)] by blast
  then show ?thesis using inc_front [OF assms(1)] False by (auto simp: enqueue_put)
qed

text \<open>An entry may be added when the queue is not full, or is full with its rear at the start.\<close>

definition queue_room :: "'e cqueue \<Rightarrow> bool" where
  "queue_room q \<longleftrightarrow> inc q (front q) \<noteq> Inr (rear q) \<or> rear q = 0 \<and> qmax q \<noteq> QUEUE_MAX"

lemma enqueue_ok:
  assumes "qok q xs" and "queue_room q"
  shows "\<exists>q'. enqueue q (Some e) = Inr (1, q') \<and> qok q' (xs @ [e])"
proof (cases "Suc (length xs) = qmax q")
  case True
  have h: "qholds q xs" using assms(1) by (simp add: qok_def)
  then have "rear q = 0" "qmax q \<noteq> QUEUE_MAX"
    using assms(2) inc_front [OF h] True by (auto simp: queue_room_def)
  moreover have "take (qmax q - 1) xs = xs" using True by simp
  ultimately show ?thesis using enqueue_full [OF assms(1) True, of e] by (auto simp: qok_def)
next
  case False
  then have "Suc (length xs) < qmax q" using assms(1) by (auto simp: qok_def qholds_def)
  then show ?thesis using enqueue_room [OF assms(1)] by blast
qed

interpretation cq: fifo "createArrayQueue DEFAULT_ARRAY_QUEUE_SIZE" enqueue dequeue queue_room qok
proof
  show "qok (createArrayQueue DEFAULT_ARRAY_QUEUE_SIZE) []" by (rule qok_create) simp_all
  show "\<exists>q'. enqueue q (Some e) = Inr (1, q') \<and> qok q' (xs @ [e])"
    if "qok q xs" "queue_room q" for q :: "'a cqueue" and xs e using that by (rule enqueue_ok)
  show "\<exists>q'. dequeue h q = Inr (Some x, q') \<and> qok q' xs"
    if "qok q (x # xs)" "h x = Some (Some loc)" for q :: "'a cqueue" and x xs h loc
    using dequeue_Cons [of q x xs h loc] that by blast
  show "dequeue h q = Inr (None, q)" if "qok q []" for h and q :: "'a cqueue" using that by (rule dequeue_empty)
qed

section \<open>Properties\<close>


definition sample_queue :: "nat cqueue" where
  "sample_queue = \<lparr>rear = 2, front = 1, qmax = 4, key_offset = 0, qsize = 3,
     buf = [Dat (Some 12), Dat None, Dat (Some 10), Dat (Some 11)]\<rparr>"

lemma sample_queue_ok: "qok sample_queue [10, 11, 12]"
  by (simp add: qok_def qholds_def sample_queue_def All_less_Suc)


text \<open>
  C40. Adding to a full queue whose rear is not at the start of the buffer loses as many entries
  as the rear is away from it: the newest ones are no longer between rear and front, and the
  recorded size counts them still.
\<close>

theorem enqueue_extension_drops:
  assumes "qok q xs" and "Suc (length xs) = qmax q" and "qmax q \<noteq> QUEUE_MAX" and "0 < rear q"
  shows "\<exists>q'. enqueue q (Some e) = Inr (1, q') \<and>
    qholds q' (take (length xs - rear q) xs @ [e]) \<and> qsize q' = int (length xs) + 1 \<and>
    length (take (length xs - rear q) xs @ [e]) + rear q = length xs + 1"
proof -
  have "qmax q - 1 = length xs" "rear q \<le> length xs"
    using assms(1,2) by (auto simp: qok_def qholds_def)
  then show ?thesis using enqueue_full [OF assms(1-3), of e] by auto
qed

theorem enqueue_extension_drops_witness:
  "\<exists>q'. enqueue sample_queue (Some 13) = Inr (1, q') \<and> qholds q' [10, 13] \<and> qsize q' = 4"
  using enqueue_extension_drops [OF sample_queue_ok, of 13] by (simp add: sample_queue_def)

text \<open>
  C25. Choosing the next victim moves the oldest entry of the eviction queue to the end of the
  free queue and marks it as being flushed; the other entries of both queues stay as they were.
\<close>

theorem chooseBestKeyFromQueue2_moves:
  assumes "qok q (x # xs)" and "qok fq ys" and "queue_room fq" and "h x = Some (Some LOCATION_REDIS_ONLY)"
  shows "\<exists>q' fq'. chooseBestKeyFromQueue2 h q fq = Inr (x, h(x := Some (Some LOCATION_FLUSH)), q', fq') \<and>
    qok q' xs \<and> qok fq' (ys @ [x])"
proof -
  obtain q' where q': "dequeue h q = Inr (Some x, q')" "qok q' xs"
    using cq.holds_deq [of q x xs h LOCATION_REDIS_ONLY] assms(1,4) by blast
  obtain fq' where "enqueue fq (Some x) = Inr (1, fq')" "qok fq' (ys @ [x])"
    using cq.holds_enq [OF assms(2,3)] by blast
  with q' assms(4) show ?thesis by (simp add: chooseBestKeyFromQueue2_def entry_val_def)
qed

theorem chooseBestKeyFromQueue2_moves_witness:
  "\<exists>q' fq'. chooseBestKeyFromQueue2 (\<lambda>_. Some (Some LOCATION_REDIS_ONLY)) sample_queue
       (createArrayQueue DEFAULT_FREE_QUEUE_SIZE) =
     Inr (10, (\<lambda>_. Some (Some LOCATION_REDIS_ONLY))(10 := Some (Some LOCATION_FLUSH)), q', fq') \<and>
     qok q' [11, 12] \<and> qok fq' [10]"
proof -
  have "qok (createArrayQueue DEFAULT_FREE_QUEUE_SIZE :: nat cqueue) []" by (rule qok_create) simp_all
  moreover have "queue_room (createArrayQueue DEFAULT_FREE_QUEUE_SIZE :: nat cqueue)"
    by (simp add: queue_room_def createArrayQueue_def)
  ultimately show ?thesis
    using chooseBestKeyFromQueue2_moves [OF sample_queue_ok, of "createArrayQueue DEFAULT_FREE_QUEUE_SIZE" "[]"
        "\<lambda>_. Some (Some LOCATION_REDIS_ONLY)"] by simp
qed

lemma force_times_all:
  assumes "qok q xs" and "\<forall>x \<in> set xs. \<exists>loc. h x = Some (Some loc)" and "length xs \<le> n"
  shows "\<exists>q'. force_times n h q = Inr q' \<and> qok q' [] \<and> qmax q' = qmax q"
  using assms
proof (induction n arbitrary: q xs)
  case (Suc n)
  show ?case
  proof (cases xs)
    case Nil
    with Suc.prems have "forceDequeue h q = Inr (None, q)"
      by (simp add: forceDequeue_def qok_def qholds_def)
    with Suc Nil show ?thesis by simp
  next
    case (Cons x ys)
    with Suc.prems obtain loc where "h x = Some (Some loc)" by auto
    then obtain q' where q': "forceDequeue h q = Inr (Some x, q')" "qok q' ys" "qmax q' = qmax q"
      using forceDequeue_Cons [of q x ys h loc] Suc.prems(1) Cons by blast
    moreover have "\<forall>x \<in> set ys. \<exists>loc. h x = Some (Some loc)" "length ys \<le> n"
      using Suc.prems(2,3) Cons by simp_all
    ultimately show ?thesis using Suc.IH [OF q'(2)] by simp
  qed
qed simp

text \<open>
  \<open>initializeQueue\<close> empties a queue whose entries do not wrap around the buffer, size
  included. When they do wrap it releases none of them: the pointers are reset but the size and
  the buffer are as before.
\<close>

lemma initializeQueue_effect:
  assumes "qok q xs" and "\<forall>x \<in> set xs. \<exists>loc. h x = Some (Some loc)"
  shows "\<exists>q'. initializeQueue h q = Inr q' \<and> rear q' = 0 \<and> front q' = 0 \<and> key_offset q' = 0 \<and>
    (if rear q \<le> front q then qok q' [] else buf q' = buf q \<and> qsize q' = int (length xs))"
proof (cases "rear q \<le> front q")
  case True
  have "length xs \<le> front q + 1 - rear q"
  proof (cases "rear q + length xs < qmax q")
    case False
    then have "rear q + length xs = front q + qmax q"
      using assms(1) by (auto simp: qok_def qholds_def mod_if)
    then show ?thesis using True assms(1) by (simp add: qok_def qholds_def)
  qed (use assms(1) in \<open>simp add: qok_def qholds_def\<close>)
  from force_times_all [OF assms this] True show ?thesis
    by (auto simp: initializeQueue_def qok_def qholds_def)
next
  case False
  then show ?thesis using assms(1) by (simp add: initializeQueue_def qok_def)
qed

lemma initializeQueue_effect_witness:
  "\<exists>q'. initializeQueue (\<lambda>_. Some (Some LOCATION_FLUSH)) sample_queue = Inr q' \<and> rear q' = 0 \<and>
     front q' = 0 \<and> qsize q' = 3"
  using initializeQueue_effect [OF sample_queue_ok, of "\<lambda>_. Some (Some LOCATION_FLUSH)"]
  by (auto simp: sample_queue_def)

end
