(* ===== verification/Db.thy ===== *)
theory Db
  imports HashType CQueue
begin

text \<open>
  The database of the server (\<open>src/src/db.c\<close>, parts of \<open>src/src/lazyfree.c\<close>): the main
  dictionary with its entries at addresses, the dictionary of expiry times, the dictionary of
  relational metadata, the two tiering queues and the handle of the persistent store. RocksDB is
  a parameter: reading a key gives an error, nothing or a text.
\<close>

section \<open>Definitions\<close>

subsection \<open>State\<close>

datatype objval = StringObj strobj | HashObj hash | OtherObj

record robj =
  loc :: location
  val :: objval

definition createObject :: "objval \<Rightarrow> robj" where
  "createObject v = \<lparr>loc = LOCATION_REDIS_ONLY, val = v\<rparr>"

text \<open>
  The globals of the server that the modelled code reads. \<open>now\<close> is the time of the call, that of
  the start of the script inside one.
\<close>

record server =
  now :: int
  loading :: bool
  has_master :: bool
  lazyfree_lazy_expire :: bool
  rowgroup_size :: int
  columnvector_size :: int
  batch_tiering_size :: int
  hash_max_ziplist_entries :: nat

text \<open>
  An entry of the main dictionary is an allocation with an address; the queues hold addresses.
  \<open>unlinked\<close> holds the entries that left the dictionary and that a background job releases later.
\<close>

record 'ps redisDb =
  ddict :: "(string \<times> nat \<times> robj) list"
  fresh :: nat
  unlinked :: "(nat \<times> robj) list"
  expires :: "(string \<times> int) list"
  Metadict :: "(string \<times> robj) list"
  EvictQueue :: "nat cqueue"
  FreeQueue :: "nat cqueue"
  persistent_store :: 'ps

definition entries :: "'ps redisDb \<Rightarrow> (nat \<times> robj) list" where
  "entries db = map snd (ddict db) @ unlinked db"

definition db_heap :: "'ps redisDb \<Rightarrow> nat heap" where
  "db_heap db e = map_option (\<lambda>v. Some (loc v)) (map_of (entries db) e)"

text \<open>A write through the value pointer of an entry.\<close>

definition put_entry :: "'ps redisDb \<Rightarrow> nat \<Rightarrow> (robj \<Rightarrow> robj) \<Rightarrow> 'ps redisDb" where
  "put_entry db e f =
     db\<lparr>ddict := map (\<lambda>(k, a, v). (k, a, if a = e then f v else v)) (ddict db),
        unlinked := map (\<lambda>(a, v). (a, if a = e then f v else v)) (unlinked db)\<rparr>"

subsection \<open>Lookup\<close>

type_synonym 'ps rocks_get = "'ps \<Rightarrow> string \<Rightarrow> string option option"

text \<open>
  \<open>lookupKey\<close>: the flag \<open>LOOKUP_ALL\<close> asks for the persistent store as well. The access time is
  not part of the state.
\<close>

definition lookupKey :: "'ps rocks_get \<Rightarrow> 'ps redisDb \<Rightarrow> string \<Rightarrow> bool \<Rightarrow> robj option res" where
  "lookupKey rget db key lookup_all =
     (case map_of (ddict db) key of
        Some (a, v) \<Rightarrow> Inr (Some v)
      | None \<Rightarrow>
          if lookup_all then
            (case rget (persistent_store db) key of
               None \<Rightarrow> Inl ServerPanic
             | Some retVal \<Rightarrow> Inr None)
          else Inr None)"

definition lookupKeyForMetadict :: "'ps redisDb \<Rightarrow> string \<Rightarrow> robj option" where
  "lookupKeyForMetadict db key = map_of (Metadict db) key"

definition lookupSDSKeyForMetadict :: "'ps redisDb \<Rightarrow> string \<Rightarrow> robj option" where
  "lookupSDSKeyForMetadict db key = map_of (Metadict db) key"

definition lookupSDSKeyFordict :: "'ps redisDb \<Rightarrow> string \<Rightarrow> robj option" where
  "lookupSDSKeyFordict db key = map_option snd (map_of (ddict db) key)"

definition lookupKeyWriteForMetadict :: "'ps redisDb \<Rightarrow> string \<Rightarrow> robj option" where
  "lookupKeyWriteForMetadict db key = lookupKeyForMetadict db key"

subsection \<open>Insertion, deletion and expiry\<close>

definition dbAddForMetadict :: "'ps redisDb \<Rightarrow> string \<Rightarrow> robj \<Rightarrow> 'ps redisDb res" where
  "dbAddForMetadict db key v =
     (let (added, d) = al_add (Metadict db) key v
      in assertr added (Inr (db\<lparr>Metadict := d\<rparr>)))"

definition dbAdd :: "'ps redisDb \<Rightarrow> string \<Rightarrow> robj \<Rightarrow> 'ps redisDb res" where
  "dbAdd db key v =
     (let (added, d) = al_add (ddict db) key (fresh db, v)
      in assertr added (Inr (db\<lparr>ddict := d, fresh := fresh db + 1\<rparr>)))"

definition dbSyncDelete :: "'ps redisDb \<Rightarrow> string \<Rightarrow> bool \<times> 'ps redisDb" where
  "dbSyncDelete db key =
     (let (_, ex) = al_delete (expires db) key;
          (deleted, d) = al_delete (ddict db) key
      in (deleted, db\<lparr>expires := ex, ddict := d\<rparr>))"

text \<open>The value goes to a background job when releasing it is much work, at once otherwise.\<close>

definition dbAsyncDelete :: "'ps redisDb \<Rightarrow> string \<Rightarrow> bool \<times> 'ps redisDb" where
  "dbAsyncDelete db key =
     (let (_, ex) = al_delete (expires db) key;
          (deleted, d) = al_delete (ddict db) key
      in (deleted, db\<lparr>expires := ex, ddict := d\<rparr>))"

definition setExpire :: "'ps redisDb \<Rightarrow> string \<Rightarrow> int \<Rightarrow> 'ps redisDb res" where
  "setExpire db key when_ms =
     assertr (map_of (ddict db) key \<noteq> None)
       (Inr (db\<lparr>expires := AList.update key when_ms (expires db)\<rparr>))"

definition getExpire :: "'ps redisDb \<Rightarrow> string \<Rightarrow> int res" where
  "getExpire db key =
     (case map_of (expires db) key of
        None \<Rightarrow> Inr (- 1)
      | Some t \<Rightarrow> assertr (map_of (ddict db) key \<noteq> None) (Inr t))"

definition expireIfNeeded :: "server \<Rightarrow> 'ps redisDb \<Rightarrow> string \<Rightarrow> (bool \<times> 'ps redisDb) res" where
  "expireIfNeeded srv db key =
     bindr (getExpire db key) (\<lambda>when_ms.
       if when_ms < 0 then Inr (False, db)
       else if loading srv then Inr (False, db)
       else if has_master srv then Inr (now srv > when_ms, db)
       else if now srv \<le> when_ms then Inr (False, db)
       else Inr (if lazyfree_lazy_expire srv then dbAsyncDelete db key else dbSyncDelete db key))"

definition lookupKeyWrite :: "'ps rocks_get \<Rightarrow> server \<Rightarrow> 'ps redisDb \<Rightarrow> string \<Rightarrow> (robj option \<times> 'ps redisDb) res" where
  "lookupKeyWrite rget srv db key =
     bindr (expireIfNeeded srv db key) (\<lambda>(_, db).
       bindr (lookupKey rget db key False) (\<lambda>v. Inr (v, db)))"

definition lookupDictAndGetHashdictObj ::
  "'ps rocks_get \<Rightarrow> server \<Rightarrow> 'ps redisDb \<Rightarrow> string \<Rightarrow> (bool \<times> 'ps redisDb) res" where
  "lookupDictAndGetHashdictObj rget srv db dataKey =
     bindr (lookupKeyWrite rget srv db dataKey) (\<lambda>(hashDict, db).
       case hashDict of
         None \<Rightarrow>
           bindr (dbAdd db dataKey (createObject (HashObj createDataHashdictFordict))) (\<lambda>db. Inr (True, db))
       | Some v \<Rightarrow> (case val v of HashObj h \<Rightarrow> Inr (False, db) | _ \<Rightarrow> Inl AssertFailed))"

definition lookupDictForcheckEnqueue ::
  "'ps rocks_get \<Rightarrow> server \<Rightarrow> 'ps redisDb \<Rightarrow> string \<Rightarrow> (hash option \<times> 'ps redisDb) res" where
  "lookupDictForcheckEnqueue rget srv db dataKey =
     bindr (lookupKeyWrite rget srv db dataKey) (\<lambda>(hashDict, db).
       case hashDict of
         None \<Rightarrow> Inr (None, db)
       | Some v \<Rightarrow> (case val v of HashObj h \<Rightarrow> Inr (Some h, db) | _ \<Rightarrow> Inl AssertFailed))"

subsection \<open>Emptying databases\<close>

text \<open>
  \<open>emptyDbAsync\<close> replaces the two dictionaries and leaves the release of their entries to a
  background job.
\<close>

definition emptyDbAsync :: "'ps redisDb \<Rightarrow> 'ps redisDb" where
  "emptyDbAsync db = db\<lparr>ddict := [], expires := [], unlinked := unlinked db @ map snd (ddict db)\<rparr>"

definition empty_one :: "bool \<Rightarrow> 'ps redisDb \<Rightarrow> 'ps redisDb" where
  "empty_one async db =
     (if async then emptyDbAsync db else db\<lparr>ddict := [], expires := [], Metadict := []\<rparr>)"

definition init_queues :: "'ps redisDb \<Rightarrow> 'ps redisDb res" where
  "init_queues db =
     bindr (initializeQueue (db_heap db) (EvictQueue db)) (\<lambda>q.
       bindr (initializeQueue (db_heap db) (FreeQueue db)) (\<lambda>f.
         Inr (db\<lparr>EvictQueue := q, FreeQueue := f\<rparr>)))"

fun init_all :: "'ps redisDb list \<Rightarrow> 'ps redisDb list res" where
  "init_all [] = Inr []"
| "init_all (db # dbs) = bindr (init_queues db) (\<lambda>db. bindr (init_all dbs) (\<lambda>dbs. Inr (db # dbs)))"

text \<open>The number of keys removed, minus one for a bad number, and the databases.\<close>

definition emptyDb :: "int \<Rightarrow> bool \<Rightarrow> 'ps redisDb list \<Rightarrow> (int \<times> 'ps redisDb list) res" where
  "emptyDb dbnum async dbs =
     (if dbnum < - 1 \<or> dbnum \<ge> int (length dbs) then Inr (- 1, dbs)
      else
        let chosen = (\<lambda>j. dbnum = - 1 \<or> dbnum = int j);
            removed = sum_list (map (\<lambda>j. if chosen j then length (ddict (dbs ! j)) + length (Metadict (dbs ! j)) else 0)
              [0..<length dbs])
        in bindr (init_all (map (\<lambda>j. if chosen j then empty_one async (dbs ! j) else dbs ! j) [0..<length dbs]))
             (\<lambda>dbs. Inr (int removed, dbs)))"

section \<open>Well-formed databases\<close>

text \<open>
  Keys are distinct, addresses are distinct and below the next one, and only keys of the main
  dictionary have an expiry time.
\<close>

definition db_ok :: "'ps redisDb \<Rightarrow> bool" where
  "db_ok db \<longleftrightarrow> al_ok (ddict db) \<and> distinct (map fst (entries db)) \<and>
     (\<forall>a \<in> set (map fst (entries db)). a < fresh db) \<and> al_ok (expires db) \<and>
     set (map fst (expires db)) \<subseteq> set (map fst (ddict db)) \<and> al_ok (Metadict db)"

lemma al_find_split: "map_of d k = Some x \<Longrightarrow> (k, x) \<in> set d"
  by (rule map_of_SomeD)

lemma entry_heap:
  assumes "db_ok db" and "map_of (ddict db) k = Some (a, v)"
  shows "db_heap db a = Some (Some (loc v))" and "map_of (entries db) a = Some v"
proof -
  have "(a, v) \<in> set (entries db)"
    using al_find_split [OF assms(2)] by (force simp: entries_def)
  then show "map_of (entries db) a = Some v" using assms(1) by (simp add: db_ok_def)
  then show "db_heap db a = Some (Some (loc v))" by (simp add: db_heap_def)
qed

lemma map_of_map_entry:
  "map_of (map (\<lambda>(k, a, v). (k, a, if a = e then f v else v)) d) k =
     map_option (\<lambda>(a, v). (a, if a = e then f v else v)) (map_of d k)"
  by (induction d) auto

lemma put_entry_find:
  "map_of (ddict (put_entry db e f)) k = map_option (\<lambda>(a, v). (a, if a = e then f v else v)) (map_of (ddict db) k)"
  by (simp add: put_entry_def map_of_map_entry)

lemma put_entry_entries: "entries (put_entry db e f) = map (\<lambda>(a, v). (a, if a = e then f v else v)) (entries db)"
  by (auto simp: entries_def put_entry_def)

lemma put_entry_keys [simp]:
  "map fst (ddict (put_entry db e f)) = map fst (ddict db)"
  "map fst (entries (put_entry db e f)) = map fst (entries db)"
  by (auto simp: put_entry_entries) (auto simp: put_entry_def)

lemma put_entry_other [simp]:
  "fresh (put_entry db e f) = fresh db" "expires (put_entry db e f) = expires db"
  "Metadict (put_entry db e f) = Metadict db" "EvictQueue (put_entry db e f) = EvictQueue db"
  "FreeQueue (put_entry db e f) = FreeQueue db" "persistent_store (put_entry db e f) = persistent_store db"
  by (simp_all add: put_entry_def)

lemma put_entry_ok: "db_ok (put_entry db e f) \<longleftrightarrow> db_ok db"
  unfolding db_ok_def al_ok_def by simp

lemma map_of_map_value:
  "map_of (map (\<lambda>(a, v). (a, if a = e then f v else v)) xs) a = map_option (\<lambda>v. if a = e then f v else v) (map_of xs a)"
  by (induction xs) auto

lemma put_entry_heap: "map_of (entries (put_entry db e f)) a =
    map_option (\<lambda>v. if a = e then f v else v) (map_of (entries db) a)"
  unfolding put_entry_entries by (rule map_of_map_value)

lemma dbAdd_ok:
  assumes "db_ok db" and "map_of (ddict db) key = None"
  shows "dbAdd db key v = Inr (db\<lparr>ddict := ddict db @ [(key, fresh db, v)], fresh := fresh db + 1\<rparr>)"
    and "db_ok (db\<lparr>ddict := ddict db @ [(key, fresh db, v)], fresh := fresh db + 1\<rparr>)"
  using assms by (auto simp: dbAdd_def al_add_def db_ok_def al_ok_def entries_def map_of_eq_None_iff less_Suc_eq)

lemma db_ok_delete:
  assumes "db_ok db"
  shows "db_ok (db\<lparr>expires := AList.delete key (expires db), ddict := AList.delete key (ddict db)\<rparr>)"
proof -
  have sub: "set (AList.delete key (ddict db)) \<subseteq> set (ddict db)" by (auto simp: AList.delete_eq)
  have old: "distinct (map (fst \<circ> snd) (ddict db))" "distinct (map fst (unlinked db))"
    "(fst \<circ> snd) ` set (ddict db) \<inter> fst ` set (unlinked db) = {}"
    using assms by (simp_all add: db_ok_def entries_def image_comp)
  then have "distinct (map (fst \<circ> snd) (AList.delete key (ddict db)))"
    unfolding AList.delete_eq by (simp add: distinct_map_filter)
  moreover have "(fst \<circ> snd) ` set (AList.delete key (ddict db)) \<inter> fst ` set (unlinked db) = {}"
    using sub old(3) by blast
  moreover have "\<forall>a \<in> (fst \<circ> snd) ` set (AList.delete key (ddict db)). a < fresh db"
  proof
    fix a
    assume "a \<in> (fst \<circ> snd) ` set (AList.delete key (ddict db))"
    then have "a \<in> set (map fst (entries db))" using sub by (auto simp: entries_def image_iff)
    then show "a < fresh db" using assms unfolding db_ok_def by blast
  qed
  moreover have "set (map fst (AList.delete key (expires db))) \<subseteq> set (map fst (AList.delete key (ddict db)))"
    using assms unfolding delete_keys db_ok_def by auto
  ultimately show ?thesis
    using assms old(2) by (auto simp: db_ok_def entries_def al_delete_ok image_comp)
qed

lemma dbAsyncDelete_eq: "dbAsyncDelete db key = dbSyncDelete db key"
  by (simp add: dbAsyncDelete_def dbSyncDelete_def)

lemma dbSyncDelete_eq:
  "dbSyncDelete db key = (map_of (ddict db) key \<noteq> None,
      db\<lparr>expires := AList.delete key (expires db), ddict := AList.delete key (ddict db)\<rparr>)"
  by (simp add: dbSyncDelete_def al_delete_def)

definition expired :: "server \<Rightarrow> 'ps redisDb \<Rightarrow> string \<Rightarrow> bool" where
  "expired srv db key \<longleftrightarrow> (case map_of (expires db) key of None \<Rightarrow> False | Some t \<Rightarrow> 0 \<le> t \<and> t < now srv)"


text \<open>A small database for the witnesses: one row group that waits in the eviction queue.\<close>

definition one_entry_queue :: "nat cqueue" where
  "one_entry_queue = \<lparr>rear = 0, front = 1, qmax = 4, key_offset = 0, qsize = 1,
     buf = [Dat (Some 0), Raw, Raw, Raw]\<rparr>"

definition sample_db :: "(string \<times> string) list redisDb" where
  "sample_db = \<lparr>ddict = [(''D:{1:0}:G:1'', 0, createObject (HashObj createDataHashdictFordict))], fresh = 1,
     unlinked = [], expires = [(''D:{1:0}:G:1'', 50)], Metadict = [], EvictQueue = one_entry_queue,
     FreeQueue = createArrayQueue 4, persistent_store = [(''k'', ''v'')]\<rparr>"

definition sample_server :: server where
  "sample_server = \<lparr>now = 100, loading = False, has_master = False, lazyfree_lazy_expire = False, rowgroup_size = 4,
     columnvector_size = 2, batch_tiering_size = 4, hash_max_ziplist_entries = 2\<rparr>"

lemma sample_db_ok: "db_ok sample_db"
  by (simp add: sample_db_def db_ok_def al_ok_def entries_def)


text \<open>
  A lookup that asks for the persistent store as well never returns a value that is only
  there: the branch that would build the object from the text of the store is not reached.
\<close>

theorem lookupKey_all_ignores_store:
  assumes "lookupKey rget db key True = Inr r"
  shows "r = map_option snd (map_of (ddict db) key)"
  using assms by (auto simp: lookupKey_def split: option.splits)

theorem lookupKey_all_ignores_store_witness:
  "map_of (persistent_store sample_db) ''k'' = Some ''v'' \<and>
   (\<exists>r. lookupKey (\<lambda>s k. Some (map_of s k)) sample_db ''k'' True = Inr r \<and> r = None)"
proof -
  have "lookupKey (\<lambda>s k. Some (map_of s k)) sample_db ''k'' True = Inr None"
    by (simp add: lookupKey_def sample_db_def)
  from this lookupKey_all_ignores_store [OF this] show ?thesis by (simp add: sample_db_def)
qed

text \<open>
  Emptying a database synchronously while an entry waits in its eviction queue reads the
  released entry: the dictionaries are emptied first, and taking the entries out of the queue
  then looks at their values.
\<close>

theorem emptyDb_reads_released:
  assumes "qok (EvictQueue db) (x # xs)" and "rear (EvictQueue db) \<le> front (EvictQueue db)"
    and "unlinked db = []"
  shows "emptyDb 0 False [db] = Inl UseAfterFree"
proof -
  let ?q = "EvictQueue db"
  have h: "db_heap (empty_one False db) = (\<lambda>_. None)"
    using assms(3) by (simp add: db_heap_def entries_def empty_one_def fun_eq_iff)
  have "forceDequeue (\<lambda>_. None) ?q = Inl UseAfterFree"
    using unlink_holds [OF assms(1)] by (auto simp: forceDequeue_def entry_val_def)
  then have "initializeQueue (\<lambda>_. None) ?q = Inl UseAfterFree"
    using assms(2) by (simp add: initializeQueue_def Suc_diff_le)
  then have "init_queues (empty_one False db) = Inl UseAfterFree"
    unfolding init_queues_def h by (simp add: empty_one_def)
  then show ?thesis by (simp add: emptyDb_def)
qed

theorem emptyDb_reads_released_witness: "emptyDb 0 False [sample_db] = Inl UseAfterFree"
proof -
  have "qok (EvictQueue sample_db) [0]"
    by (simp add: sample_db_def one_entry_queue_def qok_def qholds_def)
  then show ?thesis
    by (intro emptyDb_reads_released [of sample_db 0 "[]"]) (simp_all add: sample_db_def one_entry_queue_def)
qed

end
