(* ===== verification/RelKey.thy ===== *)
theory RelKey
  imports Util Vec
begin

text \<open>
  The keys of the relational model (\<open>src/src/addb_relational.c\<close>, \<open>addb_relational.h\<close>,
  \<open>global.h\<close>): the data key of a row group, the meta key of a partition, the row and column
  field, and the key of a column vector in the persistent store. Parsing a generated key gives
  back its parts, and different parts give different keys.
\<close>

section \<open>Definitions\<close>

abbreviation (input) MAX_TMPBUF_SIZE :: nat where "MAX_TMPBUF_SIZE \<equiv> 128"
abbreviation (input) DATA_KEY_MAX_SIZE :: nat where "DATA_KEY_MAX_SIZE \<equiv> 256"
abbreviation (input) PARTITION_KEY_MAX_SIZE :: nat where "PARTITION_KEY_MAX_SIZE \<equiv> 256"

text \<open>
  The union of partition text and partition numbers with its tag: \<open>isPartitionString\<close> is the
  constructor, \<open>partitionCnt\<close> the length of the list.
\<close>

datatype partition = PartitionString string | PartitionInt "nat list"

record data_key_info =
  tableId :: int
  rowGroupId :: int
  row_number :: int
  partitionInfo :: partition

record meta_key_info =
  mtableId :: int
  mpartition :: string

text \<open>\<open>server.columnvector_size\<close> is the argument \<open>cv\<close>; row ids are \<open>size_t\<close> and start at 1.\<close>

definition getColumnVectorId :: "nat \<Rightarrow> nat \<Rightarrow> int res" where
  "getColumnVectorId cv rowId =
     (if cv = 0 then Inl DivByZero else Inr (c_int (int (size_dec rowId div cv + 1))))"

definition getColumnVectorIndex :: "nat \<Rightarrow> nat \<Rightarrow> nat res" where
  "getColumnVectorIndex cv rowId = (if cv = 0 then Inl DivByZero else Inr (size_dec rowId mod cv))"

text \<open>
  Parsing of a data key. The text is copied to a buffer of 128 bytes after the assertions on its
  size; nothing is the error return.
\<close>

definition copy_key :: "string \<Rightarrow> 'a res \<Rightarrow> 'a res" where
  "copy_key s r = (if cstr s = s \<and> length s + 1 < MAX_TMPBUF_SIZE then r else Inl AssertFailed)"

definition parsingDataKeyInfo :: "string option \<Rightarrow> data_key_info option res" where
  "parsingDataKeyInfo dataKeyString =
     (case dataKeyString of
        None \<Rightarrow> Inl AssertFailed
      | Some str \<Rightarrow>
          copy_key str
            (case strtok_r '':'' str of
               (None, _) \<Rightarrow> Inr None
             | (Some token, s) \<Rightarrow>
                 let s = (if strcaseeq token ''I'' then snd (strtok_r '':'' s) else s)
                 in case strtok_r '':'' s of
                      (None, _) \<Rightarrow> Inr None
                    | (Some token, s) \<Rightarrow>
                        let table = atoi (drop 1 token)
                        in case strtok_r ''}'' s of
                             (None, _) \<Rightarrow> Inr None
                           | (Some part, s) \<Rightarrow>
                               assertr (length part + 1 \<le> PARTITION_KEY_MAX_SIZE)
                                 (let rg = (case strtok_r ''G:'' s of
                                              (None, _) \<Rightarrow> 0
                                            | (Some token, _) \<Rightarrow> atoi token)
                                  in Inr (Some \<lparr>tableId = table, rowGroupId = rg, row_number = 0,
                                                partitionInfo = PartitionString part\<rparr>))))"

definition parseMetaKeyInfo :: "string option \<Rightarrow> meta_key_info option res" where
  "parseMetaKeyInfo metakey =
     (case metakey of
        None \<Rightarrow> Inl AssertFailed
      | Some str \<Rightarrow>
          copy_key str
            (case strtok_r '':'' str of
               (None, _) \<Rightarrow> Inr None
             | (Some token, s) \<Rightarrow>
                 if token \<noteq> ''M'' then Inr None
                 else
                   case strtok_r '':'' s of
                     (None, _) \<Rightarrow> Inr None
                   | (Some token, s) \<Rightarrow>
                       let table = atoi (drop 1 token)
                       in case strtok_r ''}'' s of
                            (None, _) \<Rightarrow> Inr None
                          | (Some part, _) \<Rightarrow>
                              assertr (length part + 1 \<le> PARTITION_KEY_MAX_SIZE)
                                (Inr (Some \<lparr>mtableId = table, mpartition = part\<rparr>))))"

text \<open>The bytes of the union read as text: the numbers were never written as text.\<close>

definition partition_text :: "partition \<Rightarrow> string" where
  "partition_text p = (case p of PartitionString s \<Rightarrow> s | PartitionInt _ \<Rightarrow> [])"

definition toMetaKey :: "string option \<Rightarrow> (string \<times> int) option res" where
  "toMetaKey dataKey =
     bindr (parsingDataKeyInfo dataKey) (\<lambda>r.
       case r of
         None \<Rightarrow> Inr None
       | Some info \<Rightarrow>
           Inr (Some (''M'' @ '':'' @ ''{'' @ print_int (tableId info) @ '':'' @
                      partition_text (partitionInfo info) @ ''}'', rowGroupId info)))"

text \<open>
  \<open>sprintf\<close> to a place in a buffer, and the text a buffer holds. The buffers are on the stack:
  what they hold before the first write is the argument \<open>b\<close>.
\<close>

definition sprintf_at :: "string \<Rightarrow> nat \<Rightarrow> string \<Rightarrow> string res" where
  "sprintf_at b p s =
     (if p + length s < length b then Inr (take p b @ s @ NUL # drop (p + length s + 1) b)
      else Inl OutOfBounds)"

definition sprintf_buf :: "string \<Rightarrow> string res" where
  "sprintf_buf s = (if length s < DATA_KEY_MAX_SIZE then Inr s else Inl OutOfBounds)"

text \<open>
  The branch for partition numbers: the table id and the numbers are printed one after the other
  and the place of the next write is advanced by \<open>digits10\<close>, which reads a negative table id
  as a number of 64 bits.
\<close>

fun write_parts :: "string \<Rightarrow> nat \<Rightarrow> nat list \<Rightarrow> (string \<times> nat) res" where
  "write_parts b p [] = Inr (b, p)"
| "write_parts b p (n # ns) =
     bindr (sprintf_at b p ('':'' @ print_nat n)) (\<lambda>b. write_parts b (p + digits10 n + 1) ns)"

definition partition_int_key :: "string \<Rightarrow> string \<Rightarrow> int \<Rightarrow> nat list \<Rightarrow> string \<Rightarrow> string res" where
  "partition_int_key b prefix table parts suffix =
     bindr (sprintf_at b 0 (prefix @ '':{'' @ print_int table)) (\<lambda>b.
       bindr (write_parts b (1 + 2 + digits10 (nat (table mod 2 ^ 64))) parts) (\<lambda>(b, p).
         bindr (sprintf_at b p suffix) (\<lambda>b. Inr (cstr b))))"

definition data_key_with :: "string \<Rightarrow> data_key_info \<Rightarrow> int \<Rightarrow> string res" where
  "data_key_with b info rg =
     (case partitionInfo info of
        PartitionString s \<Rightarrow>
          sprintf_buf (''D'' @ '':{'' @ print_int (tableId info) @ '':'' @ s @ ''}:'' @ ''G:'' @ print_int rg)
      | PartitionInt ps \<Rightarrow>
          partition_int_key b ''D'' (tableId info) ps (''}:'' @ ''G:'' @ print_int rg))"

definition generateDataKeySds :: "string \<Rightarrow> data_key_info \<Rightarrow> string res" where
  "generateDataKeySds b info = data_key_with b info (rowGroupId info)"

definition generateDataKey :: "string \<Rightarrow> data_key_info \<Rightarrow> string res" where
  "generateDataKey b info = generateDataKeySds b info"

definition generateDataKeyForFirstEntry :: "string \<Rightarrow> data_key_info \<Rightarrow> string res" where
  "generateDataKeyForFirstEntry b info = data_key_with b info 1"

definition generatePrevDataKey :: "string \<Rightarrow> data_key_info \<Rightarrow> string res" where
  "generatePrevDataKey b info = data_key_with b info (c_int (rowGroupId info - 1))"

definition generateRgIdKeyForRowgroup :: "string \<Rightarrow> data_key_info \<Rightarrow> string res" where
  "generateRgIdKeyForRowgroup b info =
     (case partitionInfo info of
        PartitionString s \<Rightarrow> sprintf_buf (''M'' @ '':{'' @ print_int (tableId info) @ '':'' @ s @ ''}'')
      | PartitionInt ps \<Rightarrow> partition_int_key b ''M'' (tableId info) ps ''}'')"

definition getDataFieldSds :: "int \<Rightarrow> int \<Rightarrow> string" where
  "getDataFieldSds rowId columnId = print_int rowId @ '':'' @ print_int columnId"

definition getDataField :: "int \<Rightarrow> int \<Rightarrow> string" where
  "getDataField row column = print_int row @ '':'' @ print_int column"

definition generateDataRocksKeySds :: "string \<Rightarrow> data_key_info \<Rightarrow> int \<Rightarrow> int \<Rightarrow> string res" where
  "generateDataRocksKeySds b info rowId columnId =
     bindr (generateDataKeySds b info) (\<lambda>dataKey.
       sprintf_buf (dataKey @ '':'' @ ''F:'' @ getDataFieldSds rowId columnId))"

definition generateDataRocksKey :: "string \<Rightarrow> data_key_info \<Rightarrow> int \<Rightarrow> int \<Rightarrow> string res" where
  "generateDataRocksKey b info rowId columnId = generateDataRocksKeySds b info rowId columnId"

text \<open>
  \<open>setMetaKeyForRowgroup\<close> turns partition numbers into text in place, then writes the meta key.
\<close>

definition setMetaKeyForRowgroup :: "data_key_info \<Rightarrow> (string \<times> data_key_info) res" where
  "setMetaKeyForRowgroup info =
     bindr (case partitionInfo info of
              PartitionString s \<Rightarrow> Inr info
            | PartitionInt ps \<Rightarrow>
                let s = join '':'' (map print_nat ps)
                in assertr (length s + 1 \<le> PARTITION_KEY_MAX_SIZE)
                     (Inr (info\<lparr>partitionInfo := PartitionString s\<rparr>))) (\<lambda>info.
       let key = ''M'' @ '':{'' @ print_int (tableId info) @ '':'' @
                 partition_text (partitionInfo info) @ ''}''
       in assertr (length key < DATA_KEY_MAX_SIZE) (Inr (key, info)))"

section \<open>The texts of the keys\<close>

definition data_key_text :: "int \<Rightarrow> string \<Rightarrow> int \<Rightarrow> string" where
  "data_key_text table part rg = ''D:{'' @ print_int table @ '':'' @ part @ ''}:G:'' @ print_int rg"

definition meta_key_text :: "int \<Rightarrow> string \<Rightarrow> string" where
  "meta_key_text table part = ''M:{'' @ print_int table @ '':'' @ part @ ''}''"

text \<open>A partition text that a key can carry.\<close>

definition part_ok :: "string \<Rightarrow> bool" where
  "part_ok p \<longleftrightarrow> p \<noteq> [] \<and> CHR ''}'' \<notin> set p \<and> NUL \<notin> set p"

lemma print_int_excludes:
  "CHR '':'' \<notin> set (print_int n)" "CHR ''}'' \<notin> set (print_int n)" "CHR ''{'' \<notin> set (print_int n)"
  "CHR ''G'' \<notin> set (print_int n)" "NUL \<notin> set (print_int n)" "CHR ''F'' \<notin> set (print_int n)"
  by (auto dest!: print_int_chars simp: is_digit_def)

lemma cstr_id: "NUL \<notin> set s \<Longrightarrow> cstr s = s"
  unfolding cstr_def by (intro takeWhile_all) metis

text \<open>The parse of the two first fields, common to data and meta keys.\<close>

lemma table_token:
  "strtok_r '':'' (''{'' @ print_int table @ '':'' @ r) = (Some (''{'' @ print_int table), r)"
  using strtok_r_token [of "''{'' @ print_int table" "'':''" "[]" "CHR '':''" r] print_int_excludes [of table]
  by auto

lemma partition_token: "part_ok p \<Longrightarrow> strtok_r ''}'' (p @ ''}'' @ r) = (Some p, r)"
  using strtok_r_token [of p "''}''" "[]" "CHR ''}''" r] by (auto simp: part_ok_def)

lemma rowgroup_token: "strtok_r ''G:'' ('':G:'' @ print_int rg) = (Some (print_int rg), [])"
  using strtok_r_last [of "print_int rg" "''G:''" "'':G:''"] print_int_excludes [of rg] by auto

lemma parsing_data_key:
  assumes "is_int table" and "is_int rg" and "part_ok p" and "length (data_key_text table p rg) + 1 < MAX_TMPBUF_SIZE"
  shows "parsingDataKeyInfo (Some (data_key_text table p rg)) =
    Inr (Some \<lparr>tableId = table, rowGroupId = rg, row_number = 0, partitionInfo = PartitionString p\<rparr>)"
proof -
  have n: "cstr (data_key_text table p rg) = data_key_text table p rg"
    using print_int_excludes assms(3) by (intro cstr_id) (auto simp: data_key_text_def part_ok_def)
  have 1: "strtok_r '':'' (data_key_text table p rg) =
      (Some ''D'', ''{'' @ print_int table @ '':'' @ p @ ''}'' @ '':G:'' @ print_int rg)"
    using strtok_r_token [of "''D''" "'':''" "[]" "CHR '':''"] by (simp add: data_key_text_def)
  have 2: "\<not> strcaseeq ''D'' ''I''" by code_simp
  have l: "length p + 1 \<le> PARTITION_KEY_MAX_SIZE" using assms(4) by (simp add: data_key_text_def)
  show ?thesis
    using assms(1,2) l assms(4)
    unfolding parsingDataKeyInfo_def copy_key_def n option.case
    by (simp add: 1 2 table_token [simplified] partition_token [OF assms(3), simplified]
        rowgroup_token [simplified])
qed

lemma parse_meta_key:
  assumes "is_int table" and "part_ok p" and "length (meta_key_text table p) + 1 < MAX_TMPBUF_SIZE"
  shows "parseMetaKeyInfo (Some (meta_key_text table p)) = Inr (Some \<lparr>mtableId = table, mpartition = p\<rparr>)"
proof -
  have n: "cstr (meta_key_text table p) = meta_key_text table p"
    using print_int_excludes assms(2) by (intro cstr_id) (auto simp: meta_key_text_def part_ok_def)
  have 1: "strtok_r '':'' (meta_key_text table p) =
      (Some ''M'', ''{'' @ print_int table @ '':'' @ p @ ''}'' @ [])"
    using strtok_r_token [of "''M''" "'':''" "[]" "CHR '':''"] by (simp add: meta_key_text_def)
  have l: "length p + 1 \<le> PARTITION_KEY_MAX_SIZE" using assms(3) by (simp add: meta_key_text_def)
  show ?thesis
    using assms(1) l assms(3)
    unfolding parseMetaKeyInfo_def copy_key_def n option.case
    by (simp add: 1 table_token [simplified] partition_token [OF assms(2), where r = "[]", simplified])
qed

section \<open>What the generators write\<close>

lemma sprintf_at_ok:
  assumes "p + length s < length b"
  shows "\<exists>b'. sprintf_at b p s = Inr b' \<and> take (p + length s) b' = take p b @ s \<and>
    b' ! (p + length s) = NUL \<and> length b' = length b"
  using assms by (simp add: sprintf_at_def nth_append)

text \<open>The text of partition numbers: a colon before each, or colons between them.\<close>

lemma colon_join: "ns \<noteq> [] \<Longrightarrow> concat (map (\<lambda>n. CHR '':'' # print_nat n) ns) = '':'' @ join '':'' (map print_nat ns)"
proof (induction ns)
  case (Cons n ns)
  then show ?case by (cases "ns = []") (auto simp: join_Cons)
qed simp

lemma write_parts_text:
  assumes "p + length (concat (map (\<lambda>n. CHR '':'' # print_nat n) ns)) < length b"
  shows "\<exists>b'. write_parts b p ns = Inr (b', p + length (concat (map (\<lambda>n. CHR '':'' # print_nat n) ns))) \<and>
    take (p + length (concat (map (\<lambda>n. CHR '':'' # print_nat n) ns))) b' =
      take p b @ concat (map (\<lambda>n. CHR '':'' # print_nat n) ns) \<and>
    length b' = length b"
  using assms
proof (induction ns arbitrary: b p)
  case (Cons n ns)
  let ?s = "'':'' @ print_nat n"
  obtain b1 where b1: "sprintf_at b p ?s = Inr b1" "take (p + length ?s) b1 = take p b @ ?s"
    "length b1 = length b" using sprintf_at_ok [of p ?s b] Cons.prems by auto
  have p: "p + digits10 n + 1 = p + length ?s" by (simp add: digits10_length)
  have "p + length ?s + length (concat (map (\<lambda>n. CHR '':'' # print_nat n) ns)) < length b1"
    using Cons.prems b1(3) by simp
  from Cons.IH [OF this] b1 show ?case unfolding write_parts.simps p by (auto simp: add_ac)
qed simp

lemma cstr_stop: "NUL \<notin> set s \<Longrightarrow> cstr (s @ NUL # r) = s"
  unfolding cstr_def by (intro takeWhile_append_stop) auto

lemma nul_print_nat: "NUL \<notin> set (print_nat n)"
  using print_int_excludes(5) [of "int n"] by (simp add: print_int_def)

lemma partition_int_key_text:
  assumes "0 \<le> table" and "table \<le> INT_MAX" and "ns \<noteq> []" and "length prefix = 1"
    and "NUL \<notin> set (prefix @ suffix)"
    and "length (prefix @ '':{'' @ print_int table @ '':'' @ join '':'' (map print_nat ns) @ suffix) < length b"
  shows "partition_int_key b prefix table ns suffix =
    Inr (prefix @ '':{'' @ print_int table @ '':'' @ join '':'' (map print_nat ns) @ suffix)"
proof -
  let ?a = "prefix @ '':{'' @ print_int table" and ?c = "concat (map (\<lambda>n. CHR '':'' # print_nat n) ns)"
  have c: "?c = '':'' @ join '':'' (map print_nat ns)" by (rule colon_join [OF assms(3)])
  have len: "length (?a @ ?c @ suffix) < length b" using assms(6) unfolding c by simp
  obtain b1 where b1: "sprintf_at b 0 ?a = Inr b1" "take (length ?a) b1 = ?a" "length b1 = length b"
    using sprintf_at_ok [of 0 ?a b] len by auto
  have "nat (table mod 2 ^ 64) = nat table" using assms(1,2) by simp
  then have p: "1 + 2 + digits10 (nat (table mod 2 ^ 64)) = length ?a"
    using assms(1,4) by (simp add: digits10_length print_int_def)
  obtain b2 where b2: "write_parts b1 (length ?a) ns = Inr (b2, length ?a + length ?c)"
    "take (length ?a + length ?c) b2 = ?a @ ?c" "length b2 = length b"
    using write_parts_text [of "length ?a" ns b1] b1 len by auto
  obtain b3 where b3: "sprintf_at b2 (length ?a + length ?c) suffix = Inr b3"
    "take (length ?a + length ?c + length suffix) b3 = ?a @ ?c @ suffix"
    "b3 ! (length ?a + length ?c + length suffix) = NUL" "length b3 = length b"
    using sprintf_at_ok [of "length ?a + length ?c" suffix b2] b2 len by auto
  have nul: "NUL \<notin> set (?a @ ?c @ suffix)"
    using assms(5) print_int_excludes(5) nul_print_nat by auto
  have e: "b3 = (?a @ ?c @ suffix) @ NUL # drop (Suc (length (?a @ ?c @ suffix))) b3"
    using b3(2-4) len id_take_nth_drop [of "length (?a @ ?c @ suffix)" b3] by (simp add: add_ac)
  have "cstr b3 = ?a @ ?c @ suffix" by (subst e) (rule cstr_stop [OF nul])
  then show ?thesis
    unfolding partition_int_key_def b1(1) bindr_Inr p b2(1) split b3(1) using c by simp
qed

text \<open>The partition as text, whatever its representation.\<close>

definition part_str :: "partition \<Rightarrow> string" where
  "part_str p = (case p of PartitionString s \<Rightarrow> s | PartitionInt ns \<Rightarrow> join '':'' (map print_nat ns))"

text \<open>A key description the generators handle: the table id is not negative for numbers.\<close>

definition info_ok :: "data_key_info \<Rightarrow> bool" where
  "info_ok info \<longleftrightarrow> is_int (tableId info) \<and> is_int (rowGroupId info) \<and>
     (case partitionInfo info of
        PartitionString s \<Rightarrow> part_ok s
      | PartitionInt ns \<Rightarrow> ns \<noteq> [] \<and> 0 \<le> tableId info)"

lemma join_nats_ok: "ns \<noteq> [] \<Longrightarrow> part_ok (join '':'' (map print_nat ns))"
proof -
  assume ns: "ns \<noteq> []"
  have "\<forall>c \<in> set (join '':'' (map print_nat ns)). is_digit c \<or> c = CHR '':''"
    using print_nat_digits by (induction ns) (auto simp: join_Cons split: if_splits)
  moreover have "join '':'' (map print_nat ns) \<noteq> []" using ns by (cases ns) (auto simp: join_Cons)
  ultimately show ?thesis by (auto simp: part_ok_def is_digit_def)
qed

lemma info_part_ok: "info_ok info \<Longrightarrow> part_ok (part_str (partitionInfo info))"
  by (auto simp: info_ok_def part_str_def join_nats_ok split: partition.splits)

lemma data_key_with_text:
  assumes "info_ok info" and "length b = DATA_KEY_MAX_SIZE"
    and "length (data_key_text (tableId info) (part_str (partitionInfo info)) rg) < DATA_KEY_MAX_SIZE"
  shows "data_key_with b info rg = Inr (data_key_text (tableId info) (part_str (partitionInfo info)) rg)"
proof (cases "partitionInfo info")
  case (PartitionString s)
  with assms(3) show ?thesis by (simp add: data_key_with_def sprintf_buf_def data_key_text_def part_str_def)
next
  case (PartitionInt ns)
  then have "0 \<le> tableId info" "tableId info \<le> INT_MAX" "ns \<noteq> []"
    using assms(1) by (auto simp: info_ok_def is_int_def)
  from partition_int_key_text [OF this, of "''D''" "''}:'' @ ''G:'' @ print_int rg" b] PartitionInt assms(2,3)
  show ?thesis using print_int_excludes by (simp add: data_key_with_def data_key_text_def part_str_def)
qed

lemma rg_key_text:
  assumes "info_ok info" and "length b = DATA_KEY_MAX_SIZE"
    and "length (meta_key_text (tableId info) (part_str (partitionInfo info))) < DATA_KEY_MAX_SIZE"
  shows "generateRgIdKeyForRowgroup b info = Inr (meta_key_text (tableId info) (part_str (partitionInfo info)))"
proof (cases "partitionInfo info")
  case (PartitionString s)
  with assms(3) show ?thesis
    by (simp add: generateRgIdKeyForRowgroup_def sprintf_buf_def meta_key_text_def part_str_def)
next
  case (PartitionInt ns)
  then have "0 \<le> tableId info" "tableId info \<le> INT_MAX" "ns \<noteq> []"
    using assms(1) by (auto simp: info_ok_def is_int_def)
  from partition_int_key_text [OF this, of "''M''" "''}''" b] PartitionInt assms(2,3)
  show ?thesis by (simp add: generateRgIdKeyForRowgroup_def meta_key_text_def part_str_def)
qed

section \<open>Properties\<close>

text \<open>
  C16. A generated data key parses back to the table, partition and row group it was made of,
  whether the partition is kept as text or as numbers, and converts to the meta key of its
  partition.
\<close>

theorem data_key_roundtrip:
  assumes "info_ok info" and "length b = DATA_KEY_MAX_SIZE"
    and "length (data_key_text (tableId info) (part_str (partitionInfo info)) (rowGroupId info)) + 1
           < MAX_TMPBUF_SIZE"
  shows "\<exists>key meta. generateDataKeySds b info = Inr key \<and> generateRgIdKeyForRowgroup b info = Inr meta \<and>
    parsingDataKeyInfo (Some key) =
      Inr (Some \<lparr>tableId = tableId info, rowGroupId = rowGroupId info, row_number = 0,
                 partitionInfo = PartitionString (part_str (partitionInfo info))\<rparr>) \<and>
    toMetaKey (Some key) = Inr (Some (meta, rowGroupId info))"
proof -
  let ?p = "part_str (partitionInfo info)" and ?t = "tableId info" and ?g = "rowGroupId info"
  have k: "generateDataKeySds b info = Inr (data_key_text ?t ?p ?g)"
    unfolding generateDataKeySds_def using data_key_with_text [OF assms(1,2)] assms(3) by simp
  have "length (meta_key_text ?t ?p) < DATA_KEY_MAX_SIZE"
    using assms(3) by (simp add: meta_key_text_def data_key_text_def)
  then have m: "generateRgIdKeyForRowgroup b info = Inr (meta_key_text ?t ?p)"
    using rg_key_text [OF assms(1,2)] by simp
  have i: "is_int ?t" "is_int ?g" using assms(1) by (simp_all add: info_ok_def)
  note parsing_data_key [OF i info_part_ok [OF assms(1)] assms(3)]
  then show ?thesis using k m by (simp add: toMetaKey_def meta_key_text_def partition_text_def)
qed

definition sample_info :: data_key_info where
  "sample_info = \<lparr>tableId = 100, rowGroupId = 7, row_number = 0, partitionInfo = PartitionInt [1, 25]\<rparr>"

theorem data_key_roundtrip_witness:
  "generateDataKeySds (replicate DATA_KEY_MAX_SIZE NUL) sample_info = Inr ''D:{100:1:25}:G:7'' \<and>
   toMetaKey (Some ''D:{100:1:25}:G:7'') = Inr (Some (''M:{100:1:25}'', 7))"
proof -
  have l: "data_key_text (tableId sample_info) (part_str (partitionInfo sample_info)) (rowGroupId sample_info) =
      ''D:{100:1:25}:G:7''" "meta_key_text (tableId sample_info) (part_str (partitionInfo sample_info)) = ''M:{100:1:25}''"
    by code_simp+
  have ok: "info_ok sample_info" by (simp add: info_ok_def sample_info_def is_int_def)
  have "generateDataKeySds (replicate DATA_KEY_MAX_SIZE NUL) sample_info = Inr ''D:{100:1:25}:G:7''"
    "generateRgIdKeyForRowgroup (replicate DATA_KEY_MAX_SIZE NUL) sample_info = Inr ''M:{100:1:25}''"
    unfolding generateDataKeySds_def
    using data_key_with_text [OF ok, of "replicate DATA_KEY_MAX_SIZE NUL" "rowGroupId sample_info"]
      rg_key_text [OF ok, of "replicate DATA_KEY_MAX_SIZE NUL"] unfolding l by simp_all
  then show ?thesis
    using data_key_roundtrip [OF ok, of "replicate DATA_KEY_MAX_SIZE NUL"] l by (auto simp: sample_info_def)
qed

text \<open>
  The two ways to the meta key of a partition agree: \<open>setMetaKeyForRowgroup\<close> and
  \<open>generateRgIdKeyForRowgroup\<close> give the same text, which parses back to table and partition;
  the former leaves a description of the same partition as text.
\<close>

theorem meta_key_agreement:
  assumes "info_ok info" and "length b = DATA_KEY_MAX_SIZE"
    and "length (meta_key_text (tableId info) (part_str (partitionInfo info))) + 1 < MAX_TMPBUF_SIZE"
  shows "\<exists>key. setMetaKeyForRowgroup info =
      Inr (key, info\<lparr>partitionInfo := PartitionString (part_str (partitionInfo info))\<rparr>) \<and>
    generateRgIdKeyForRowgroup b info = Inr key \<and>
    parseMetaKeyInfo (Some key) =
      Inr (Some \<lparr>mtableId = tableId info, mpartition = part_str (partitionInfo info)\<rparr>)"
proof -
  let ?p = "part_str (partitionInfo info)" and ?t = "tableId info"
  have "is_int ?t" using assms(1) by (simp add: info_ok_def)
  note p = parse_meta_key [OF this info_part_ok [OF assms(1)] assms(3)]
  have g: "generateRgIdKeyForRowgroup b info = Inr (meta_key_text ?t ?p)"
    using rg_key_text [OF assms(1,2)] assms(3) by simp
  have "setMetaKeyForRowgroup info = Inr (meta_key_text ?t ?p, info\<lparr>partitionInfo := PartitionString ?p\<rparr>)"
    using assms(3)
    by (cases "partitionInfo info")
      (auto simp: setMetaKeyForRowgroup_def meta_key_text_def part_str_def partition_text_def Let_def)
  with p g show ?thesis by blast
qed

theorem meta_key_agreement_witness:
  "\<exists>key. setMetaKeyForRowgroup sample_info =
       Inr (key, sample_info\<lparr>partitionInfo := PartitionString ''1:25''\<rparr>) \<and>
     parseMetaKeyInfo (Some key) = Inr (Some \<lparr>mtableId = 100, mpartition = ''1:25''\<rparr>)"
proof -
  have l: "meta_key_text (tableId sample_info) (part_str (partitionInfo sample_info)) = ''M:{100:1:25}''"
    "part_str (partitionInfo sample_info) = ''1:25''" "tableId sample_info = 100" by code_simp+
  have ok: "info_ok sample_info" by (simp add: info_ok_def sample_info_def is_int_def)
  show ?thesis
    using meta_key_agreement [OF ok, of "replicate DATA_KEY_MAX_SIZE NUL", unfolded l(1)] unfolding l(2,3)
    by auto
qed

lemma key_parts_unique:
  assumes "part_ok p" and "part_ok q"
    and "''D:{'' @ print_int t @ '':'' @ p @ ''}:G:'' @ r = ''D:{'' @ print_int u @ '':'' @ q @ ''}:G:'' @ s"
  shows "t = u \<and> p = q \<and> r = s"
proof -
  have 1: "print_int t = print_int u \<and> p @ ''}:G:'' @ r = q @ ''}:G:'' @ s"
    using assms(3) print_int_excludes(1) [of t] print_int_excludes(1) [of u]
    by (intro split_at_unique [where c = "CHR '':''"]) simp_all
  then have "p = q \<and> '':G:'' @ r = '':G:'' @ s"
    using assms(1,2) by (intro split_at_unique [where c = "CHR ''}''"]) (simp_all add: part_ok_def)
  with 1 show ?thesis by simp
qed

text \<open>
  C17. The keys of the persistent store do not collide: two column vectors with the same key are
  the same column vector of the same column of the same row group.
\<close>

theorem rocks_key_injective:
  assumes "info_ok i" and "info_ok j" and "length b = DATA_KEY_MAX_SIZE" and "length b' = DATA_KEY_MAX_SIZE"
    and "length (data_key_text (tableId i) (part_str (partitionInfo i)) (rowGroupId i)) < DATA_KEY_MAX_SIZE"
    and "length (data_key_text (tableId j) (part_str (partitionInfo j)) (rowGroupId j)) < DATA_KEY_MAX_SIZE"
    and "generateDataRocksKeySds b i row col = Inr key" and "generateDataRocksKeySds b' j row' col' = Inr key"
  shows "tableId i = tableId j \<and> part_str (partitionInfo i) = part_str (partitionInfo j) \<and>
    rowGroupId i = rowGroupId j \<and> row = row' \<and> col = col'"
proof -
  let ?k = "\<lambda>i r c. data_key_text (tableId i) (part_str (partitionInfo i)) (rowGroupId i) @ '':F:'' @
    print_int r @ '':'' @ print_int c"
  have "key = ?k i row col" "key = ?k j row' col'"
    using assms(7,8) data_key_with_text [OF assms(1,3,5)] data_key_with_text [OF assms(2,4,6)]
    by (auto simp: generateDataRocksKeySds_def generateDataKeySds_def getDataFieldSds_def sprintf_buf_def
        split: if_splits)
  then have eq: "?k i row col = ?k j row' col'" by simp
  then have 1: "tableId i = tableId j \<and> part_str (partitionInfo i) = part_str (partitionInfo j) \<and>
      print_int (rowGroupId i) @ '':F:'' @ print_int row @ '':'' @ print_int col =
      print_int (rowGroupId j) @ '':F:'' @ print_int row' @ '':'' @ print_int col'"
    using info_part_ok [OF assms(1)] info_part_ok [OF assms(2)] unfolding data_key_text_def
    by (intro key_parts_unique) simp_all
  then have 2: "print_int (rowGroupId i) = print_int (rowGroupId j) \<and>
      ''F:'' @ print_int row @ '':'' @ print_int col = ''F:'' @ print_int row' @ '':'' @ print_int col'"
    using print_int_excludes(1) by (intro split_at_unique [where c = "CHR '':''"]) simp_all
  then have "print_int row = print_int row' \<and> print_int col = print_int col'"
    using print_int_excludes(1) by (intro split_at_unique [where c = "CHR '':''"]) simp_all
  with 1 2 show ?thesis by simp
qed

theorem rocks_key_injective_witness:
  "\<exists>key. generateDataRocksKeySds (replicate DATA_KEY_MAX_SIZE NUL) sample_info 1 2 = Inr key \<and>
     generateDataRocksKeySds (replicate DATA_KEY_MAX_SIZE NUL)
       (sample_info\<lparr>partitionInfo := PartitionString ''1:25''\<rparr>) 1 2 = Inr key \<and>
     part_str (PartitionInt [1, 25]) = part_str (PartitionString ''1:25'')"
proof -
  let ?i = sample_info and ?j = "sample_info\<lparr>partitionInfo := PartitionString ''1:25''\<rparr>"
  let ?b = "replicate DATA_KEY_MAX_SIZE NUL"
  have l: "data_key_text (tableId ?i) (part_str (partitionInfo ?i)) (rowGroupId ?i) = ''D:{100:1:25}:G:7''"
    "data_key_text (tableId ?j) (part_str (partitionInfo ?j)) (rowGroupId ?j) = ''D:{100:1:25}:G:7''"
    "getDataFieldSds 1 2 = ''1:2''" by code_simp+
  have ok: "info_ok ?i" "info_ok ?j" by (simp_all add: info_ok_def sample_info_def is_int_def part_ok_def)
  have k: "generateDataRocksKeySds ?b ?i 1 2 = Inr ''D:{100:1:25}:G:7:F:1:2''"
    "generateDataRocksKeySds ?b ?j 1 2 = Inr ''D:{100:1:25}:G:7:F:1:2''"
    using data_key_with_text [OF ok(1), of ?b "rowGroupId ?i"] data_key_with_text [OF ok(2), of ?b "rowGroupId ?j"]
    unfolding generateDataRocksKeySds_def generateDataKeySds_def l by (simp_all add: sprintf_buf_def)
  show ?thesis
    using rocks_key_injective [OF ok, of ?b ?b, OF _ _ _ _ k] k l by (simp add: sample_info_def)
qed

end
