(* ===== verification/Meta.thy ===== *)
theory Meta
  imports Db RelKey
begin

text \<open>
  The metadata of the relational model (\<open>src/src/addb_relational.c\<close>): for each partition a hash
  in the metadata dictionary that holds the number of row groups under the field 0 and the number
  of rows of row group \<open>g\<close> under the field \<open>g\<close>. The counters are shown to count: an increment
  changes one counter by the given amount or stops the server when the sum is not a
  \<open>long long\<close>.
\<close>

section \<open>Definitions\<close>

text \<open>The hash of an object; the functions of the hash type panic on another encoding.\<close>

definition hash_of :: "robj \<Rightarrow> hash res" where
  "hash_of v = (case val v of HashObj h \<Rightarrow> Inr h | _ \<Rightarrow> Inl ServerPanic)"

text \<open>The \<open>int\<close> that a value object stands for.\<close>

definition count_of :: "strobj \<Rightarrow> int" where
  "count_of ret = (case ret of IntObj v \<Rightarrow> c_int v | SdsObj s \<Rightarrow> atoi s)"

definition lookupCompInfoForRowNumberInMeta :: "robj option \<Rightarrow> strobj \<Rightarrow> int res" where
  "lookupCompInfoForRowNumberInMeta metaHashdictObj metaField =
     (case metaHashdictObj of
        None \<Rightarrow> Inr 0
      | Some v \<Rightarrow>
          bindr (hash_of v) (\<lambda>h.
            bindr (hashTypeGetValueObject h (getDecodedObject metaField)) (\<lambda>ret.
              case ret of None \<Rightarrow> Inr 0 | Some r \<Rightarrow> Inr (count_of r))))"

text \<open>Unlike the previous function, this one does not test whether the field was found.\<close>

definition lookupCompInfoForMeta :: "robj option \<Rightarrow> strobj \<Rightarrow> int res" where
  "lookupCompInfoForMeta metaHashdictObj metaField =
     (case metaHashdictObj of
        None \<Rightarrow> Inr 0
      | Some v \<Rightarrow>
          bindr (hash_of v) (\<lambda>h.
            bindr (hashTypeGetValueObject h (getDecodedObject metaField)) (\<lambda>ret.
              bindr (deref ret) (\<lambda>r. Inr (count_of r)))))"

text \<open>The test of the code for a sum outside \<open>long long\<close>.\<close>

definition incr_overflows :: "int \<Rightarrow> int \<Rightarrow> bool" where
  "incr_overflows oldvalue cnt \<longleftrightarrow>
     cnt < 0 \<and> oldvalue < 0 \<and> cnt < LLONG_MIN - oldvalue \<or>
     cnt > 0 \<and> oldvalue > 0 \<and> cnt > LLONG_MAX - oldvalue"

text \<open>The part of an increment that follows the search for the hash object.\<close>

definition incr_hash :: "server \<Rightarrow> hash \<Rightarrow> strobj \<Rightarrow> int \<Rightarrow> (int \<times> hash) res" where
  "incr_hash srv h field cnt =
     bindr (hashTypeGetValueRObject h field) (\<lambda>cur_obj.
       bindr (case cur_obj of
                None \<Rightarrow> Inr 0
              | Some cur \<Rightarrow>
                  (case getLongLongFromObject (Some cur) of
                     None \<Rightarrow> Inl AssertFailed
                   | Some n \<Rightarrow> Inr n)) (\<lambda>oldvalue.
         if incr_overflows oldvalue cnt then Inl AssertFailed
         else
           let new_value = oldvalue + cnt
           in bindr (hashTypeSetWithNoFlags (hash_max_ziplist_entries srv) h
                      (hashTypeTryObjectEncoding h field) (createStringObjectFromLongLong new_value)) (\<lambda>(_, h).
                Inr (c_int new_value, h))))"

definition IncDecCount :: "server \<Rightarrow> 'ps redisDb \<Rightarrow> string \<Rightarrow> strobj \<Rightarrow> int \<Rightarrow> (int \<times> 'ps redisDb) res" where
  "IncDecCount srv db key field cnt =
     bindr (case lookupKeyWriteForMetadict db key of
              None \<Rightarrow>
                (let v = createObject (HashObj createMetaHashdictFordict)
                 in bindr (dbAddForMetadict db key v) (\<lambda>db. Inr (v, db)))
            | Some v \<Rightarrow> (case val v of HashObj h \<Rightarrow> Inr (v, db) | _ \<Rightarrow> Inl AssertFailed)) (\<lambda>(v, db).
       bindr (hash_of v) (\<lambda>h.
         bindr (incr_hash srv h field cnt) (\<lambda>(n, h).
           Inr (n, db\<lparr>Metadict := AList.update key (v\<lparr>val := HashObj h\<rparr>) (Metadict db)\<rparr>))))"

text \<open>The shared object for the integer 0 is the field of the row group counter.\<close>

definition incRowgroupId :: "server \<Rightarrow> string \<Rightarrow> 'ps redisDb \<Rightarrow> data_key_info \<Rightarrow> int \<Rightarrow> (int \<times> 'ps redisDb) res" where
  "incRowgroupId srv b db info inc_number =
     bindr (generateRgIdKeyForRowgroup b info) (\<lambda>rowgroupKey.
       IncDecCount srv db rowgroupKey (IntObj 0) inc_number)"

definition IncRowgroupIdAndModifyInfo ::
  "server \<Rightarrow> string \<Rightarrow> 'ps redisDb \<Rightarrow> data_key_info \<Rightarrow> int \<Rightarrow> (int \<times> data_key_info \<times> 'ps redisDb) res" where
  "IncRowgroupIdAndModifyInfo srv b db info cnt =
     bindr (incRowgroupId srv b db info cnt) (\<lambda>(result, db).
       Inr (result, info\<lparr>rowGroupId := result\<rparr>, db))"

definition incRowNumber :: "server \<Rightarrow> string \<Rightarrow> 'ps redisDb \<Rightarrow> data_key_info \<Rightarrow> int \<Rightarrow> (int \<times> 'ps redisDb) res" where
  "incRowNumber srv b db info inc_number =
     assertr (rowGroupId info \<noteq> 0)
       (bindr (generateRgIdKeyForRowgroup b info) (\<lambda>rowgroupKey.
          IncDecCount srv db rowgroupKey (createStringObjectFromLongLong (rowGroupId info)) inc_number))"

definition getRowNumberInfoAndSetRowNumberInfo ::
  "'ps redisDb \<Rightarrow> data_key_info \<Rightarrow> (int \<times> data_key_info) res" where
  "getRowNumberInfoAndSetRowNumberInfo db info =
     bindr (setMetaKeyForRowgroup info) (\<lambda>(metaKey, info).
       bindr (lookupCompInfoForRowNumberInMeta (lookupSDSKeyForMetadict db metaKey)
                (createStringObjectFromLongLong (rowGroupId info))) (\<lambda>rowNumber.
         Inr (rowNumber, info\<lparr>row_number := rowNumber\<rparr>)))"

definition getRowGroupInfoAndSetRowGroupInfo ::
  "'ps redisDb \<Rightarrow> data_key_info \<Rightarrow> (int \<times> data_key_info) res" where
  "getRowGroupInfoAndSetRowGroupInfo db info =
     bindr (setMetaKeyForRowgroup info) (\<lambda>(metaKey, info).
       bindr (lookupCompInfoForMeta (lookupSDSKeyForMetadict db metaKey) (IntObj 0)) (\<lambda>rowgroup.
         Inr (rowgroup, info\<lparr>rowGroupId := rowgroup\<rparr>)))"

definition getRowgroupInfo ::
  "server \<Rightarrow> string \<Rightarrow> 'ps redisDb \<Rightarrow> data_key_info \<Rightarrow> (int \<times> data_key_info \<times> 'ps redisDb) res" where
  "getRowgroupInfo srv b db info =
     bindr (getRowGroupInfoAndSetRowGroupInfo db info) (\<lambda>(rowgroup, info).
       if rowgroup = 0 then IncRowgroupIdAndModifyInfo srv b db info 1
       else Inr (rowgroup, info, db))"

text \<open>The row count of a data key, for the budget of a batch (\<open>src/src/evict.c\<close>).\<close>

definition getRowCount :: "'ps redisDb \<Rightarrow> string \<Rightarrow> int res" where
  "getRowCount db dataKey =
     bindr (toMetaKey (Some dataKey)) (\<lambda>r.
       case r of
         None \<Rightarrow> Inl AssertFailed
       | Some (metaKey, rg) \<Rightarrow>
           lookupCompInfoForRowNumberInMeta (lookupSDSKeyForMetadict db metaKey)
             (createStringObjectFromLongLong rg))"

section \<open>The counters\<close>

definition hash_count :: "hash \<Rightarrow> string \<Rightarrow> int option" where
  "hash_count h f = Option.bind (hmap h f) string2ll"

definition mcount :: "'ps redisDb \<Rightarrow> string \<Rightarrow> string \<Rightarrow> int option" where
  "mcount db key f =
     (case map_of (Metadict db) key of
        None \<Rightarrow> None
      | Some v \<Rightarrow> (case val v of HashObj h \<Rightarrow> hash_count h f | _ \<Rightarrow> None))"

definition count0 :: "'ps redisDb \<Rightarrow> string \<Rightarrow> string \<Rightarrow> int" where
  "count0 db key f = (case mcount db key f of None \<Rightarrow> 0 | Some n \<Rightarrow> n)"

text \<open>Every metadata object is a hash whose values are decimal texts.\<close>

definition hash_decimal :: "hash \<Rightarrow> bool" where
  "hash_decimal h \<longleftrightarrow> hash_ok h \<and> list_all (\<lambda>(f, s). string2ll s \<noteq> None) (hash_list h)"

definition meta_obj_ok :: "robj \<Rightarrow> bool" where
  "meta_obj_ok v \<longleftrightarrow> (case val v of HashObj h \<Rightarrow> hash_decimal h | _ \<Rightarrow> False)"

definition meta_ok :: "'ps redisDb \<Rightarrow> bool" where
  "meta_ok db \<longleftrightarrow> al_ok (Metadict db) \<and> list_all (\<lambda>(k, v). meta_obj_ok v) (Metadict db)"

lemma meta_ok_find:
  assumes "meta_ok db" and "map_of (Metadict db) key = Some v"
  obtains h where "val v = HashObj h" and "hash_decimal h"
proof -
  have "meta_obj_ok v" using assms(1) map_of_SomeD [OF assms(2)] by (auto simp: meta_ok_def list_all_iff)
  then show thesis using that by (auto simp: meta_obj_ok_def split: objval.splits)
qed

lemma hash_decimal_value: "hash_decimal h \<Longrightarrow> hmap h f = Some s \<Longrightarrow> \<exists>v. is_long v \<and> s = print_int v"
  by (auto simp: hash_decimal_def hmap_def list_all_iff string2ll_decimal dest!: map_of_SomeD)

lemma string2ll_print_int: "is_long v \<Longrightarrow> string2ll (print_int v) = Some v"
  by (simp add: string2ll_decimal)

lemma atoi_print_long: "is_long v \<Longrightarrow> atoi (print_int v) = c_int v"
  using strtoll_print_int [of "[]" v] by (simp add: atoi_def)

text \<open>Reading a field gives nothing, or an object that stands for the counter.\<close>

lemma hash_read:
  assumes "hash_decimal h"
  shows "hashTypeGetValueObject h f = Inr None \<and> hash_count h f = None \<or>
    (\<exists>r v. hashTypeGetValueObject h f = Inr (Some r) \<and> is_long v \<and> hash_count h f = Some v \<and>
       getLongLongFromObject (Some r) = Some v \<and> count_of r = c_int v)"
proof -
  have ok: "hash_ok h" using assms by (simp add: hash_decimal_def)
  obtain e where e: "hashTypeGetValueObject h f = Inr e" "map_option getDecodedObject e = hmap h f"
    "\<forall>i. e = Some (IntObj i) \<longrightarrow> is_long i"
    using getValueObject_ok [OF ok, of f] by blast
  show ?thesis
  proof (cases e)
    case None
    with e show ?thesis by (simp add: hash_count_def)
  next
    case (Some r)
    then obtain v where v: "is_long v" "getDecodedObject r = print_int v" "hmap h f = Some (print_int v)"
      using e(2) hash_decimal_value [OF assms] by (metis option.map(2))
    have "getLongLongFromObject (Some r) = Some v"
      using getLongLong_of_text [OF v(1,2)] e(3) Some by blast
    moreover have "count_of r = c_int v"
      using v(1,2) e(3) Some by (cases r) (auto simp: count_of_def atoi_print_long getDecodedObject_Int)
    ultimately show ?thesis using e(1) Some v by (simp add: hash_count_def string2ll_print_int)
  qed
qed

lemma set_al_update: "set (AList.update k v al) \<subseteq> insert (k, v) (set al)"
  by (induction al) auto

text \<open>Writing a counter changes that field only.\<close>

lemma hash_write:
  assumes "hash_decimal h" and "is_long v"
  shows "\<exists>h' u. hashTypeSetWithNoFlags n h f (createStringObjectFromLongLong v) = Inr (u, h') \<and> hash_decimal h' \<and>
    (\<forall>g. hash_count h' g = (if g = getDecodedObject f then Some v else hash_count h g))"
proof -
  let ?f = "getDecodedObject f"
  have ok: "hash_ok h" using assms by (simp add: hash_decimal_def)
  obtain h' where h: "hashTypeSetWithNoFlags n h f (createStringObjectFromLongLong v) = Inr (hmap h ?f \<noteq> None, h')"
    "hash_ok h'" "hash_list h' = AList.update ?f (print_int v) (hash_list h)"
    using set_ok [OF ok, of n f "createStringObjectFromLongLong v"] decoded_fromLongLong [OF assms(2)] by auto
  have "list_all (\<lambda>(f, s). string2ll s \<noteq> None) (hash_list h')"
    using assms set_al_update [of ?f "print_int v" "hash_list h"]
    unfolding h(3) hash_decimal_def list_all_iff by (auto simp: string2ll_print_int)
  moreover have "hash_count h' g = (if g = ?f then Some v else hash_count h g)" for g
    by (simp add: hash_count_def hmap_def h(3) update_conv' string2ll_print_int [OF assms(2)])
  ultimately show ?thesis using h(1,2) by (auto simp: hash_decimal_def)
qed

lemma hash_count_long: "hash_decimal h \<Longrightarrow> hash_count h f = Some v \<Longrightarrow> is_long v"
  using hash_decimal_value [of h f] by (auto simp: hash_count_def bind_eq_Some_conv string2ll_decimal)

lemma incr_overflows_iff:
  assumes "is_long a" and "is_long c"
  shows "incr_overflows a c \<longleftrightarrow> \<not> is_long (a + c)"
  using assms by (auto simp: incr_overflows_def is_long_def)

lemma incr_hash_ok:
  fixes field :: strobj
  assumes "hash_decimal h" and "is_long cnt"
  defines "v \<equiv> (case hash_count h (getDecodedObject field) of None \<Rightarrow> 0 | Some n \<Rightarrow> n) + cnt"
  shows "if is_long v
    then \<exists>h'. incr_hash srv h field cnt = Inr (c_int v, h') \<and> hash_decimal h' \<and>
      (\<forall>g. hash_count h' g = (if g = getDecodedObject field then Some v else hash_count h g))
    else incr_hash srv h field cnt = Inl AssertFailed"
proof -
  let ?f = "getDecodedObject field"
  have ok: "hash_ok h" using assms(1) by (simp add: hash_decimal_def)
  define a where "a = (case hash_count h ?f of None \<Rightarrow> 0 | Some n \<Rightarrow> n)"
  have a: "is_long a" using hash_count_long [OF assms(1)] by (auto simp: a_def is_long_def split: option.splits)
  have read: "incr_hash srv h field cnt =
      (if incr_overflows a cnt then Inl AssertFailed
       else bindr (hashTypeSetWithNoFlags (hash_max_ziplist_entries srv) h (hashTypeTryObjectEncoding h field)
              (createStringObjectFromLongLong v)) (\<lambda>(_, h). Inr (c_int v, h)))"
    using hash_read [OF assms(1), of ?f]
    by (auto simp: incr_hash_def getValueRObject_ok [OF ok] a_def v_def Let_def)
  show ?thesis
  proof (cases "is_long v")
    case True
    then have "\<not> incr_overflows a cnt" using incr_overflows_iff [OF a assms(2)] by (simp add: a_def v_def)
    with True hash_write [OF assms(1) True, of "hash_max_ziplist_entries srv" "hashTypeTryObjectEncoding h field"]
    show ?thesis by (auto simp: read decoded_hashTypeTryObjectEncoding)
  next
    case False
    then have "incr_overflows a cnt" using incr_overflows_iff [OF a assms(2)] by (simp add: a_def v_def)
    with False show ?thesis by (simp add: read)
  qed
qed

lemma meta_ok_update:
  assumes "meta_ok db" and "hash_decimal h"
  shows "meta_ok (db\<lparr>Metadict := AList.update key (v\<lparr>val := HashObj h\<rparr>) (Metadict db)\<rparr>)"
  using assms set_al_update [of key "v\<lparr>val := HashObj h\<rparr>" "Metadict db"]
  unfolding meta_ok_def list_all_iff by (auto simp: al_update_ok meta_obj_ok_def)

lemma mcount_update:
  "mcount (db\<lparr>Metadict := AList.update key (v\<lparr>val := HashObj h\<rparr>) (Metadict db)\<rparr>) k f =
     (if k = key then hash_count h f else mcount db k f)"
  by (simp add: mcount_def update_conv')

lemma fresh_hash: "hash_decimal createMetaHashdictFordict" "hash_count createMetaHashdictFordict f = None"
  by (simp_all add: hash_decimal_def createMetaHashdictFordict_def hash_ok_def hash_list_def hash_count_def hmap_def)

text \<open>An increment on a well-formed database: the result, and one counter changed.\<close>

lemma IncDecCount_ok:
  fixes field :: strobj and key :: string
  assumes "meta_ok db" and "is_long cnt"
  defines "v \<equiv> count0 db key (getDecodedObject field) + cnt"
  shows "if is_long v
    then \<exists>md. IncDecCount srv db key field cnt = Inr (c_int v, db\<lparr>Metadict := md\<rparr>) \<and> meta_ok (db\<lparr>Metadict := md\<rparr>) \<and>
      (\<forall>k. k \<noteq> key \<longrightarrow> map_of md k = map_of (Metadict db) k) \<and>
      (\<forall>k f. mcount (db\<lparr>Metadict := md\<rparr>) k f = (if k = key \<and> f = getDecodedObject field then Some v else mcount db k f))
    else IncDecCount srv db key field cnt = Inl AssertFailed"
proof (cases "map_of (Metadict db) key")
  case None
  let ?o = "createObject (HashObj createMetaHashdictFordict)"
  let ?db = "db\<lparr>Metadict := Metadict db @ [(key, ?o)]\<rparr>"
  have m: "mcount db key f = None" for f using None by (simp add: mcount_def)
  have ok: "meta_ok ?db"
    using assms(1) None fresh_hash(1)
    by (auto simp: meta_ok_def al_ok_def map_of_eq_None_iff meta_obj_ok_def createObject_def)
  have add: "IncDecCount srv db key field cnt =
      bindr (incr_hash srv createMetaHashdictFordict field cnt) (\<lambda>(n, h).
        Inr (n, db\<lparr>Metadict := AList.update key (?o\<lparr>val := HashObj h\<rparr>) (Metadict ?db)\<rparr>))"
    by (simp add: IncDecCount_def lookupKeyWriteForMetadict_def lookupKeyForMetadict_def None dbAddForMetadict_def
      al_add_def hash_of_def createObject_def Let_def)
  show ?thesis
  proof (cases "is_long v")
    case True
    then obtain h' where h': "incr_hash srv createMetaHashdictFordict field cnt = Inr (c_int v, h')" "hash_decimal h'"
      "\<forall>g. hash_count h' g = (if g = getDecodedObject field then Some v else None)"
      using incr_hash_ok [OF fresh_hash(1) assms(2), of field srv] m by (auto simp: v_def count0_def fresh_hash)
    have "mcount (?db\<lparr>Metadict := AList.update key (?o\<lparr>val := HashObj h'\<rparr>) (Metadict ?db)\<rparr>) k f =
        (if k = key \<and> f = getDecodedObject field then Some v else mcount db k f)" for k f
      using h'(3) m None by (auto simp: mcount_def update_conv' map_add_def split: option.splits)
    moreover have "map_of (AList.update key (?o\<lparr>val := HashObj h'\<rparr>) (Metadict ?db)) k = map_of (Metadict db) k"
      if "k \<noteq> key" for k
      using that None by (auto simp: update_conv' map_add_def split: option.splits)
    ultimately show ?thesis
      using True h'(1) meta_ok_update [OF ok h'(2), of key ?o]
      by (simp add: add) (rule exI [of _ "AList.update key (?o\<lparr>val := HashObj h'\<rparr>) (Metadict ?db)"], simp)
  next
    case False
    then show ?thesis
      using incr_hash_ok [OF fresh_hash(1) assms(2), of field srv] m by (auto simp: add v_def count0_def fresh_hash)
  qed
next
  case (Some w)
  obtain h where h: "val w = HashObj h" "hash_decimal h" using meta_ok_find [OF assms(1) Some] by blast
  have m: "mcount db key f = hash_count h f" for f using Some h by (simp add: mcount_def)
  have eq: "IncDecCount srv db key field cnt =
      bindr (incr_hash srv h field cnt) (\<lambda>(n, h).
        Inr (n, db\<lparr>Metadict := AList.update key (w\<lparr>val := HashObj h\<rparr>) (Metadict db)\<rparr>))"
    by (simp add: IncDecCount_def lookupKeyWriteForMetadict_def lookupKeyForMetadict_def Some h hash_of_def)
  show ?thesis
  proof (cases "is_long v")
    case True
    then obtain h' where h': "incr_hash srv h field cnt = Inr (c_int v, h')" "hash_decimal h'"
      "\<forall>g. hash_count h' g = (if g = getDecodedObject field then Some v else hash_count h g)"
      using incr_hash_ok [OF h(2) assms(2), of field srv] m by (auto simp: v_def count0_def)
    with True meta_ok_update [OF assms(1) h'(2), of key w] show ?thesis
      by (auto simp: eq mcount_update m update_conv' intro!: exI [of _ "AList.update key (w\<lparr>val := HashObj h'\<rparr>) (Metadict db)"])
  next
    case False
    then show ?thesis using incr_hash_ok [OF h(2) assms(2), of field srv] m by (auto simp: eq v_def count0_def)
  qed
qed

text \<open>
  C26. Incrementing a counter of the metadata adds the amount to the stored number, or to zero when
  the partition or the field is new, and changes no other counter; when the sum is not a
  \<open>long long\<close> the server stops instead of wrapping around. It returns the sum as an \<open>int\<close>.
\<close>

theorem IncDecCount_exact:
  assumes "meta_ok db" and "is_long cnt"
  shows "if is_long (count0 db key (getDecodedObject field) + cnt)
    then \<exists>db'. IncDecCount srv db key field cnt = Inr (c_int (count0 db key (getDecodedObject field) + cnt), db') \<and>
      meta_ok db' \<and>
      (\<forall>k f. mcount db' k f = (if k = key \<and> f = getDecodedObject field
                                then Some (count0 db key (getDecodedObject field) + cnt) else mcount db k f))
    else IncDecCount srv db key field cnt = Inl AssertFailed"
  using IncDecCount_ok [OF assms, of key field srv] by (auto split: if_splits)

theorem IncDecCount_exact_witness:
  "\<exists>db'. IncDecCount sample_server sample_db ''M:{1:0}'' (IntObj 0) 3 = Inr (3, db') \<and>
     mcount db' ''M:{1:0}'' ''0'' = Some 3"
proof -
  have "meta_ok sample_db" "is_long 3" by (simp_all add: meta_ok_def sample_db_def is_long_def)
  moreover have "getDecodedObject (IntObj 0) = ''0''"
    using getDecodedObject_Int [of 0] by (simp add: is_long_def print_int_def print_nat_small digit_char_0)
  moreover have "count0 sample_db ''M:{1:0}'' ''0'' = 0" by (simp add: count0_def mcount_def sample_db_def)
  ultimately show ?thesis
    using IncDecCount_exact [of sample_db 3 "''M:{1:0}''" "IntObj 0" sample_server]
    by (auto simp: is_long_def c_int_id is_int_def)
qed

end
