(* ===== verification/ColVec.thy ===== *)
theory ColVec
  imports Vec
begin

text \<open>
  Column vectors as text (\<open>src/src/stl.c\<close>): what is written to the persistent store
  (\<open>vectorSerialize\<close>), the two parsers that rebuild a vector (\<open>vectorDeserialize\<close> and the
  deprecated \<open>VectordeSerialize\<close>) and the iterator that reads the text in place
  (\<open>makeColumnVectorIter\<close>, \<open>columnVectorIterNext\<close>, \<open>columnVectorIterGet\<close>,
  \<open>columnVectorIterGetNoCopy\<close>).
\<close>

section \<open>Writing\<close>

text \<open>The loop runs over the indices below the count read as \<open>int\<close>.\<close>

fun serialize_loop :: "string vector \<Rightarrow> int \<Rightarrow> nat list \<Rightarrow> string \<Rightarrow> string res" where
  "serialize_loop v n [] acc = Inr acc"
| "serialize_loop v n (i # is) acc =
     bindr (vectorGet v i) (\<lambda>x. bindr (deref x) (\<lambda>e.
       serialize_loop v n is (acc @ e @ (if int i < n - 1 then '':'' else []))))"

definition vectorSerialize :: "string vector \<Rightarrow> string res" where
  "vectorSerialize v =
     (let v_type = int (vtype v);
          v_count = c_int (int (vcount v));
          buf = ''V:'' @ ''{'' @ ''T:'' @ print_int v_type @ '':'' @ ''N:'' @ print_int v_count @
                ''}:'' @ ''D'' @ '':'' @ ''[''
      in bindr (serialize_loop v v_count [0..<nat v_count] buf) (\<lambda>s. Inr (s @ '']'')))"

section \<open>Parsing back\<close>

text \<open>
  The token of element \<open>i\<close>: each call of \<open>strtok_r\<close> takes a \<^emph>\<open>set\<close> of delimiters, so the first
  call stops at any of the three characters of the data prefix.
\<close>

definition deserialize_token :: "int \<Rightarrow> int \<Rightarrow> string \<Rightarrow> string option \<times> string" where
  "deserialize_token i count s =
     (if i = 0 then strtok_r ''D:['' s
      else if i = count - 1 then strtok_r '']'' s
      else strtok_r '':'' s)"

function deserialize_loop :: "int \<Rightarrow> int \<Rightarrow> string \<Rightarrow> string vector \<Rightarrow> (bool \<times> string vector) res" where
  "deserialize_loop i count s v =
     (if i < count then
        (case deserialize_token i count s of
           (None, _) \<Rightarrow> Inr (False, v)
         | (Some token, s') \<Rightarrow>
             bindr (vectorAdd v (Some token)) (\<lambda>(_, v'). deserialize_loop (i + 1) count s' v'))
      else Inr (True, v))"
  by pat_completeness auto
termination
  by (relation "measure (\<lambda>(i, count, _). nat (count - i))") auto

declare deserialize_loop.simps [simp del]

text \<open>The header: nothing when a token is missing, else type, count and the unread text.\<close>

definition deserialize_header :: "string \<Rightarrow> (int \<times> int \<times> string) option" where
  "deserialize_header raw =
     (case strtok_r ''V:'' raw of
        (None, _) \<Rightarrow> None
      | (Some token, s) \<Rightarrow>
          let s = (if token = ''V:'' then snd (strtok_r ''{'' s) else s)
          in case strtok_r ''T:'' s of
               (None, _) \<Rightarrow> None
             | (Some ty, s) \<Rightarrow>
                 (case strtok_r ''N:'' s of
                    (None, _) \<Rightarrow> None
                  | (Some cnt, s) \<Rightarrow> Some (atoi ty, atoi cnt, s)))"

text \<open>
  With one element the second call passes \<open>saveptr\<close> where its address is meant: eight bytes are
  written from the place \<open>saveptr\<close> points at. \<open>room\<close> is the number of bytes of the buffer from
  there on, its NUL included. Nothing is a missing token.
\<close>

definition deserialize_single :: "nat \<Rightarrow> string \<Rightarrow> string option res" where
  "deserialize_single room s =
     (case strtok_r ''D:['' s of
        (None, _) \<Rightarrow> Inr None
      | (Some token, save) \<Rightarrow>
          if length save + room < 8 then Inl OutOfBounds
          else Inr (fst (strtok_r '']'' token)))"

text \<open>
  \<open>vectorDeserialize\<close>: the return code and \<open>*result\<close>, which is not written when the header is
  broken. A negative count asks for more memory than there is and stops the process. The buffer
  ends with the NUL after the text.
\<close>

definition vectorDeserialize :: "string option \<Rightarrow> (bool \<times> string vector option) res" where
  "vectorDeserialize raw =
     (case raw of
        None \<Rightarrow> Inr (False, None)
      | Some text \<Rightarrow>
          (case deserialize_header (cstr text) of
             None \<Rightarrow> Inr (False, None)
           | Some (ty, count, s) \<Rightarrow>
               if count < 0 then Inl ServerPanic
               else
                 let v = vectorTypeInitWithSize ty (nat count)
                 in if count = 1 then
                      bindr (deserialize_single (length text - length (cstr text) + 1) s) (\<lambda>t.
                        case t of
                          None \<Rightarrow> Inr (False, Some v)
                        | Some token \<Rightarrow>
                            bindr (vectorAdd v (Some token)) (\<lambda>(_, v'). Inr (True, Some v')))
                    else
                      bindr (deserialize_loop 0 count s v) (\<lambda>(rc, v'). Inr (rc, Some v'))))"

text \<open>
  The deprecated parser copies the text to a buffer of 1024 bytes on its stack and stops the
  process where the other returns an error.
\<close>

definition VectordeSerialize :: "string option \<Rightarrow> string vector res" where
  "VectordeSerialize str =
     (case str of
        None \<Rightarrow> Inl AssertFailed
      | Some text \<Rightarrow>
          let text = cstr text
          in if length text + 1 > 1024 then Inl OutOfBounds
             else
               case deserialize_header text of
                 None \<Rightarrow> Inl AssertFailed
               | Some (ty, count, s) \<Rightarrow>
                   if count < 0 then Inl ServerPanic
                   else
                     let v = vectorTypeInitWithSize ty (nat count)
                     in if count = 1 then
                          bindr (deserialize_single (1024 - length text) s) (\<lambda>t.
                            case t of
                              None \<Rightarrow> Inl AssertFailed
                            | Some token \<Rightarrow>
                                bindr (vectorAdd v (Some token)) (\<lambda>(_, v'). Inr v'))
                        else
                          bindr (deserialize_loop 0 count s v) (\<lambda>(rc, v').
                            if rc then Inr v' else Inl AssertFailed))"

section \<open>The iterator\<close>

datatype token_mode = IncludeEnd | ExcludeAll | ExcludeOnToken

text \<open>The search for the end point, forwards or from the end of the text.\<close>

definition target_char :: "bool \<Rightarrow> string \<Rightarrow> nat \<Rightarrow> char" where
  "target_char bwd s i = (if bwd then s ! (length s - 1 - i) else s ! i)"

function target_scan :: "bool \<Rightarrow> string \<Rightarrow> char \<Rightarrow> nat \<Rightarrow> nat option" where
  "target_scan bwd s end_point i =
     (if i \<ge> length s then None
      else if target_char bwd s i = end_point then Some i
      else target_scan bwd s end_point (i + 1))"
  by pat_completeness auto
termination
  by (relation "measure (\<lambda>(_, s, _, i). length s - i)") auto

declare target_scan.simps [simp del]

text \<open>\<open>_getTargetToken\<close>: the token, or null, and the new value of \<open>*i\<close>.\<close>

definition getTargetToken :: "string \<Rightarrow> nat \<Rightarrow> char \<Rightarrow> token_mode \<Rightarrow> bool \<Rightarrow> string option \<times> nat" where
  "getTargetToken s i end_point mode bwd =
     (case target_scan bwd s end_point i of
        None \<Rightarrow> (None, max i (length s))
      | Some j \<Rightarrow>
          let n = j - i
          in if \<not> bwd then
               (case mode of
                  IncludeEnd \<Rightarrow> (Some (take (n + 1) (drop i s)), j + 1)
                | ExcludeOnToken \<Rightarrow> (Some (take n (drop i s)), j + 1)
                | ExcludeAll \<Rightarrow> (Some (take n (drop i s)), j))
             else
               (case mode of
                  IncludeEnd \<Rightarrow> (Some (take (n + 1) (drop (length s - 1 - j) s)), j + 1)
                | ExcludeOnToken \<Rightarrow>
                    if j = 0 then (None, j)
                    else (Some (take n (drop (length s - 1 - (j - 1)) s)), j - 1 + 2)
                | ExcludeAll \<Rightarrow>
                    if j = 0 then (None, j)
                    else (Some (take n (drop (length s - 1 - (j - 1)) s)), j - 1)))"

text \<open>
  A token that is read, logged with its length and compared with the expected text: null is
  dereferenced by \<open>sdslen\<close>. The flag is false on the error return.
\<close>

definition expect_token :: "string \<Rightarrow> string \<Rightarrow> char \<Rightarrow> bool \<Rightarrow> nat \<Rightarrow> (bool \<times> nat) res" where
  "expect_token s txt end_point bwd i =
     (case getTargetToken s i end_point IncludeEnd bwd of
        (None, _) \<Rightarrow> Inl NullDeref
      | (Some token, i') \<Rightarrow> Inr (cstr token = txt, i'))"

definition number_token :: "string \<Rightarrow> char \<Rightarrow> nat \<Rightarrow> (int \<times> nat) res" where
  "number_token s end_point i =
     (case getTargetToken s i end_point ExcludeOnToken False of
        (None, _) \<Rightarrow> Inl NullDeref
      | (Some token, i') \<Rightarrow> Inr (atoi token, i'))"

definition preprocessMakeColumnVectorIter :: "string \<Rightarrow> (nat \<times> int \<times> int) option res" where
  "preprocessMakeColumnVectorIter s =
     bindr (expect_token s ''V:{'' CHR ''{'' False 0) (\<lambda>(ok, i).
       if \<not> ok then Inr None
       else bindr (expect_token s ''T:'' CHR '':'' False i) (\<lambda>(ok, i).
         if \<not> ok then Inr None
         else bindr (number_token s CHR '':'' i) (\<lambda>(v_type, i).
           bindr (expect_token s ''N:'' CHR '':'' False i) (\<lambda>(ok, i).
             if \<not> ok then Inr None
             else bindr (number_token s CHR ''}'' i) (\<lambda>(v_count, i).
               let (_, i) = getTargetToken s i CHR ''D'' ExcludeAll False
               in Inr (Some (i, v_type, v_count)))))))"

record col_iter =
  it_col :: "string option"
  it_type :: nat
  it_count :: nat
  it_i :: nat
  it_pos :: nat

text \<open>Nothing is \<open>C_ERR\<close>; else the first and the last position.\<close>

definition makeColumnVectorIter :: "string option \<Rightarrow> (col_iter \<times> col_iter) option res" where
  "makeColumnVectorIter col_v =
     (case col_v of
        None \<Rightarrow> Inr None
      | Some s \<Rightarrow>
          if s = [] then Inr None
          else bindr (preprocessMakeColumnVectorIter s) (\<lambda>r.
            case r of
              None \<Rightarrow> Inr None
            | Some (i, v_type, v_count) \<Rightarrow>
                bindr (expect_token s ''D:['' CHR ''['' False i) (\<lambda>(ok, i).
                  if \<not> ok then Inr None
                  else bindr (expect_token s '']'' CHR '']'' True 0) (\<lambda>(ok, ri).
                    if \<not> ok then Inr None
                    else
                      let delimiter = (if v_count \<le> 1 then CHR ''['' else CHR '':'')
                      in case getTargetToken s ri delimiter ExcludeAll True of
                           (None, _) \<Rightarrow> Inl NullDeref
                         | (Some _, ri) \<Rightarrow>
                             let it = \<lparr>it_col = Some s, it_type = nat (v_type mod 4),
                                       it_count = nat (v_count mod 2 ^ 64), it_i = 0, it_pos = i\<rparr>
                             in Inr (Some (it, it\<lparr>it_i := nat ((v_count - 1) mod 2 ^ 64),
                                                 it_pos := length s - 1 - ri\<rparr>))))))"

text \<open>The two iterators are on the same text object; here, on the same text.\<close>

definition columnVectorIterIsEqual :: "col_iter \<Rightarrow> col_iter \<Rightarrow> bool" where
  "columnVectorIterIsEqual a b \<longleftrightarrow>
     it_col a = it_col b \<and> it_count a = it_count b \<and> it_type a = it_type b \<and>
     it_i a = it_i b \<and> it_pos a = it_pos b"

text \<open>The return code, whether \<open>*eoi\<close> was set, and the iterator.\<close>

definition columnVectorIterNext :: "col_iter \<Rightarrow> bool \<times> bool \<times> col_iter" where
  "columnVectorIterNext it =
     (case it_col it of
        None \<Rightarrow> (False, False, it)
      | Some s \<Rightarrow>
          if it_i it = size_dec (it_count it) then (True, True, it)
          else
            let (_, i) = getTargetToken s (it_pos it) CHR '':'' IncludeEnd False
            in (True, False, it\<lparr>it_pos := i, it_i := (it_i it + 1) mod 2 ^ 64\<rparr>))"

definition columnVectorIterGet :: "col_iter \<Rightarrow> string option" where
  "columnVectorIterGet it =
     (case it_col it of
        None \<Rightarrow> None
      | Some s \<Rightarrow>
          if it_i it = size_dec (it_count it)
          then fst (getTargetToken s (it_pos it) CHR '']'' ExcludeOnToken False)
          else fst (getTargetToken s (it_pos it) CHR '':'' ExcludeOnToken False))"

text \<open>The unbounded search for the delimiter: past the NUL of the text it leaves the buffer.\<close>

definition columnVectorIterGetNoCopy :: "col_iter \<Rightarrow> (nat \<times> nat) option res" where
  "columnVectorIterGetNoCopy it =
     (case it_col it of
        None \<Rightarrow> Inr None
      | Some s \<Rightarrow>
          let delimiter = (if it_i it = size_dec (it_count it) then CHR '']'' else CHR '':'')
          in case target_scan False s delimiter (it_pos it) of
               None \<Rightarrow> Inl OutOfBounds
             | Some j \<Rightarrow> Inr (Some (it_pos it, j - it_pos it)))"

section \<open>The written text\<close>

definition col_header :: "int \<Rightarrow> nat \<Rightarrow> string" where
  "col_header ty n =
     ''V:{'' @ ''T:'' @ print_int ty @ '':'' @ ''N:'' @ print_int (int n) @ ''}'' @ '':'' @ ''D:[''"

definition col_text :: "int \<Rightarrow> string list \<Rightarrow> string" where
  "col_text ty es = col_header ty (length es) @ join '':'' es @ '']''"

lemma serialize_loop_eq:
  assumes "vok v (map Some es)" and "k \<le> length es"
  shows "serialize_loop v (int (length es)) [k..<length es] acc = Inr (acc @ join '':'' (drop k es))"
  using assms(2)
proof (induction "length es - k" arbitrary: k acc)
  case 0
  then show ?case by simp
next
  case (Suc n)
  then have k: "k < length es" "[k..<length es] = k # [Suc k..<length es]"
    by (simp_all add: upt_conv_Cons)
  have "drop k es = es ! k # drop (Suc k) es" using k(1) by (simp add: Cons_nth_drop_Suc)
  then show ?case
    using Suc k vok_get [OF assms(1), of k] by (simp add: join_Cons)
qed

lemma vectorSerialize_layout:
  assumes "vok v (map Some es)" and "int (length es) \<le> INT_MAX"
  shows "vectorSerialize v = Inr (col_text (int (vtype v)) es)"
proof -
  have "c_int (int (vcount v)) = int (length es)"
    using assms vok_count [OF assms(1)] by (simp add: c_int_id is_int_def)
  then show ?thesis
    using serialize_loop_eq [OF assms(1), of 0]
    by (simp add: vectorSerialize_def col_text_def col_header_def)
qed

section \<open>The iterator yields the elements\<close>

lemma target_scan_found:
  assumes "end_point \<notin> set t"
  shows "target_scan False (p @ t @ end_point # r) end_point (length p) = Some (length p + length t)"
  using assms
proof (induction t arbitrary: p)
  case Nil
  then show ?case by (subst target_scan.simps) (simp add: target_char_def)
next
  case (Cons c t)
  have "target_scan False (p @ (c # t) @ end_point # r) end_point (length p) =
      target_scan False ((p @ [c]) @ t @ end_point # r) end_point (length (p @ [c]))"
    using Cons.prems by (subst target_scan.simps) (auto simp: target_char_def)
  also have "\<dots> = Some (length (p @ [c]) + length t)" using Cons by (intro Cons.IH) simp
  finally show ?case by simp
qed

lemma token_forward:
  assumes "s = p @ t @ end_point # r" and "end_point \<notin> set t" and "i = length p"
  shows "getTargetToken s i end_point mode False =
    (case mode of
       IncludeEnd \<Rightarrow> (Some (t @ [end_point]), length p + length t + 1)
     | ExcludeOnToken \<Rightarrow> (Some t, length p + length t + 1)
     | ExcludeAll \<Rightarrow> (Some t, length p + length t))"
  using target_scan_found [OF assms(2), of p r] assms(1,3)
  by (simp add: getTargetToken_def split: token_mode.splits)

lemma expect_forward:
  assumes "s = p @ t @ end_point # r" and "end_point \<notin> set t" and "i = length p"
    and "NUL \<notin> set (t @ [end_point])"
  shows "expect_token s (t @ [end_point]) end_point False i = Inr (True, length p + length t + 1)"
proof -
  have "cstr (t @ [end_point]) = t @ [end_point]"
    using assms(4) unfolding cstr_def by (intro takeWhile_all) metis
  then show ?thesis by (simp add: expect_token_def token_forward [OF assms(1-3)])
qed

lemma number_forward:
  assumes "s = p @ print_int n @ end_point # r" and "end_point \<notin> set (print_int n)" and "i = length p"
    and "is_int n"
  shows "number_token s end_point i = Inr (n, length p + length (print_int n) + 1)"
  using token_forward [OF assms(1-3)] assms(4) by (simp add: number_token_def)

lemma colon_not_print_int: "CHR '':'' \<notin> set (print_int n)" "CHR ''}'' \<notin> set (print_int n)"
  "CHR ''D'' \<notin> set (print_int n)" "NUL \<notin> set (print_int n)"
  by (auto dest!: print_int_chars simp: is_digit_def)

lemma preprocess_header:
  assumes "s = col_header ty n @ r" and "is_int ty" and "int n \<le> INT_MAX"
  shows "preprocessMakeColumnVectorIter s = Inr (Some (length (col_header ty n) - 3, ty, int n))"
proof -
  let ?a = "''V:{''" and ?b = "''V:{T:''" and ?c = "''V:{T:'' @ print_int ty @ '':''"
  let ?d = "''V:{T:'' @ print_int ty @ '':N:''"
  let ?e = "''V:{T:'' @ print_int ty @ '':N:'' @ print_int (int n) @ ''}''"
  have n: "is_int (int n)" using assms(3) by (simp add: is_int_def)
  note s = assms(1) [unfolded col_header_def]
  have 1: "expect_token s ''V:{'' CHR ''{'' False 0 = Inr (True, 3)"
    using expect_forward [of s "[]" "''V:''" "CHR ''{''" _ 0] by (simp add: s)
  have 2: "expect_token s ''T:'' CHR '':'' False 3 = Inr (True, 5)"
    using expect_forward [of s ?a "''T''" "CHR '':''" _ 3] by (simp add: s)
  have 3: "number_token s CHR '':'' 5 = Inr (ty, length ?c)"
    using number_forward [of s ?b ty "CHR '':''" _ 5] assms(2) colon_not_print_int by (simp add: s)
  have 4: "expect_token s ''N:'' CHR '':'' False (length ?c) = Inr (True, length ?d)"
    using expect_forward [of s ?c "''N''" "CHR '':''" _ "length ?c"] by (simp add: s)
  have 5: "number_token s CHR ''}'' (length ?d) = Inr (int n, length ?e)"
    using number_forward [of s ?d "int n" "CHR ''}''" _ "length ?d"] n colon_not_print_int by (simp add: s)
  have 6: "getTargetToken s (length ?e) CHR ''D'' ExcludeAll False = (Some '':'', length ?e + 1)"
    using token_forward [of s ?e "'':''" "CHR ''D''" _ "length ?e" ExcludeAll] by (simp add: s)
  have "length (col_header ty n) - 3 = length ?e + 1" by (simp add: col_header_def)
  then show ?thesis
    unfolding preprocessMakeColumnVectorIter_def 1 bindr_Inr split if_False not_True_eq_False 2 3 4 5 6
    by simp
qed

text \<open>From the back: the closing bracket is the last character, a delimiter lies before it.\<close>

lemma target_scan_exists:
  assumes "i \<le> j" and "j < length s" and "target_char bwd s j = end_point"
  shows "\<exists>k. target_scan bwd s end_point i = Some k \<and> i \<le> k \<and> k \<le> j"
  using assms
proof (induction "j - i" arbitrary: i)
  case 0
  then show ?case by (subst target_scan.simps) auto
next
  case (Suc n)
  obtain k where "target_scan bwd s end_point (Suc i) = Some k" "Suc i \<le> k" "k \<le> j"
  proof -
    have "n = j - Suc i" "Suc i \<le> j" using Suc.hyps(2) by linarith+
    then show thesis using Suc.hyps(1) [of "Suc i"] Suc.prems that by blast
  qed
  with Suc.prems show ?case by (subst target_scan.simps) (auto simp: le_Suc_eq)
qed

text \<open>What may follow the text: nothing, or the NUL that is stored with it.\<close>

abbreviation nul_tail :: "string \<Rightarrow> bool" where
  "nul_tail z \<equiv> z = [] \<or> z = [NUL]"

lemma expect_back:
  assumes "nul_tail z"
  shows "expect_token (s @ '']'' @ z) '']'' CHR '']'' True 0 = Inr (True, length z + 1)"
proof -
  have "target_scan True (s @ '']'' @ z) CHR '']'' 0 = Some (length z)"
    using assms by (subst target_scan.simps, subst target_scan.simps) (auto simp: target_char_def nth_append)
  then show ?thesis using assms by (auto simp: expect_token_def getTargetToken_def cstr_def)
qed

lemma delimiter_back:
  assumes "c \<in> set s"
  shows "\<exists>x y. getTargetToken (s @ '']'' @ z) (length z + 1) c ExcludeAll True = (Some x, y)"
proof -
  obtain q where q: "q < length s" "s ! q = c" using assms by (auto simp: in_set_conv_nth)
  let ?j = "length s + length z - q"
  have "target_char True (s @ '']'' @ z) ?j = c"
    using q by (simp add: target_char_def nth_append)
  moreover have "length z + 1 \<le> ?j" "?j < length (s @ '']'' @ z)" using q(1) by simp_all
  ultimately obtain k where "target_scan True (s @ '']'' @ z) c (length z + 1) = Some k" "length z + 1 \<le> k"
    using target_scan_exists by blast
  then show ?thesis by (simp add: getTargetToken_def)
qed

text \<open>The iterator on element \<open>k\<close> of the text.\<close>

definition col_at :: "int \<Rightarrow> string list \<Rightarrow> string \<Rightarrow> nat \<Rightarrow> col_iter" where
  "col_at ty es z k =
     \<lparr>it_col = Some (col_text ty es @ z), it_type = nat (ty mod 4), it_count = length es, it_i = k,
      it_pos = length (col_header ty (length es)) +
        length (concat (map (\<lambda>e. e @ '':'') (take k es)))\<rparr>"

lemma makeColumnVectorIter_begin:
  assumes "is_int ty" and "int (length es) \<le> INT_MAX" and "nul_tail z"
  shows "\<exists>last. makeColumnVectorIter (Some (col_text ty es @ z)) = Inr (Some (col_at ty es z 0, last))"
proof -
  let ?h = "col_header ty (length es)" and ?s = "col_text ty es @ z"
  have p: "preprocessMakeColumnVectorIter ?s = Inr (Some (length ?h - 3, ty, int (length es)))"
    using preprocess_header [OF _ assms(1,2), of ?s "join '':'' es @ '']'' @ z"] by (simp add: col_text_def)
  obtain h where h: "?h = h @ ''D:[''" by (simp add: col_header_def)
  have d: "expect_token ?s ''D:['' CHR ''['' False (length ?h - 3) = Inr (True, length ?h)"
    using expect_forward [of ?s h "''D:''" "CHR ''[''" _ "length ?h - 3"] by (simp add: col_text_def h)
  have b: "expect_token ?s '']'' CHR '']'' True 0 = Inr (True, length z + 1)"
    using expect_back [OF assms(3), of "?h @ join '':'' es"] by (simp add: col_text_def)
  have c: "(if int (length es) \<le> 1 then CHR ''['' else CHR '':'') \<in> set (?h @ join '':'' es)"
    by (simp add: col_header_def)
  obtain x y where g: "getTargetToken ?s (length z + 1) (if int (length es) \<le> 1 then CHR ''['' else CHR '':'')
      ExcludeAll True = (Some x, y)"
    using delimiter_back [OF c, of z] by (auto simp: col_text_def)
  have "?s \<noteq> []" by (simp add: col_text_def)
  moreover have "nat (int (length es) mod 2 ^ 64) = length es" using assms(2) by simp
  ultimately show ?thesis
    using g by (simp add: makeColumnVectorIter_def p d b Let_def col_at_def)
qed

text \<open>What lies at the position of an element, up to its delimiter.\<close>

lemma col_text_at:
  assumes "k < length es"
  shows "\<exists>p r. col_text ty es @ z =
      p @ es ! k @ (if k = length es - 1 then CHR '']'' else CHR '':'') # r \<and>
    length p = it_pos (col_at ty es z k)"
proof -
  have d: "drop k es = es ! k # drop (Suc k) es" using assms by (simp add: Cons_nth_drop_Suc)
  let ?p = "col_header ty (length es) @ concat (map (\<lambda>e. e @ '':'') (take k es))"
  have "col_text ty es @ z = ?p @ es ! k @
      (if k = length es - 1 then CHR '']'' else CHR '':'') #
      (if k = length es - 1 then [] else join '':'' (drop (Suc k) es) @ '']'') @ z"
    using assms unfolding col_text_def join_take_drop [OF assms] d by (simp add: join_Cons) linarith
  moreover have "length ?p = it_pos (col_at ty es z k)" by (simp add: col_at_def)
  ultimately show ?thesis by blast
qed

lemma col_at_get:
  assumes "k < length es" and "(if k = length es - 1 then CHR '']'' else CHR '':'') \<notin> set (es ! k)"
  shows "columnVectorIterGetNoCopy (col_at ty es z k) =
      Inr (Some (it_pos (col_at ty es z k), length (es ! k))) \<and>
    take (length (es ! k)) (drop (it_pos (col_at ty es z k)) (col_text ty es @ z)) = es ! k"
proof -
  obtain p r where t: "col_text ty es @ z =
      p @ es ! k @ (if k = length es - 1 then CHR '']'' else CHR '':'') # r"
    "length p = it_pos (col_at ty es z k)" using col_text_at [OF assms(1)] by blast
  have "size_dec (length es) = length es - 1" using assms(1) by (intro size_dec_pos) linarith
  moreover have "it_count (col_at ty es z k) = length es" "it_i (col_at ty es z k) = k"
    "it_col (col_at ty es z k) = Some (col_text ty es @ z)" by (simp_all add: col_at_def)
  ultimately show ?thesis
    using target_scan_found [OF assms(2), of p r]
    by (simp add: columnVectorIterGetNoCopy_def t(1) t(2) [symmetric])
qed

lemma col_at_next:
  assumes "Suc k < length es" and "CHR '':'' \<notin> set (es ! k)" and "int (length es) \<le> INT_MAX"
  shows "columnVectorIterNext (col_at ty es z k) = (True, False, col_at ty es z (Suc k))"
proof -
  obtain p r where t: "col_text ty es @ z = p @ es ! k @ CHR '':'' # r" "length p = it_pos (col_at ty es z k)"
    using col_text_at [of k es ty z] assms(1) by auto
  have "size_dec (length es) = length es - 1" using assms(1) by (intro size_dec_pos) linarith
  moreover have "it_pos (col_at ty es z (Suc k)) = it_pos (col_at ty es z k) + length (es ! k) + 1"
    using assms(1) by (simp add: col_at_def take_Suc_conv_app_nth)
  ultimately show ?thesis
    using token_forward [OF t(1) assms(2) t(2) [symmetric], of IncludeEnd] assms(1,3) t(2)
    by (simp add: columnVectorIterNext_def col_at_def)
qed

text \<open>
  The loop of a scan over one column vector: read in place, then advance. An iterator on no text
  gives the empty value.
\<close>

fun iter_values :: "nat \<Rightarrow> col_iter \<Rightarrow> string list res" where
  "iter_values 0 it = Inr []"
| "iter_values (Suc n) it =
     bindr (columnVectorIterGetNoCopy it) (\<lambda>r.
       let val = (case r of
                    None \<Rightarrow> []
                  | Some (start, n) \<Rightarrow> take n (drop start (case it_col it of None \<Rightarrow> [] | Some s \<Rightarrow> s)))
       in bindr (iter_values n (snd (snd (columnVectorIterNext it)))) (\<lambda>vals. Inr (val # vals)))"

text \<open>No element contains the character that ends it: the bracket for the last, else the colon.\<close>

definition col_clean :: "string list \<Rightarrow> bool" where
  "col_clean es \<longleftrightarrow>
     (\<forall>k < length es. (if k = length es - 1 then CHR '']'' else CHR '':'') \<notin> set (es ! k))"

lemma iter_values_from:
  assumes "col_clean es" and "int (length es) \<le> INT_MAX" and "k < length es"
  shows "n \<le> length es - k \<Longrightarrow> iter_values n (col_at ty es z k) = Inr (take n (drop k es))"
  using assms(3)
proof (induction n arbitrary: k)
  case (Suc n)
  let ?d = "if k = length es - 1 then CHR '']'' else CHR '':''"
  have c: "?d \<notin> set (es ! k)" using assms(1) Suc.prems(2) by (simp add: col_clean_def)
  have g: "columnVectorIterGetNoCopy (col_at ty es z k) =
      Inr (Some (it_pos (col_at ty es z k), length (es ! k)))"
    "take (length (es ! k)) (drop (it_pos (col_at ty es z k)) (col_text ty es @ z)) = es ! k"
    using col_at_get [OF Suc.prems(2) c] by simp_all
  have t: "it_col (col_at ty es z k) = Some (col_text ty es @ z)" by (simp add: col_at_def)
  have d: "drop k es = es ! k # drop (Suc k) es" using Suc.prems(2) by (simp add: Cons_nth_drop_Suc)
  show ?case
  proof (cases "Suc k < length es")
    case True
    then have "columnVectorIterNext (col_at ty es z k) = (True, False, col_at ty es z (Suc k))"
      using c assms(2) by (intro col_at_next) (auto split: if_splits)
    moreover have "iter_values n (col_at ty es z (Suc k)) = Inr (take n (drop (Suc k) es))"
      using Suc True by simp
    ultimately show ?thesis by (simp add: g t d Let_def del: take_append drop_append)
  next
    case False
    with Suc.prems have "n = 0" by simp
    then show ?thesis by (simp add: g t d Let_def del: take_append drop_append)
  qed
qed simp

text \<open>
  C18. Reading the text of a column vector in place with the iterator yields the elements that
  were written, in order, and never leaves the text, when no element contains the character that
  ends it.
\<close>

theorem column_iterator_yields:
  assumes "vok v (map Some es)" and "int (length es) \<le> INT_MAX" and "col_clean es" and "es \<noteq> []"
  shows "\<exists>text first last. vectorSerialize v = Inr text \<and>
    makeColumnVectorIter (Some text) = Inr (Some (first, last)) \<and>
    iter_values (length es) first = Inr es"
proof -
  have "is_int (int (vtype v))" using assms(1) by (simp add: vok_def is_int_def)
  then show ?thesis
    using vectorSerialize_layout [OF assms(1,2)] makeColumnVectorIter_begin [of "int (vtype v)" es "[]"]
      iter_values_from [OF assms(3,2), of 0 "length es" "int (vtype v)" "[]"] assms(2,4) by auto
qed

definition sample_column :: "string vector" where
  "sample_column = \<lparr>vtype = 1, vdata = Some [Dat (Some ''Dave''), Dat (Some []), Dat (Some ''x:y'')],
     vsize = 3, vcount = 3\<rparr>"

theorem column_iterator_yields_witness:
  "\<exists>text first last. vectorSerialize sample_column = Inr text \<and>
     makeColumnVectorIter (Some text) = Inr (Some (first, last)) \<and>
     iter_values 3 first = Inr [''Dave'', [], ''x:y'']"
proof -
  have "vok sample_column (map Some [''Dave'', [], ''x:y''])" by (simp add: vok_def sample_column_def)
  moreover have "col_clean [''Dave'', [], ''x:y'']"
    by (simp add: col_clean_def nth_Cons split: nat.splits)
  ultimately show ?thesis using column_iterator_yields [of sample_column "[''Dave'', [], ''x:y'']"]
    by (simp add: numeral_3_eq_3 del: iter_values.simps)
qed

section \<open>The parsers\<close>

lemma colon_tok: "print_int n \<noteq> [] \<and> (\<forall>c \<in> set (print_int n). c \<notin> set ''V:T:N:D[]{}'')"
  by (auto dest!: print_int_chars simp: is_digit_def)

lemma deserialize_header_text:
  assumes "is_int ty" and "int n \<le> INT_MAX" and "NUL \<notin> set r"
  shows "deserialize_header (col_header ty n @ r) = Some (ty, int n, ''D:['' @ r)"
proof -
  have 1: "strtok_r ''V:'' (col_header ty n @ r) =
      (Some ''{T'', print_int ty @ '':'' @ ''N:'' @ print_int (int n) @ ''}:D:['' @ r)"
    using strtok_r_token [of "''{T''" "''V:''" "''V:''" "CHR '':''"] by (simp add: col_header_def)
  have 2: "strtok_r ''T:'' (print_int ty @ '':'' @ ''N:'' @ print_int (int n) @ ''}:D:['' @ r) =
      (Some (print_int ty), ''N:'' @ print_int (int n) @ ''}:D:['' @ r)"
    using strtok_r_token [of "print_int ty" "''T:''" "[]" "CHR '':''"] colon_tok [of ty] by simp
  have 3: "strtok_r ''N:'' (''N:'' @ print_int (int n) @ ''}:D:['' @ r) =
      (Some (print_int (int n) @ ''}''), ''D:['' @ r)"
    using strtok_r_token [of "print_int (int n) @ ''}''" "''N:''" "''N:''" "CHR '':''"]
      colon_tok [of "int n"] by simp
  have "atoi (print_int (int n) @ ''}'') = int n"
    using assms(2) by (intro atoi_print_int) (simp_all add: is_digit_def is_int_def)
  then show ?thesis unfolding deserialize_header_def 1 using assms(1) by (simp add: 2 [simplified] 3 [simplified])
qed

text \<open>The elements a parser can read back: non-empty, without the characters it stops at.\<close>

definition plain :: "string \<Rightarrow> bool" where
  "plain e \<longleftrightarrow> e \<noteq> [] \<and> (\<forall>c \<in> set e. c \<notin> set ''D:[]'' \<and> c \<noteq> NUL)"

lemma deserialize_token_middle:
  assumes "\<forall>e \<in> set es. plain e" and "k < length es" and "1 < length es"
  shows "deserialize_token (int k) (int (length es))
      ((if k = 0 then ''D:['' else []) @ join '':'' (drop k es) @ '']'') =
    (Some (es ! k), if Suc k < length es then join '':'' (drop (Suc k) es) @ '']'' else [])"
proof -
  have "drop k es = es ! k # drop (Suc k) es" using assms(2) by (simp add: Cons_nth_drop_Suc)
  then have j: "join '':'' (drop k es) =
      es ! k @ (if Suc k < length es then '':'' @ join '':'' (drop (Suc k) es) else [])"
    by (simp add: join_Cons)
  have e: "es ! k \<noteq> []" "\<forall>c \<in> set (es ! k). c \<notin> set ''D:[]''"
    using assms(1,2) nth_mem [OF assms(2)] unfolding plain_def by blast+
  consider "k = 0" | "0 < k" "Suc k < length es" | "0 < k" "k = length es - 1" "Suc k = length es"
    using assms(2) by linarith
  then show ?thesis
  proof cases
    case 1
    with assms(3) show ?thesis
      using strtok_r_token [of "es ! 0" "''D:[''" "''D:[''" "CHR '':''"] e unfolding j
      by (simp add: deserialize_token_def)
  next
    case 2
    then show ?thesis
      using strtok_r_token [of "es ! k" "'':''" "[]" "CHR '':''"] e unfolding j
      by (auto simp: deserialize_token_def)
  next
    case 3
    then show ?thesis
      using strtok_r_token [of "es ! k" "'']''" "[]" "CHR '']''" "[]"] e unfolding j
      by (simp add: deserialize_token_def)
  qed
qed

lemma deserialize_loop_text:
  assumes "\<forall>e \<in> set es. plain e" and "1 < length es"
  shows "k \<le> length es \<Longrightarrow> vok v (map Some (take k es)) \<Longrightarrow>
    \<exists>v'. deserialize_loop (int k) (int (length es))
        (if k < length es then (if k = 0 then ''D:['' else []) @ join '':'' (drop k es) @ '']'' else []) v =
      Inr (True, v') \<and> vok v' (map Some es) \<and> vtype v' = vtype v"
proof (induction "length es - k" arbitrary: k v)
  case 0
  then show ?case by (subst deserialize_loop.simps) simp
next
  case (Suc n)
  then have k: "k < length es" by simp
  obtain u where u: "vectorAdd v (Some (es ! k)) = Inr (True, u)"
    "vok u (map Some (take k es) @ [Some (es ! k)])" "vtype u = vtype v"
    using vok_add [OF Suc.prems(2)] by blast
  have "vok u (map Some (take (Suc k) es))" using u(2) k by (simp add: take_Suc_conv_app_nth)
  then obtain v' where "deserialize_loop (int (Suc k)) (int (length es))
      (if Suc k < length es then (if Suc k = 0 then ''D:['' else []) @ join '':'' (drop (Suc k) es) @ '']''
       else []) u = Inr (True, v')" "vok v' (map Some es)" "vtype v' = vtype u"
    using Suc.hyps(1) [of "Suc k" u] Suc.hyps(2) k by fastforce
  with k u show ?case
    using deserialize_token_middle [OF assms(1) k assms(2)]
    by (subst deserialize_loop.simps) (cases "Suc k < length es"; simp add: add.commute)
qed

lemma join_chars: "c \<in> set (join sep es) \<Longrightarrow> c \<in> set sep \<or> (\<exists>e \<in> set es. c \<in> set e)"
  by (induction sep es rule: join.induct) auto

lemma cstr_col_text:
  assumes "\<forall>e \<in> set es. plain e"
  shows "cstr (col_text ty es) = col_text ty es"
proof -
  have "NUL \<notin> set (join '':'' es)" using assms join_chars [of NUL "'':''" es] by (auto simp: plain_def)
  then have "NUL \<notin> set (col_text ty es)"
    using colon_not_print_int by (simp add: col_text_def col_header_def)
  then show ?thesis unfolding cstr_def by (intro takeWhile_all) metis
qed

lemma deserialize_col_text:
  assumes "is_int ty" and "int (length es) \<le> INT_MAX" and "\<forall>e \<in> set es. plain e"
  shows "deserialize_header (col_text ty es) = Some (ty, int (length es), ''D:['' @ join '':'' es @ '']'')"
proof -
  have "NUL \<notin> set (join '':'' es @ '']'')"
    using assms(3) join_chars [of NUL "'':''" es] by (auto simp: plain_def)
  then show ?thesis unfolding col_text_def by (rule deserialize_header_text [OF assms(1,2)])
qed

text \<open>
  C33. A column vector of two or more elements comes back from its text: \<open>vectorDeserialize\<close>
  returns \<open>C_OK\<close> and a vector of the same type and elements, when the elements are non-empty
  and contain none of the characters the parser stops at.
\<close>

theorem vectorDeserialize_serialize:
  assumes "vok v (map Some es)" and "int (length es) \<le> INT_MAX" and "\<forall>e \<in> set es. plain e"
    and "1 < length es"
  shows "\<exists>text v'. vectorSerialize v = Inr text \<and> vectorDeserialize (Some text) = Inr (True, Some v') \<and>
    vok v' (map Some es) \<and> vtype v' = vtype v"
proof -
  let ?ty = "int (vtype v)" and ?n = "int (length es)"
  have ty: "is_int ?ty" "nat (?ty mod 4) = vtype v" using assms(1) by (auto simp: vok_def is_int_def)
  have i: "vtype (vectorTypeInitWithSize ?ty (length es) :: string vector) = vtype v"
    using ty(2) by (simp add: vectorTypeInitWithSize_def vectorTypeInit_def)
  obtain v' where l: "deserialize_loop 0 ?n (''D:['' @ join '':'' es @ '']'')
      (vectorTypeInitWithSize ?ty (length es)) = Inr (True, v')" "vok v' (map Some es)" "vtype v' = vtype v"
    using deserialize_loop_text [OF assms(3,4), of 0 "vectorTypeInitWithSize ?ty (length es)"]
      vok_initWithSize [where 'a = string and t = ?ty and sz = "length es"] i assms(4)
    by (fastforce split: if_splits)
  have "vectorDeserialize (Some (col_text ?ty es)) = Inr (True, Some v')"
    using deserialize_col_text [OF ty(1) assms(2,3)] l(1) assms(4)
    by (auto simp: vectorDeserialize_def cstr_col_text [OF assms(3)])
  then show ?thesis using vectorSerialize_layout [OF assms(1,2)] l(2,3) by blast
qed

theorem vectorDeserialize_serialize_witness:
  "\<exists>text v'. vectorSerialize (sample_column\<lparr>vdata := Some [Dat (Some ''ab''), Dat (Some ''7''), Raw],
       vcount := 2\<rparr>) = Inr text \<and>
     vectorDeserialize (Some text) = Inr (True, Some v') \<and> vok v' [Some ''ab'', Some ''7'']"
proof -
  have "vok (sample_column\<lparr>vdata := Some [Dat (Some ''ab''), Dat (Some ''7''), Raw], vcount := 2\<rparr>)
      (map Some [''ab'', ''7''])" by (simp add: vok_def sample_column_def)
  from vectorDeserialize_serialize [OF this] show ?thesis by (simp add: plain_def) blast
qed

text \<open>
  With exactly one element the parser passes the saved pointer where its address is meant:
  on every text of one plain element it writes past the end of its buffer.
\<close>

theorem vectorDeserialize_single_overrun:
  assumes "vok v [Some e]" and "plain e"
  shows "\<exists>text. vectorSerialize v = Inr text \<and> vectorDeserialize (Some text) = Inl OutOfBounds"
proof -
  let ?ty = "int (vtype v)"
  have p: "\<forall>e \<in> set [e]. plain e" using assms(2) by simp
  have ty: "is_int ?ty" using assms(1) by (simp add: vok_def is_int_def)
  have "strtok_r ''D:['' (''D:['' @ e @ '']'') = (Some (e @ '']''), [])"
    using strtok_r_last [of "e @ '']''" "''D:[''" "''D:[''"] assms(2) by (auto simp: plain_def)
  then have "vectorDeserialize (Some (col_text ?ty [e])) = Inl OutOfBounds"
    using deserialize_col_text [OF ty _ p]
    by (simp add: vectorDeserialize_def cstr_col_text [OF p] deserialize_single_def)
  then show ?thesis using vectorSerialize_layout [of v "[e]"] assms(1) by auto
qed

theorem vectorDeserialize_single_overrun_witness:
  "\<exists>text. vectorSerialize (sample_column\<lparr>vcount := 1, vdata := Some [Dat (Some ''x''), Raw, Raw]\<rparr>) = Inr text \<and>
     vectorDeserialize (Some text) = Inl OutOfBounds"
proof -
  have "vok (sample_column\<lparr>vcount := 1, vdata := Some [Dat (Some ''x''), Raw, Raw]\<rparr>) [Some ''x'']"
    by (simp add: vok_def sample_column_def)
  from vectorDeserialize_single_overrun [OF this] show ?thesis by (simp add: plain_def)
qed

text \<open>
  The data prefix is a set of delimiters to \<open>strtok_r\<close>: the vector of \<open>Dave\<close> and \<open>Eve\<close>
  comes back as \<open>ave\<close> and \<open>Eve\<close>, and an empty element disappears.
\<close>

theorem vectorDeserialize_loses_prefix:
  "map_sum (\<lambda>x. x) (\<lambda>(rc, v). (rc, map_option (\<lambda>v. vdata v) v))
     (vectorDeserialize (Some (col_text 1 [''Dave'', ''Eve'']))) =
   Inr (True, Some (Some [Dat (Some ''ave''), Dat (Some ''Eve'')])) \<and>
   map_sum (\<lambda>x. x) fst (vectorDeserialize (Some (col_text 1 [''a'', [], ''b'']))) = Inr False"
  by code_simp

end
