(* ===== verification/Sds.thy ===== *)
theory Sds
  imports Util
begin

text \<open>
  Dynamic strings (\<open>src/src/sds.c\<close>) as byte lists: substrings, trimming, comparison, splitting
  and joining, quoting and the splitting of a command line into arguments. Splitting a joined
  list and parsing a quoted string give back what was put in.
\<close>

section \<open>Definitions\<close>

subsection \<open>Growing, trimming and substrings\<close>

definition sdsgrowzero :: "string \<Rightarrow> nat \<Rightarrow> string" where
  "sdsgrowzero s len = (if len \<le> length s then s else s @ replicate (len - length s) NUL)"

text \<open>\<open>strchr (cset, c)\<close> also finds the terminating NUL.\<close>

definition in_cset :: "string \<Rightarrow> char \<Rightarrow> bool" where
  "in_cset cset c \<longleftrightarrow> c \<in> set (cstr cset) \<or> c = NUL"

text \<open>The two loops move \<open>sp\<close> forwards and \<open>ep\<close> backwards; \<open>ep\<close> is the number of bytes up to and
  including the last one that stays.\<close>

function trim_left :: "string \<Rightarrow> string \<Rightarrow> nat \<Rightarrow> nat" where
  "trim_left s cset sp = (if sp < length s \<and> in_cset cset (s ! sp) then trim_left s cset (sp + 1) else sp)"
  by pat_completeness auto
termination
  by (relation "measure (\<lambda>(s, _, sp). length s - sp)") auto

fun trim_right :: "string \<Rightarrow> string \<Rightarrow> nat \<Rightarrow> nat \<Rightarrow> nat" where
  "trim_right s cset sp 0 = 0"
| "trim_right s cset sp (Suc e) =
     (if e > sp \<and> in_cset cset (s ! e) then trim_right s cset sp e else Suc e)"

declare trim_left.simps [simp del]

definition sdstrim :: "string \<Rightarrow> string \<Rightarrow> string" where
  "sdstrim s cset =
     (let sp = trim_left s cset 0;
          ep = trim_right s cset sp (length s)
      in if sp \<ge> ep then [] else take (ep - sp) (drop sp s))"

definition sdsrange :: "string \<Rightarrow> int \<Rightarrow> int \<Rightarrow> string" where
  "sdsrange s start stop =
     (let len = int (length s)
      in if len = 0 then s
         else
           let start = (if start < 0 then max 0 (len + start) else start);
               stop = (if stop < 0 then max 0 (len + stop) else stop);
               newlen = (if start > stop then 0 else stop - start + 1)
           in if newlen \<noteq> 0 then
                if start \<ge> len then []
                else if stop \<ge> len then
                  let stop = len - 1;
                      newlen = (if start > stop then 0 else stop - start + 1)
                  in take (nat newlen) (drop (nat start) s)
                else take (nat newlen) (drop (nat start) s)
              else [])"

subsection \<open>Comparison\<close>

fun memcmp :: "string \<Rightarrow> string \<Rightarrow> int" where
  "memcmp (a # s) (b # t) =
     (if a = b then memcmp s t else int (of_char a :: nat) - int (of_char b :: nat))"
| "memcmp _ _ = 0"

definition sdscmp :: "string \<Rightarrow> string \<Rightarrow> int" where
  "sdscmp s1 s2 =
     (let l1 = length s1;
          l2 = length s2;
          minlen = (if l1 < l2 then l1 else l2);
          cmp = memcmp (take minlen s1) (take minlen s2)
      in if cmp = 0 then c_int (int l1 - int l2) else cmp)"

definition sdsmapchars :: "string \<Rightarrow> string \<Rightarrow> string \<Rightarrow> string" where
  "sdsmapchars s from to =
     map (\<lambda>c. case map_of (zip from to) c of None \<Rightarrow> c | Some d \<Rightarrow> d) s"

subsection \<open>Splitting and joining\<close>

text \<open>\<open>cur\<close> is the text since \<open>start\<close>; a text shorter than the separator ends the loop.\<close>

function split_loop :: "string \<Rightarrow> string \<Rightarrow> string \<Rightarrow> string list" where
  "split_loop sep cur s =
     (if sep = [] \<or> length s < length sep then [cur @ s]
      else if take (length sep) s = sep then cur # split_loop sep [] (drop (length sep) s)
      else split_loop sep (cur @ [hd s]) (tl s))"
  by pat_completeness auto
termination
  by (relation "measure (\<lambda>(_, _, s). length s)") (auto simp: neq_Nil_conv)

declare split_loop.simps [simp del]

text \<open>Nothing is the null return.\<close>

definition sdssplitlen :: "string \<Rightarrow> string \<Rightarrow> string list option" where
  "sdssplitlen s sep =
     (if length sep < 1 then None
      else if s = [] then Some []
      else Some (split_loop sep [] s))"

definition sdssplit :: "string \<Rightarrow> string \<Rightarrow> string list option" where
  "sdssplit s sep = sdssplitlen s (cstr sep)"

fun join_loop :: "string list \<Rightarrow> string \<Rightarrow> string \<Rightarrow> string" where
  "join_loop [] sep acc = acc"
| "join_loop [t] sep acc = acc @ t"
| "join_loop (t # u # ts) sep acc = join_loop (u # ts) sep (acc @ t @ sep)"

definition sdsjoin :: "string list \<Rightarrow> string \<Rightarrow> string" where
  "sdsjoin argv sep = join_loop (map cstr argv) (cstr sep) []"

definition sdsjoinsds :: "string list \<Rightarrow> string \<Rightarrow> string" where
  "sdsjoinsds argv sep = join_loop argv sep []"

subsection \<open>Quoting\<close>

abbreviation (input) BSL :: char where "BSL \<equiv> CHR 0x5C"
abbreviation (input) DQ :: char where "DQ \<equiv> CHR 0x22"
abbreviation (input) SQ :: char where "SQ \<equiv> CHR 0x27"

definition is_print :: "char \<Rightarrow> bool" where
  "is_print c \<longleftrightarrow> 32 \<le> (of_char c :: nat) \<and> (of_char c :: nat) \<le> 126"

definition hex_char :: "nat \<Rightarrow> char" where
  "hex_char d = (if d < 10 then char_of (48 + d) else char_of (87 + d))"

definition repr_char :: "char \<Rightarrow> string" where
  "repr_char c =
     (if c = BSL \<or> c = DQ then [BSL, c]
      else if c = CHR 0x0A then [BSL, CHR ''n'']
      else if c = CHR 0x0D then [BSL, CHR ''r'']
      else if c = CHR 0x09 then [BSL, CHR ''t'']
      else if c = CHR 0x07 then [BSL, CHR ''a'']
      else if c = CHR 0x08 then [BSL, CHR ''b'']
      else if is_print c then [c]
      else [BSL, CHR ''x'', hex_char (of_char c div 16), hex_char (of_char c mod 16)])"

definition sdscatrepr :: "string \<Rightarrow> string \<Rightarrow> string" where
  "sdscatrepr s p = s @ [DQ] @ concat (map repr_char p) @ [DQ]"

definition is_hex_digit :: "char \<Rightarrow> bool" where
  "is_hex_digit c \<longleftrightarrow>
     (let n = (of_char c :: nat) in 48 \<le> n \<and> n \<le> 57 \<or> 97 \<le> n \<and> n \<le> 102 \<or> 65 \<le> n \<and> n \<le> 70)"

definition hex_digit_to_int :: "char \<Rightarrow> nat" where
  "hex_digit_to_int c =
     (let n = (of_char c :: nat)
      in if 48 \<le> n \<and> n \<le> 57 then n - 48
         else if 97 \<le> n \<and> n \<le> 102 then n - 87
         else if 65 \<le> n \<and> n \<le> 70 then n - 55
         else 0)"

datatype quote_mode = Plain | InQ | InSQ

definition hex_escape :: "string \<Rightarrow> bool" where
  "hex_escape p \<longleftrightarrow> (case p of x # a # b # _ \<Rightarrow> x = CHR ''x'' \<and> is_hex_digit a \<and> is_hex_digit b | _ \<Rightarrow> False)"

definition unescape :: "char \<Rightarrow> char" where
  "unescape c =
     (if c = CHR ''n'' then CHR 0x0A
      else if c = CHR ''r'' then CHR 0x0D
      else if c = CHR ''t'' then CHR 0x09
      else if c = CHR ''b'' then CHR 0x08
      else if c = CHR ''a'' then CHR 0x07
      else c)"

text \<open>
  One argument from the position on, with what follows it; nothing on unbalanced quotes and on a
  closing quote that a blank does not follow. The end of the list is the NUL of the line.
\<close>

function split_token :: "quote_mode \<Rightarrow> string \<Rightarrow> string \<Rightarrow> (string \<times> string) option" where
  "split_token Plain cur [] = Some (cur, [])"
| "split_token InQ cur [] = None"
| "split_token InSQ cur [] = None"
| "split_token InQ cur (c # p) =
     (if c = BSL \<and> hex_escape p then
        split_token InQ (cur @ [char_of (hex_digit_to_int (p ! 1) * 16 + hex_digit_to_int (p ! 2))]) (drop 3 p)
      else if c = BSL \<and> p \<noteq> [] then split_token InQ (cur @ [unescape (hd p)]) (tl p)
      else if c = DQ then (if p \<noteq> [] \<and> \<not> is_space (hd p) then None else Some (cur, p))
      else split_token InQ (cur @ [c]) p)"
| "split_token InSQ cur (c # p) =
     (if c = BSL \<and> p \<noteq> [] \<and> hd p = SQ then split_token InSQ (cur @ [SQ]) (tl p)
      else if c = SQ then (if p \<noteq> [] \<and> \<not> is_space (hd p) then None else Some (cur, p))
      else split_token InSQ (cur @ [c]) p)"
| "split_token Plain cur (c # p) =
     (if c \<in> {CHR '' '', CHR 0x0A, CHR 0x0D, CHR 0x09} then Some (cur, p)
      else if c = DQ then split_token InQ cur p
      else if c = SQ then split_token InSQ cur p
      else split_token Plain (cur @ [c]) p)"
  by pat_completeness auto
termination
  by (relation "measure (\<lambda>(_, _, p). length p)") auto

declare split_token.simps [simp del]

lemma split_token_shorter: "split_token m cur p = Some (t, r) \<Longrightarrow> length r \<le> length p - 1"
proof (induction m cur p rule: split_token.induct)
  case (4 cur c p)
  consider "c = BSL \<and> hex_escape p" | "\<not> (c = BSL \<and> hex_escape p)" "c = BSL \<and> p \<noteq> []"
    | "\<not> (c = BSL \<and> hex_escape p)" "\<not> (c = BSL \<and> p \<noteq> [])" "c = DQ"
    | "\<not> (c = BSL \<and> hex_escape p)" "\<not> (c = BSL \<and> p \<noteq> [])" "c \<noteq> DQ" by blast
  then show ?case
  proof cases
    case 1
    with "4.IH"(1) "4.prems" show ?thesis by (simp only: split_token.simps if_True) simp
  next
    case 2
    with "4.IH"(2) "4.prems" show ?thesis by (simp only: split_token.simps if_True if_False) simp
  next
    case 3
    with "4.prems" show ?thesis by (simp only: split_token.simps if_True if_False) (simp split: if_splits)
  next
    case 4
    with "4.IH"(3) "4.prems" show ?thesis by (simp only: split_token.simps if_False) simp
  qed
next
  case (5 cur c p)
  consider "c = BSL \<and> p \<noteq> [] \<and> hd p = SQ" | "\<not> (c = BSL \<and> p \<noteq> [] \<and> hd p = SQ)" "c = SQ"
    | "\<not> (c = BSL \<and> p \<noteq> [] \<and> hd p = SQ)" "c \<noteq> SQ" by blast
  then show ?case
  proof cases
    case 1
    with "5.IH"(1) "5.prems" show ?thesis by (simp only: split_token.simps if_True) simp
  next
    case 2
    with "5.prems" show ?thesis by (simp only: split_token.simps if_True if_False) (simp split: if_splits)
  next
    case 3
    with "5.IH"(2) "5.prems" show ?thesis by (simp only: split_token.simps if_False) simp
  qed
next
  case (6 cur c p)
  let ?b = "c \<in> {CHR '' '', CHR 0x0A, CHR 0x0D, CHR 0x09}"
  consider ?b | "\<not> ?b" "c = DQ" | "\<not> ?b" "c \<noteq> DQ" "c = SQ" | "\<not> ?b" "c \<noteq> DQ" "c \<noteq> SQ" by blast
  then show ?case
  proof cases
    case 1
    with "6.prems" show ?thesis by (simp only: split_token.simps if_True) simp
  next
    case 2
    with "6.IH"(1) "6.prems" show ?thesis by (simp only: split_token.simps if_True if_False) simp
  next
    case 3
    with "6.IH"(2) "6.prems" show ?thesis by (simp only: split_token.simps if_True if_False) simp
  next
    case 4
    with "6.IH"(3) "6.prems" show ?thesis by (simp only: split_token.simps if_False) simp
  qed
qed (simp_all add: split_token.simps)

function split_args :: "string \<Rightarrow> string list option" where
  "split_args p =
     (let p' = dropWhile is_space p
      in if p' = [] then Some []
         else
           (case split_token Plain [] p' of
              None \<Rightarrow> None
            | Some (t, r) \<Rightarrow> map_option (Cons t) (split_args r)))"
  by pat_completeness auto
termination
proof (relation "measure length")
  fix p p' :: string and x t r
  assume "p' = dropWhile is_space p" "p' \<noteq> []" "split_token Plain [] p' = Some x" "(t, r) = x"
  then have "length r \<le> length p' - 1" "p' \<noteq> []" "length p' \<le> length p"
    using split_token_shorter [of Plain "[]" p' t r] by (simp_all add: length_dropWhile_le)
  then have "length r < length p" by (cases p') auto
  then show "(r, p) \<in> measure length" by simp
qed simp

declare split_args.simps [simp del]

definition sdssplitargs :: "string \<Rightarrow> string list option" where
  "sdssplitargs line = split_args (cstr line)"

section \<open>Joining and splitting\<close>

lemma join_loop_join: "join_loop ts sep acc = acc @ join sep ts"
  by (induction ts sep acc rule: join_loop.induct) (simp_all add: join_Cons)

lemma split_loop_token:
  assumes "c \<notin> set t"
  shows "split_loop [c] cur (t @ c # r) = (cur @ t) # split_loop [c] [] r"
  using assms
proof (induction t arbitrary: cur)
  case Nil
  show ?case by (subst split_loop.simps) simp
next
  case (Cons d t)
  then show ?case by (subst split_loop.simps) auto
qed

lemma split_loop_last: "c \<notin> set t \<Longrightarrow> split_loop [c] cur t = [cur @ t]"
proof (induction t arbitrary: cur)
  case Nil
  show ?case by (subst split_loop.simps) simp
next
  case (Cons d t)
  then show ?case by (subst split_loop.simps) auto
qed

lemma split_loop_join:
  assumes "xs \<noteq> []" and "\<forall>x \<in> set xs. c \<notin> set x"
  shows "split_loop [c] cur (join [c] xs) = (cur @ hd xs) # tl xs"
  using assms
proof (induction xs arbitrary: cur)
  case (Cons x xs)
  show ?case
  proof (cases "xs = []")
    case True
    with Cons show ?thesis by (simp add: split_loop_last join_Cons)
  next
    case False
    with Cons show ?thesis by (simp add: split_loop_token join_Cons)
  qed
qed simp

lemma join_eq_Nil: "join [c] xs = [] \<longleftrightarrow> xs = [] \<or> xs = [[]]"
  by (cases xs) (auto simp: join_Cons)

text \<open>Splitting at a character undoes joining with it; the empty text has no part.\<close>

lemma sdssplit_join:
  assumes "\<forall>x \<in> set xs. c \<notin> set x" and "c \<noteq> NUL" and "xs \<noteq> [[]]"
  shows "sdssplit (sdsjoinsds xs [c]) [c] = Some xs"
proof -
  have "cstr [c] = [c]" using assms(2) by (simp add: cstr_def)
  then show ?thesis
    using split_loop_join [of xs c "[]"] assms(1,3) join_eq_Nil [of c xs]
    by (cases "xs = []") (auto simp: sdssplit_def sdssplitlen_def sdsjoinsds_def join_loop_join)
qed

section \<open>Trimming\<close>

lemma trim_left_eq: "sp \<le> length s \<Longrightarrow> drop (trim_left s cset sp) s = dropWhile (in_cset cset) (drop sp s) \<and>
    sp \<le> trim_left s cset sp \<and> trim_left s cset sp \<le> length s"
proof (induction s cset sp rule: trim_left.induct)
  case (1 s cset sp)
  show ?case
  proof (cases "sp < length s \<and> in_cset cset (s ! sp)")
    case True
    then have "drop sp s = s ! sp # drop (Suc sp) s" by (simp add: Cons_nth_drop_Suc)
    with True 1 show ?thesis by (subst (1 2 3) trim_left.simps) auto
  next
    case False
    have "dropWhile (in_cset cset) (drop sp s) = drop sp s"
    proof (cases "sp < length s")
      case True
      with False show ?thesis by (intro dropWhile_hd_keep) (auto simp: hd_drop_conv_nth)
    qed simp
    with False 1(2) show ?thesis by (subst (1 2 3) trim_left.simps) auto
  qed
qed

lemma trim_right_eq:
  assumes "e \<le> length s" and "sp < e" and "\<not> in_cset cset (s ! sp)"
  shows "trim_right s cset sp e > sp \<and>
    take (trim_right s cset sp e - sp) (drop sp s) = rev (dropWhile (in_cset cset) (rev (take (e - sp) (drop sp s))))"
  using assms(1,2)
proof (induction e)
  case (Suc e)
  have t: "take (Suc e - sp) (drop sp s) = take (e - sp) (drop sp s) @ [s ! e]"
    using Suc.prems by (simp add: Suc_diff_le take_Suc_conv_app_nth)
  show ?case
  proof (cases "e > sp \<and> in_cset cset (s ! e)")
    case True
    with Suc t show ?thesis by simp
  next
    case False
    then have "\<not> in_cset cset (s ! e)" using assms(3) Suc.prems(2) by (cases "e = sp") auto
    with False Suc.prems t show ?thesis by auto
  qed
qed simp


section \<open>Quoting and parsing\<close>

lemma hex_char_props:
  assumes "d < 16"
  shows "is_hex_digit (hex_char d) \<and> hex_digit_to_int (hex_char d) = d \<and> hex_char d \<noteq> NUL"
proof -
  have n: "(of_char (hex_char d) :: nat) = (if d < 10 then 48 + d else 87 + d)"
    using assms by (simp add: hex_char_def)
  then have "(of_char (hex_char d) :: nat) \<noteq> of_char NUL" by simp
  then have "hex_char d \<noteq> NUL" by metis
  with assms show ?thesis by (auto simp: is_hex_digit_def hex_digit_to_int_def Let_def n)
qed

lemma not_hex_escape: "c \<noteq> CHR ''x'' \<Longrightarrow> \<not> hex_escape (c # t)"
  by (auto simp: hex_escape_def split: list.splits)

lemma split_token_escape:
  "c \<noteq> CHR ''x'' \<Longrightarrow> split_token InQ cur (BSL # c # t) = split_token InQ (cur @ [unescape c]) t"
  by (subst split_token.simps) (simp add: not_hex_escape)

lemma split_token_hex:
  "a < 16 \<Longrightarrow> b < 16 \<Longrightarrow> split_token InQ cur (BSL # CHR ''x'' # hex_char a # hex_char b # t) =
     split_token InQ (cur @ [char_of (a * 16 + b)]) t"
  by (subst split_token.simps) (simp add: hex_escape_def hex_char_props)

lemma split_token_repr: "split_token InQ cur (repr_char c @ t) = split_token InQ (cur @ [c]) t"
proof -
  consider "c = BSL \<or> c = DQ" | "c = CHR 0x0A" | "c = CHR 0x0D" | "c = CHR 0x09" | "c = CHR 0x07" | "c = CHR 0x08"
    | "c \<notin> {BSL, DQ, CHR 0x0A, CHR 0x0D, CHR 0x09, CHR 0x07, CHR 0x08}" by blast
  then show ?thesis
  proof cases
    case 1
    then show ?thesis by (auto simp: repr_char_def split_token_escape unescape_def)
  next
    case 7
    show ?thesis
    proof (cases "is_print c")
      case True
      with 7 show ?thesis by (simp add: repr_char_def) (subst split_token.simps, simp)
    next
      case False
      have "(of_char c :: nat) < 256" by (rule nat_of_char_less_256)
      then have "of_char c div 16 < (16 :: nat)" by linarith
      moreover have "char_of (of_char c div 16 * 16 + of_char c mod (16 :: nat)) = c" by simp
      ultimately have "split_token InQ cur (BSL # CHR ''x'' # hex_char (of_char c div 16) #
          hex_char (of_char c mod 16) # t) = split_token InQ (cur @ [c]) t"
        using split_token_hex [of "of_char c div 16" "of_char c mod 16" cur t] by simp
      with 7 False show ?thesis by (simp add: repr_char_def)
    qed
  qed (simp_all add: repr_char_def split_token_escape unescape_def)
qed

lemma split_token_body:
  "split_token InQ cur (concat (map repr_char s) @ DQ # r) =
     (if r \<noteq> [] \<and> \<not> is_space (hd r) then None else Some (cur @ s, r))"
proof (induction s arbitrary: cur)
  case Nil
  show ?case by (simp add: split_token.simps(4))
next
  case (Cons c s)
  then show ?case by (simp add: split_token_repr)
qed

lemma split_token_quoted:
  "r = [] \<or> is_space (hd r) \<Longrightarrow> split_token Plain [] (sdscatrepr [] s @ r) = Some (s, r)"
  by (simp add: sdscatrepr_def, subst split_token.simps) (use split_token_body [of "[]" s r] in auto)

lemma repr_no_nul: "NUL \<notin> set (sdscatrepr [] s)"
proof -
  have "NUL \<notin> set (repr_char c)" for c
  proof -
    have "(of_char c :: nat) div 16 < 16" using nat_of_char_less_256 [of c] by linarith
    then have "hex_char (of_char c div 16) \<noteq> NUL" "hex_char (of_char c mod 16) \<noteq> NUL"
      using hex_char_props by simp_all
    then show ?thesis by (auto simp: repr_char_def is_print_def)
  qed
  then show ?thesis by (simp add: sdscatrepr_def)
qed

lemma split_args_blank: "split_args (CHR '' '' # p) = split_args p"
  by (subst (1 2) split_args.simps) (simp add: is_space_def)

lemma split_args_quoted: "split_args (join '' '' (map (sdscatrepr []) xs)) = Some xs"
proof (induction xs)
  case Nil
  show ?case by (subst split_args.simps) simp
next
  case (Cons x xs)
  define r where "r = (if xs = [] then [] else CHR '' '' # join '' '' (map (sdscatrepr []) xs))"
  have j: "join '' '' (map (sdscatrepr []) (x # xs)) = sdscatrepr [] x @ r"
    by (simp add: r_def join_Cons)
  have rest: "split_args r = Some xs"
    using Cons split_args_blank by (simp add: r_def) (subst split_args.simps, simp)
  have "r = [] \<or> is_space (hd r)" by (simp add: r_def is_space_def)
  then have t: "split_token Plain [] (sdscatrepr [] x @ r) = Some (x, r)" by (rule split_token_quoted)
  have "dropWhile is_space (sdscatrepr [] x @ r) = sdscatrepr [] x @ r"
    by (simp add: sdscatrepr_def is_space_def)
  then show ?case
    unfolding j by (subst split_args.simps) (use t rest in \<open>simp add: sdscatrepr_def\<close>)
qed

text \<open>
  C29. A command line made of quoted strings separated by blanks is split into exactly these
  strings, whatever bytes they contain.
\<close>

theorem sdssplitargs_repr: "sdssplitargs (join '' '' (map (sdscatrepr []) xs)) = Some xs"
proof -
  have "NUL \<notin> set (join '' '' (map (sdscatrepr []) xs))"
  proof (induction xs)
    case (Cons x xs)
    then show ?case using repr_no_nul [of x] by (simp add: join_Cons)
  qed simp
  then have "cstr (join '' '' (map (sdscatrepr []) xs)) = join '' '' (map (sdscatrepr []) xs)"
    unfolding cstr_def by (intro takeWhile_all) metis
  then show ?thesis by (simp add: sdssplitargs_def split_args_quoted)
qed

end
