(* ===== verification/Store.thy ===== *)
theory Store
  imports Meta ColVec Sds
begin

text \<open>
  Writing and scanning relations (\<open>src/src/addb_table.c\<close>, \<open>src/src/addb_relational.c\<close>):
  \<open>FPWRITE\<close> appends rows to the current row group of a partition, column by column, in vectors of
  a fixed number of rows, and opens a new row group when the current one is full or no longer only
  in memory. \<open>FPSCAN\<close> reads the chosen columns of all row groups, from memory or from the texts
  in the persistent store.
\<close>

section \<open>Writing\<close>

text \<open>
  The two string objects that stand for a missing and an empty value, by their reference count:
  they are created once, and released when the count reaches zero.
\<close>

record shared_objects =
  nullValue :: nat
  emptyString :: nat

definition createSharedObjects :: shared_objects where
  "createSharedObjects = \<lparr>nullValue = 1, emptyString = 1\<rparr>"

definition decr_shared :: "nat \<Rightarrow> nat res" where
  "decr_shared n = (if n = 0 then Inl UseAfterFree else Inr (n - 1))"

text \<open>
  The value that is stored for an argument, and the reference counts after the release of the
  object at the end of the turn. The text of the empty value is the empty text.
\<close>

definition value_object :: "shared_objects \<Rightarrow> string \<Rightarrow> (string \<times> shared_objects) res" where
  "value_object sh v =
     (if cstr v = ''null'' then
        bindr (decr_shared (nullValue sh)) (\<lambda>n. Inr (''null'', sh\<lparr>nullValue := n\<rparr>))
      else if cstr v = [] \<or> hd v = CHR '' '' then
        bindr (decr_shared (emptyString sh)) (\<lambda>n. Inr ([], sh\<lparr>emptyString := n\<rparr>))
      else Inr (v, sh))"

text \<open>The dictionary of a row group; a hash of another encoding is not a dictionary of vectors.\<close>

definition relation_of :: "robj \<Rightarrow> relation res" where
  "relation_of v = (case val v of HashObj (OBJ_ENCODING_REL r) \<Rightarrow> Inr r | _ \<Rightarrow> Inl OutOfBounds)"

text \<open>Appending to the vector of a field, which is created when there is none.\<close>

definition insert_value :: "relation \<Rightarrow> string \<Rightarrow> string \<Rightarrow> relation res" where
  "insert_value r field v =
     (case map_of r field of
        None \<Rightarrow>
          bindr (vectorAdd (vectorTypeInit (int STL_TYPE_SDS)) (Some v)) (\<lambda>(_, vec).
            let (added, r) = al_add r field vec in if added then Inr r else Inl ServerPanic)
      | Some vec \<Rightarrow>
          bindr (vectorAdd vec (Some v)) (\<lambda>(_, vec). Inr (AList.update field vec r)))"

definition insertKVpairToRelational ::
  "'ps rocks_get \<Rightarrow> server \<Rightarrow> 'ps redisDb \<Rightarrow> string \<Rightarrow> string \<Rightarrow> string \<Rightarrow> (bool \<times> 'ps redisDb) res" where
  "insertKVpairToRelational rget srv db dataKey field v =
     bindr (lookupDictAndGetHashdictObj rget srv db dataKey) (\<lambda>(init, db).
       case map_of (ddict db) dataKey of
         None \<Rightarrow> Inl ServerPanic
       | Some (a, obj) \<Rightarrow>
           bindr (relation_of obj) (\<lambda>r.
             bindr (insert_value r field v) (\<lambda>r.
               Inr (init, put_entry db a (\<lambda>obj. obj\<lparr>val := HashObj (OBJ_ENCODING_REL r)\<rparr>)))))"

text \<open>Whether the first vector of the first column is missing.\<close>

definition checkEnqueue :: "'ps rocks_get \<Rightarrow> server \<Rightarrow> 'ps redisDb \<Rightarrow> string \<Rightarrow> (bool \<times> 'ps redisDb) res" where
  "checkEnqueue rget srv db dataKey =
     bindr (lookupDictForcheckEnqueue rget srv db dataKey) (\<lambda>(h, db).
       case h of
         None \<Rightarrow> Inl AssertFailed
       | Some (OBJ_ENCODING_REL r) \<Rightarrow> Inr (map_of r (getDataField 1 1) = None, db)
       | Some _ \<Rightarrow> Inl OutOfBounds)"

abbreviation (input) MAX_COLUMN_NUMBER :: int where "MAX_COLUMN_NUMBER \<equiv> 100"

text \<open>
  The loop over the values of the command: \<open>idx\<close> counts them, \<open>enroll\<close> is set when the row group
  is to be queued.
\<close>

fun write_values ::
  "'ps rocks_get \<Rightarrow> server \<Rightarrow> string \<Rightarrow> int \<Rightarrow> int \<Rightarrow> int \<Rightarrow> int \<Rightarrow> string list \<Rightarrow> shared_objects \<Rightarrow>
   'ps redisDb \<Rightarrow> (int \<times> shared_objects \<times> 'ps redisDb) res" where
  "write_values rget srv dataKey rown column_number idx enroll [] sh db = Inr (enroll, sh, db)"
| "write_values rget srv dataKey rown column_number idx enroll (v # vs) sh db =
     bindr (c_div idx column_number) (\<lambda>q.
       bindr (c_mod idx column_number) (\<lambda>c.
         let row_idx = c_int (rown + q + 1);
             column_idx = c + 1
         in bindr (c_div (row_idx - 1) (columnvector_size srv)) (\<lambda>cv.
              let columnvector_idx = cv + 1
              in assertr (column_idx \<le> MAX_COLUMN_NUMBER)
                   (bindr (value_object sh v) (\<lambda>(v, sh).
                      bindr (insertKVpairToRelational rget srv db dataKey
                               (getDataField columnvector_idx column_idx) v) (\<lambda>(init, db).
                        write_values rget srv dataKey rown column_number (idx + 1)
                          (if init then enroll + 1 else enroll) vs sh db))))))"

text \<open>A new row group when the old one is not only in memory any more.\<close>

definition next_group_if_tiered ::
  "server \<Rightarrow> string \<Rightarrow> 'ps redisDb \<Rightarrow> data_key_info \<Rightarrow> int \<Rightarrow> bool \<Rightarrow> (string \<times> int \<times> data_key_info \<times> 'ps redisDb) res" where
  "next_group_if_tiered srv b db info rown enrolled =
     bindr (generateDataKey b info) (\<lambda>dataKey.
       let tiered = (case map_of (ddict db) dataKey of
                       Some (a, v) \<Rightarrow> loc v \<noteq> LOCATION_REDIS_ONLY \<and> \<not> enrolled
                     | None \<Rightarrow> rown \<noteq> 0 \<and> \<not> enrolled)
       in if tiered then
            bindr (IncRowgroupIdAndModifyInfo srv b db info 1) (\<lambda>(_, info, db).
              bindr (generateDataKey b info) (\<lambda>dataKey. Inr (dataKey, 0, info, db)))
          else Inr (dataKey, rown, info, db))"

datatype reply = ReplyOk | ReplyError | ReplyBulks "string list"

text \<open>The end of the command: the row counter, and the row group enters the eviction queue.\<close>

definition finish_write ::
  "server \<Rightarrow> string \<Rightarrow> 'ps redisDb \<Rightarrow> data_key_info \<Rightarrow> string \<Rightarrow> int \<Rightarrow> int \<Rightarrow> int \<Rightarrow> 'ps redisDb res" where
  "finish_write srv b db info dataKey values column_number enroll =
     bindr (c_div values column_number) (\<lambda>insertedRow.
       bindr (incRowNumber srv b db info (c_int insertedRow)) (\<lambda>(_, db).
         if enroll \<noteq> 0 then
           bindr (enqueue (EvictQueue db) (map_option fst (map_of (ddict db) dataKey))) (\<lambda>(ok, q).
             assertr (ok \<noteq> 0) (Inr (db\<lparr>EvictQueue := q\<rparr>)))
         else Inr db))"

text \<open>
  \<open>argv\<close> are the arguments after the name of the command: key, partition, number of columns, index
  column and the values. \<open>b\<close> is the uninitialised buffer of the key generators.
\<close>

definition fpWriteCommand ::
  "'ps rocks_get \<Rightarrow> server \<Rightarrow> string \<Rightarrow> string list \<Rightarrow> shared_objects \<Rightarrow> 'ps redisDb \<Rightarrow>
   (reply \<times> shared_objects \<times> 'ps redisDb) res" where
  "fpWriteCommand rget srv b argv sh db =
     (case argv of
        key # _ # cols # _ # values \<Rightarrow>
          bindr (parsingDataKeyInfo (Some key)) (\<lambda>parsed.
            let column_number = atoi cols;
                value_num = int (length values)
            in assertr (column_number \<le> MAX_COLUMN_NUMBER)
                 (bindr (c_mod value_num column_number) (\<lambda>rest.
                    if rest \<noteq> 0 then Inr (ReplyError, sh, db)
                    else bindr (deref parsed) (\<lambda>info.
                      bindr (getRowgroupInfo srv b db info) (\<lambda>(_, info, db).
                        bindr (getRowNumberInfoAndSetRowNumberInfo db info) (\<lambda>(rown, info).
                          bindr (if rown = 0
                                 then bindr (incRowNumber srv b db info 0) (\<lambda>(_, db). Inr db)
                                 else Inr db) (\<lambda>db.
                            bindr (if rown \<ge> rowgroup_size srv
                                   then bindr (IncRowgroupIdAndModifyInfo srv b db info 1) (\<lambda>(_, info, db).
                                          Inr (0, True, info, db))
                                   else Inr (rown, False, info, db)) (\<lambda>(rown, full, info, db).
                              bindr (next_group_if_tiered srv b db info rown full)
                                (\<lambda>(dataKey, rown, info, db).
                                assertr (0 \<le> rown \<and> rown \<le> rowgroup_size srv)
                                  (bindr (write_values rget srv dataKey rown column_number 0
                                            (if full then 1 else 0) values sh db) (\<lambda>(enroll, sh, db).
                                     bindr (finish_write srv b db info dataKey value_num column_number enroll)
                                       (\<lambda>db. Inr (ReplyOk, sh, db)))))))))))))
      | _ \<Rightarrow> Inl OutOfBounds)"

section \<open>Scanning\<close>

text \<open>The column ids as numbers; the texts are only logged.\<close>

definition parseColumnParameter :: "string \<Rightarrow> int list res" where
  "parseColumnParameter rawColumnIdsString =
     (case sdssplit (cstr rawColumnIdsString) '','' of
        None \<Rightarrow> Inl ServerPanic
      | Some tokens \<Rightarrow> if tokens = [] then Inl ServerPanic else Inr (map atoi tokens))"

record row_group_param =
  dictObj :: "robj option"
  isInRocksDb :: bool
  rowCount :: nat

record scan_param =
  totalRowGroupCount :: int
  scanKeyInfo :: data_key_info
  columnParam :: "int list"

text \<open>
  The parsed key is used without a test for null. The size of the array of row groups is
  unsigned, so that a negative count asks for more memory than there is.
\<close>

definition createScanParameter :: "'ps redisDb \<Rightarrow> string \<Rightarrow> string \<Rightarrow> scan_param res" where
  "createScanParameter db key columns =
     bindr (parsingDataKeyInfo (Some key)) (\<lambda>parsed.
       bindr (deref parsed) (\<lambda>info.
         bindr (getRowGroupInfoAndSetRowGroupInfo db info) (\<lambda>(total, info).
           if total < 0 then Inl ServerPanic
           else bindr (parseColumnParameter columns) (\<lambda>cols.
             Inr \<lparr>totalRowGroupCount = total, scanKeyInfo = info, columnParam = cols\<rparr>))))"

definition createRowGroupParameter ::
  "'ps rocks_get \<Rightarrow> server \<Rightarrow> 'ps redisDb \<Rightarrow> string \<Rightarrow> (row_group_param \<times> 'ps redisDb) res" where
  "createRowGroupParameter rget srv db dataKey =
     bindr (expireIfNeeded srv db dataKey) (\<lambda>(_, db).
       bindr (lookupKey rget db dataKey False) (\<lambda>obj.
         Inr (\<lparr>dictObj = obj,
               isInRocksDb = (case obj of None \<Rightarrow> True | Some v \<Rightarrow> loc v = LOCATION_PERSISTED),
               rowCount = 0\<rparr>, db)))"

text \<open>The row count goes to an unsigned field of 63 bits. The counters are never negative.\<close>

fun populate_groups ::
  "'ps rocks_get \<Rightarrow> server \<Rightarrow> string \<Rightarrow> nat list \<Rightarrow> data_key_info \<Rightarrow> 'ps redisDb \<Rightarrow>
   (row_group_param list \<times> data_key_info \<times> 'ps redisDb) res" where
  "populate_groups rget srv b [] info db = Inr ([], info, db)"
| "populate_groups rget srv b (i # is) info db =
     (let info = info\<lparr>rowGroupId := int i + 1\<rparr>
      in bindr (generateDataKey b info) (\<lambda>dataKey.
           bindr (createRowGroupParameter rget srv db dataKey) (\<lambda>(p, db).
             bindr (getRowNumberInfoAndSetRowNumberInfo db info) (\<lambda>(n, info).
               bindr (populate_groups rget srv b is info db) (\<lambda>(ps, info, db).
                 Inr (p\<lparr>rowCount := nat (n mod 2 ^ 63)\<rparr> # ps, info, db))))))"

definition populateScanParameter ::
  "'ps rocks_get \<Rightarrow> server \<Rightarrow> string \<Rightarrow> 'ps redisDb \<Rightarrow> scan_param \<Rightarrow>
   (row_group_param list \<times> scan_param \<times> 'ps redisDb) res" where
  "populateScanParameter rget srv b db param =
     bindr (populate_groups rget srv b [0..<nat (totalRowGroupCount param)] (scanKeyInfo param) db) (\<lambda>(ps, info, db).
       Inr (ps, param\<lparr>scanKeyInfo := info\<rparr>, db))"

text \<open>
  The two nested loops of a scan, over rows and columns. Each column has a cache that \<open>cell\<close>
  reads and updates.
\<close>

fun scan_columns :: "(int \<Rightarrow> 'c \<Rightarrow> (string \<times> 'c) res) \<Rightarrow> int list \<Rightarrow> 'c list \<Rightarrow> (string list \<times> 'c list) res" where
  "scan_columns cell [] cs = Inr ([], cs)"
| "scan_columns cell (col # cols) [] = Inl OutOfBounds"
| "scan_columns cell (col # cols) (c # cs) =
     bindr (cell col c) (\<lambda>(v, c).
       bindr (scan_columns cell cols cs) (\<lambda>(vs, cs). Inr (v # vs, c # cs)))"

fun scan_rows :: "(nat \<Rightarrow> int \<Rightarrow> 'c \<Rightarrow> (string \<times> 'c) res) \<Rightarrow> int list \<Rightarrow> nat list \<Rightarrow> 'c list \<Rightarrow> string list res" where
  "scan_rows cell cols [] cs = Inr []"
| "scan_rows cell cols (j # js) cs =
     bindr (scan_columns (cell (j + 1)) cols cs) (\<lambda>(vs, cs).
       bindr (scan_rows cell cols js cs) (\<lambda>rest. Inr (vs @ rest)))"

text \<open>
  \<open>_cachedScan\<close>: a cache is the id of a column vector and the vector. A missing field is
  dereferenced, and so is a missing value.
\<close>

definition cell_memory ::
  "server \<Rightarrow> robj \<Rightarrow> nat \<Rightarrow> int \<Rightarrow> int \<times> string vector option \<Rightarrow> (string \<times> int \<times> string vector option) res" where
  "cell_memory srv obj rowId columnId c =
     bindr (getColumnVectorId (nat (columnvector_size srv)) rowId) (\<lambda>cvId.
       bindr (if cvId \<noteq> fst c
              then bindr (relation_of obj) (\<lambda>r.
                     bindr (deref (map_of r (getDataFieldSds cvId columnId))) (\<lambda>vec. Inr (cvId, Some vec)))
              else Inr c) (\<lambda>c.
         bindr (deref (snd c)) (\<lambda>vec.
           bindr (getColumnVectorIndex (nat (columnvector_size srv)) rowId) (\<lambda>i.
             bindr (vectorGet vec i) (\<lambda>x.
               bindr (deref x) (\<lambda>v. Inr (v, c)))))))"

definition cachedScan :: "server \<Rightarrow> row_group_param \<Rightarrow> int list \<Rightarrow> string list res" where
  "cachedScan srv p cols =
     scan_rows (\<lambda>rowId col c. bindr (deref (dictObj p)) (\<lambda>obj. cell_memory srv obj rowId col c)) cols
       [0..<rowCount p] (replicate (length cols) (- 1, None))"

text \<open>
  Reading a text from the store. The error pointer that is passed to the store is not initialised:
  the store looks at it when it reports an error.
\<close>

definition getRawColumnVectorFromRocksDB :: "'ps rocks_get \<Rightarrow> 'ps redisDb \<Rightarrow> string \<Rightarrow> string option res" where
  "getRawColumnVectorFromRocksDB rget db dataRocksKey =
     (case rget (persistent_store db) dataRocksKey of
        None \<Rightarrow> Inl UninitRead
      | Some v \<Rightarrow> Inr v)"

definition getColumnVectorFromRocksDB :: "'ps rocks_get \<Rightarrow> 'ps redisDb \<Rightarrow> string \<Rightarrow> string vector option res" where
  "getColumnVectorFromRocksDB rget db dataRocksKey =
     bindr (getRawColumnVectorFromRocksDB rget db dataRocksKey) (\<lambda>v.
       case v of
         None \<Rightarrow> Inr None
       | Some text \<Rightarrow>
           bindr (vectorDeserialize (Some text)) (\<lambda>(rc, vec).
             if rc then Inr vec else Inl AssertFailed))"

text \<open>
  \<open>_cachedScanOnRocksDB\<close>, which reads whole vectors, and \<open>_cachedScanOnRocksDB_iterator\<close>, which
  reads them in place. The latter ignores the return code of \<open>makeColumnVectorIter\<close> and then
  uses an iterator that was not written.
\<close>

definition cell_rocks ::
  "'ps rocks_get \<Rightarrow> server \<Rightarrow> string \<Rightarrow> 'ps redisDb \<Rightarrow> data_key_info \<Rightarrow> nat \<Rightarrow> int \<Rightarrow>
   int \<times> string vector option \<Rightarrow> (string \<times> int \<times> string vector option) res" where
  "cell_rocks rget srv b db info rowId columnId c =
     bindr (getColumnVectorId (nat (columnvector_size srv)) rowId) (\<lambda>cvId.
       bindr (if cvId \<noteq> fst c
              then bindr (generateDataRocksKeySds b info cvId columnId) (\<lambda>key.
                     bindr (getColumnVectorFromRocksDB rget db key) (\<lambda>vec. Inr (cvId, vec)))
              else Inr c) (\<lambda>c.
         bindr (deref (snd c)) (\<lambda>vec.
           bindr (getColumnVectorIndex (nat (columnvector_size srv)) rowId) (\<lambda>i.
             bindr (vectorGet vec i) (\<lambda>x.
               bindr (deref x) (\<lambda>v. Inr (v, c)))))))"

definition cachedScanOnRocksDB ::
  "'ps rocks_get \<Rightarrow> server \<Rightarrow> string \<Rightarrow> 'ps redisDb \<Rightarrow> data_key_info \<Rightarrow> row_group_param \<Rightarrow> int list \<Rightarrow> string list res" where
  "cachedScanOnRocksDB rget srv b db info p cols =
     scan_rows (cell_rocks rget srv b db info) cols [0..<rowCount p] (replicate (length cols) (- 1, None))"

definition cell_iterator ::
  "'ps rocks_get \<Rightarrow> server \<Rightarrow> string \<Rightarrow> 'ps redisDb \<Rightarrow> data_key_info \<Rightarrow> nat \<Rightarrow> int \<Rightarrow>
   int \<times> col_iter option \<Rightarrow> (string \<times> int \<times> col_iter option) res" where
  "cell_iterator rget srv b db info rowId columnId c =
     bindr (getColumnVectorId (nat (columnvector_size srv)) rowId) (\<lambda>cvId.
       bindr (if cvId \<noteq> fst c
              then bindr (generateDataRocksKeySds b info cvId columnId) (\<lambda>key.
                     bindr (getRawColumnVectorFromRocksDB rget db key) (\<lambda>text.
                       bindr (makeColumnVectorIter text) (\<lambda>its. Inr (cvId, map_option fst its))))
              else Inr c) (\<lambda>(cvId, it).
         case it of
           None \<Rightarrow> Inl UninitRead
         | Some it \<Rightarrow>
             bindr (columnVectorIterGetNoCopy it) (\<lambda>r.
               let v = (case r of
                          None \<Rightarrow> []
                        | Some (start, n) \<Rightarrow> take n (drop start (case it_col it of None \<Rightarrow> [] | Some s \<Rightarrow> s)))
               in Inr (v, cvId, Some (snd (snd (columnVectorIterNext it)))))))"

definition cachedScanOnRocksDB_iterator ::
  "'ps rocks_get \<Rightarrow> server \<Rightarrow> string \<Rightarrow> 'ps redisDb \<Rightarrow> data_key_info \<Rightarrow> row_group_param \<Rightarrow> int list \<Rightarrow> string list res" where
  "cachedScanOnRocksDB_iterator rget srv b db info p cols =
     scan_rows (cell_iterator rget srv b db info) cols [0..<rowCount p] (replicate (length cols) (- 1, None))"

fun scan_groups ::
  "'ps rocks_get \<Rightarrow> server \<Rightarrow> string \<Rightarrow> 'ps redisDb \<Rightarrow> data_key_info \<Rightarrow> int list \<Rightarrow> nat \<Rightarrow> row_group_param list \<Rightarrow>
   string list res" where
  "scan_groups rget srv b db info cols i [] = Inr []"
| "scan_groups rget srv b db info cols i (p # ps) =
     (let info = info\<lparr>rowGroupId := int i + 1\<rparr>
      in bindr (if isInRocksDb p then cachedScanOnRocksDB_iterator rget srv b db info p cols
                else cachedScan srv p cols) (\<lambda>vs.
           bindr (scan_groups rget srv b db info cols (i + 1) ps) (\<lambda>rest. Inr (vs @ rest))))"

definition scanDataFromADDB ::
  "'ps rocks_get \<Rightarrow> server \<Rightarrow> string \<Rightarrow> 'ps redisDb \<Rightarrow> scan_param \<Rightarrow> row_group_param list \<Rightarrow> string list res" where
  "scanDataFromADDB rget srv b db param groups =
     scan_groups rget srv b db (scanKeyInfo param) (columnParam param) 0 groups"

definition fpScanCommand ::
  "'ps rocks_get \<Rightarrow> server \<Rightarrow> string \<Rightarrow> string list \<Rightarrow> 'ps redisDb \<Rightarrow> (reply \<times> 'ps redisDb) res" where
  "fpScanCommand rget srv b argv db =
     (case argv of
        key # columns # _ \<Rightarrow>
          bindr (createScanParameter db key columns) (\<lambda>param.
            bindr (populateScanParameter rget srv b db param) (\<lambda>(groups, param, db).
              bindr (scanDataFromADDB rget srv b db param groups) (\<lambda>vs. Inr (ReplyBulks vs, db))))
      | _ \<Rightarrow> Inl OutOfBounds)"

end
