(* ===== verification/Rows.thy ===== *)
theory Rows
  imports Store
begin

text \<open>
  What a row group holds, and what writing does to it. The values of a column are cut into chunks
  of the configured number of rows, one vector per chunk; writing a value at the position that
  \<open>FPWRITE\<close> computes appends it to its column, and writing a list of values row by row appends
  every row.
\<close>

section \<open>Chunks of a column\<close>

definition chunk :: "nat \<Rightarrow> nat \<Rightarrow> 'a list \<Rightarrow> 'a list" where
  "chunk sz k xs = take sz (drop (k * sz) xs)"

lemma chunk_snoc:
  assumes "0 < sz"
  shows "chunk sz k (xs @ [v]) = (if k = length xs div sz then chunk sz k xs @ [v] else chunk sz k xs)"
proof -
  let ?n = "length xs"
  have n: "?n = ?n div sz * sz + ?n mod sz" "?n mod sz < sz" using assms by simp_all
  consider "k < ?n div sz" | "k = ?n div sz" | "?n div sz < k" by linarith
  then show ?thesis
  proof cases
    case 1
    then have "(k + 1) * sz \<le> ?n div sz * sz" by (intro mult_le_mono1) simp
    then have "k * sz + sz \<le> ?n" using n(1) unfolding add_mult_distrib by linarith
    with 1 show ?thesis by (simp add: chunk_def)
  next
    case 2
    with n have "k * sz \<le> ?n" "?n - k * sz < sz" by (simp_all add: minus_div_mult_eq_mod)
    with 2 show ?thesis by (simp add: chunk_def)
  next
    case 3
    then have "(?n div sz + 1) * sz \<le> k * sz" by (intro mult_le_mono1) simp
    then have "?n < k * sz" using n unfolding add_mult_distrib by linarith
    with 3 show ?thesis by (simp add: chunk_def)
  qed
qed

lemma chunk_nth:
  assumes "i < length xs" and "0 < sz"
  shows "i mod sz < length (chunk sz (i div sz) xs)" and "chunk sz (i div sz) xs ! (i mod sz) = xs ! i"
proof -
  have i: "i = i div sz * sz + i mod sz" "i mod sz < sz" using assms(2) by simp_all
  then have "i mod sz < length xs - i div sz * sz" using assms(1) by linarith
  with i(2) show "i mod sz < length (chunk sz (i div sz) xs)" by (simp add: chunk_def)
  moreover have "drop (i div sz * sz) xs ! (i mod sz) = xs ! (i div sz * sz + i mod sz)"
    using i(1) assms(1) by (intro nth_drop) linarith
  ultimately show "chunk sz (i div sz) xs ! (i mod sz) = xs ! i" using i(2) by (simp add: chunk_def)
qed

lemma chunk_Nil [simp]: "chunk sz k [] = []"
  by (simp add: chunk_def)

lemma chunk_length: "length (chunk sz k xs) \<le> length xs"
  by (simp add: chunk_def)

lemma chunk_subset: "set (chunk sz k xs) \<subseteq> set xs"
  unfolding chunk_def by (meson set_take_subset set_drop_subset order_trans)

section \<open>The fields of a row group\<close>

definition field :: "nat \<Rightarrow> nat \<Rightarrow> string" where
  "field k c = getDataField (int k + 1) (int c + 1)"

lemma getDataField_inj: "getDataField a b = getDataField a' b' \<longleftrightarrow> a = a' \<and> b = b'"
proof
  assume "getDataField a b = getDataField a' b'"
  then have "print_int a = print_int a' \<and> print_int b = print_int b'"
    using split_at_unique [of "CHR '':''" "print_int a" "print_int a'" "print_int b" "print_int b'"]
      print_int_excludes(1) by (simp add: getDataField_def)
  then show "a = a' \<and> b = b'" by simp
qed simp

lemma field_inj [simp]: "field k c = field k' c' \<longleftrightarrow> k = k' \<and> c = c'"
  by (simp add: field_def getDataField_inj)

text \<open>A missing vector stands for an empty chunk.\<close>

fun slot_holds :: "string vector option \<Rightarrow> string list \<Rightarrow> bool" where
  "slot_holds None xs \<longleftrightarrow> xs = []"
| "slot_holds (Some vec) xs \<longleftrightarrow> xs \<noteq> [] \<and> vok vec (map Some xs)"

text \<open>The vectors of the first \<open>m\<close> columns hold the chunks of the columns, and nothing else is there.\<close>

definition rel_holds :: "nat \<Rightarrow> nat \<Rightarrow> (nat \<Rightarrow> string list) \<Rightarrow> relation \<Rightarrow> bool" where
  "rel_holds sz m cols r \<longleftrightarrow> al_ok r \<and>
     (\<forall>k c. c < m \<longrightarrow> slot_holds (map_of r (field k c)) (chunk sz k (cols c))) \<and>
     (\<forall>f vec. map_of r f = Some vec \<longrightarrow> (\<exists>k c. c < m \<and> f = field k c))"

lemma rel_holds_empty: "\<forall>c < m. cols c = [] \<Longrightarrow> rel_holds sz m cols []"
  by (simp add: rel_holds_def)

lemma insert_value_ok:
  assumes "slot_holds (map_of r f) xs" and "al_ok r"
  shows "\<exists>r' vec. insert_value r f v = Inr r' \<and> al_ok r' \<and> map_of r' = (map_of r)(f \<mapsto> vec) \<and>
    vok vec (map Some (xs @ [v]))"
proof (cases "map_of r f")
  case None
  then have xs: "xs = []" using assms(1) by simp
  obtain vec where vec: "vectorAdd (vectorTypeInit (int STL_TYPE_SDS)) (Some v) = Inr (True, vec)" "vok vec [Some v]"
    using vok_add [OF vok_init, of "int STL_TYPE_SDS" "Some v"] by auto
  have "insert_value r f v = Inr (snd (al_add r f vec))"
    using None vec(1) by (simp add: insert_value_def al_add_def)
  with None xs vec(2) al_add_ok [OF assms(2), of f vec] al_add_map [of r f vec] show ?thesis by auto
next
  case (Some w)
  then have "vok w (map Some xs)" using assms(1) by simp
  from vok_add [OF this, of "Some v"] obtain vec where vec: "vectorAdd w (Some v) = Inr (True, vec)"
    "vok vec (map Some xs @ [Some v])" by blast
  with Some al_update_ok [OF assms(2), of f vec] show ?thesis
    by (auto simp: insert_value_def update_conv')
qed

lemma rel_holds_insert:
  assumes "rel_holds sz m cols r" and "c < m" and "0 < sz"
  shows "\<exists>r'. insert_value r (field (length (cols c) div sz) c) v = Inr r' \<and>
    rel_holds sz m (cols(c := cols c @ [v])) r'"
proof -
  let ?k = "length (cols c) div sz"
  have h: "al_ok r" "slot_holds (map_of r (field ?k c)) (chunk sz ?k (cols c))"
    using assms(1,2) by (simp_all add: rel_holds_def)
  obtain r' vec where r': "insert_value r (field ?k c) v = Inr r'" "al_ok r'"
    "map_of r' = (map_of r)(field ?k c \<mapsto> vec)" "vok vec (map Some (chunk sz ?k (cols c) @ [v]))"
    using insert_value_ok [OF h(2,1)] by blast
  have "slot_holds (map_of r' (field k d)) (chunk sz k ((cols(c := cols c @ [v])) d))" if "d < m" for k d
    using that assms(1) r'(3,4) by (auto simp: rel_holds_def chunk_snoc [OF assms(3)])
  moreover have "\<exists>k d. d < m \<and> f = field k d" if "map_of r' f = Some w" for f w
    using that assms(1,2) r'(3) by (auto simp: rel_holds_def split: if_splits)
  ultimately show ?thesis using r'(1,2) by (auto simp: rel_holds_def)
qed

section \<open>Writing one value\<close>

definition group_mem :: "nat \<Rightarrow> nat \<Rightarrow> (nat \<Rightarrow> string list) \<Rightarrow> 'ps redisDb \<Rightarrow> string \<Rightarrow> bool" where
  "group_mem sz m cols db key \<longleftrightarrow>
     (case map_of (ddict db) key of
        None \<Rightarrow> \<forall>c < m. cols c = []
      | Some (a, obj) \<Rightarrow> \<exists>r. val obj = HashObj (OBJ_ENCODING_REL r) \<and> rel_holds sz m cols r)"

text \<open>
  The entry of a key before and after: it stays at its address with its location, or is new with
  an address not below the given one, in memory only.
\<close>

fun entry_kept :: "nat \<Rightarrow> (nat \<times> robj) option \<Rightarrow> (nat \<times> robj) option \<Rightarrow> bool" where
  "entry_kept n None None \<longleftrightarrow> True"
| "entry_kept n None (Some (a, v)) \<longleftrightarrow> n \<le> a \<and> loc v = LOCATION_REDIS_ONLY"
| "entry_kept n (Some (a, v)) None \<longleftrightarrow> False"
| "entry_kept n (Some (a, v)) (Some (a', v')) \<longleftrightarrow> a' = a \<and> loc v' = loc v"

lemma entry_kept_refl: "entry_kept n x x"
  by (cases x) auto

lemma entry_kept_trans: "entry_kept n x y \<Longrightarrow> entry_kept n' y z \<Longrightarrow> n \<le> n' \<Longrightarrow> entry_kept n x z"
  by (cases x; cases y; cases z) auto

text \<open>The database differs at most in the entry of one key.\<close>

definition same_but :: "string \<Rightarrow> 'ps redisDb \<Rightarrow> 'ps redisDb \<Rightarrow> bool" where
  "same_but key db db' \<longleftrightarrow> db' = db\<lparr>ddict := ddict db', fresh := fresh db'\<rparr> \<and> fresh db \<le> fresh db' \<and>
     (\<forall>k. k \<noteq> key \<longrightarrow> map_of (ddict db') k = map_of (ddict db) k) \<and>
     entry_kept (fresh db) (map_of (ddict db) key) (map_of (ddict db') key)"

lemma same_but_refl [simp]: "same_but key db db"
  by (simp add: same_but_def entry_kept_refl)

lemma same_but_trans:
  assumes "same_but key db db'" and "same_but key db' db''"
  shows "same_but key db db''"
proof -
  have a: "db' = db\<lparr>ddict := ddict db', fresh := fresh db'\<rparr>" "fresh db \<le> fresh db'"
    "\<forall>k. k \<noteq> key \<longrightarrow> map_of (ddict db') k = map_of (ddict db) k"
    "entry_kept (fresh db) (map_of (ddict db) key) (map_of (ddict db') key)"
    using assms(1) unfolding same_but_def by blast+
  have b: "db'' = db'\<lparr>ddict := ddict db'', fresh := fresh db''\<rparr>" "fresh db' \<le> fresh db''"
    "\<forall>k. k \<noteq> key \<longrightarrow> map_of (ddict db'') k = map_of (ddict db') k"
    "entry_kept (fresh db') (map_of (ddict db') key) (map_of (ddict db'') key)"
    using assms(2) unfolding same_but_def by blast+
  have "db'' = db\<lparr>ddict := ddict db'', fresh := fresh db''\<rparr>" by (subst b(1), subst a(1)) simp
  with a b entry_kept_trans [OF a(4) b(4) a(2)] show ?thesis by (simp add: same_but_def)
qed

lemma same_but_frame:
  assumes "same_but key db db'"
  shows "expires db' = expires db" "Metadict db' = Metadict db" "EvictQueue db' = EvictQueue db"
    "FreeQueue db' = FreeQueue db" "persistent_store db' = persistent_store db" "unlinked db' = unlinked db"
proof -
  have e: "db' = db\<lparr>ddict := ddict db', fresh := fresh db'\<rparr>" using assms by (simp add: same_but_def)
  show "expires db' = expires db" by (subst e) simp
  show "Metadict db' = Metadict db" by (subst e) simp
  show "EvictQueue db' = EvictQueue db" by (subst e) simp
  show "FreeQueue db' = FreeQueue db" by (subst e) simp
  show "persistent_store db' = persistent_store db" by (subst e) simp
  show "unlinked db' = unlinked db" by (subst e) simp
qed

lemma expire_none: "map_of (expires db) key = None \<Longrightarrow> expireIfNeeded srv db key = Inr (False, db)"
  by (simp add: expireIfNeeded_def getExpire_def)

lemma lookupKeyWrite_none:
  "map_of (expires db) key = None \<Longrightarrow> lookupKeyWrite rget srv db key = Inr (map_option snd (map_of (ddict db) key), db)"
  by (auto simp: lookupKeyWrite_def expire_none lookupKey_def split: option.splits)

lemma put_entry_unlinked:
  assumes "db_ok db" and "map_of (ddict db) key = Some (a, v)"
  shows "unlinked (put_entry db a f) = unlinked db"
proof -
  have "a \<in> fst ` set (map snd (ddict db))" using map_of_SomeD [OF assms(2)] by force
  moreover have "fst ` set (map snd (ddict db)) \<inter> fst ` set (unlinked db) = {}"
    using assms(1) by (auto simp: db_ok_def entries_def image_comp comp_def)
  ultimately have "a \<notin> fst ` set (unlinked db)" by blast
  then have "map (\<lambda>(b, w). (b, if b = a then f w else w)) (unlinked db) = unlinked db"
    by (intro map_idI) (force simp: image_iff)
  then show ?thesis by (simp add: put_entry_def)
qed

text \<open>The other keys have other addresses.\<close>

lemma address_unique:
  assumes "db_ok db" and "map_of (ddict db) key = Some (a, v)" and "map_of (ddict db) k = Some (a, w)"
  shows "k = key"
proof -
  have "distinct (map (fst \<circ> snd) (ddict db))" using assms(1) by (simp add: db_ok_def entries_def)
  moreover have "(key, a, v) \<in> set (ddict db)" "(k, a, w) \<in> set (ddict db)"
    using assms(2,3) by (auto dest: map_of_SomeD)
  ultimately have "(key, a, v) = (k, a, w)" unfolding distinct_map inj_on_def by force
  then show ?thesis by simp
qed

lemma put_entry_one:
  assumes "db_ok db" and "map_of (ddict db) key = Some (a, v)"
  shows "map_of (ddict (put_entry db a f)) k = (if k = key then Some (a, f v) else map_of (ddict db) k)"
  using assms address_unique [OF assms, of k]
  by (cases "map_of (ddict db) k") (auto simp: put_entry_find)

lemma put_entry_same_but:
  assumes "db_ok db" and "map_of (ddict db) key = Some (a, v)" and "loc (f v) = loc v"
  shows "same_but key db (put_entry db a f)"
proof -
  have "put_entry db a f = db\<lparr>ddict := ddict (put_entry db a f), unlinked := unlinked (put_entry db a f)\<rparr>"
    by (simp add: put_entry_def)
  also have "\<dots> = db\<lparr>ddict := ddict (put_entry db a f), fresh := fresh (put_entry db a f)\<rparr>"
    unfolding put_entry_unlinked [OF assms(1,2)] by simp
  finally have "put_entry db a f = db\<lparr>ddict := ddict (put_entry db a f), fresh := fresh (put_entry db a f)\<rparr>" .
  with assms put_entry_one [OF assms(1,2), of f] show ?thesis by (simp add: same_but_def)
qed

lemma insertKV_ok:
  assumes "db_ok db" and "map_of (expires db) key = None" and "group_mem sz m cols db key" and "c < m" and "0 < sz"
  shows "\<exists>db'. insertKVpairToRelational rget srv db key (field (length (cols c) div sz) c) v =
      Inr (map_of (ddict db) key = None, db') \<and> db_ok db' \<and> same_but key db db' \<and>
    map_of (ddict db') key \<noteq> None \<and> group_mem sz m (cols(c := cols c @ [v])) db' key"
proof -
  let ?f = "field (length (cols c) div sz) c"
  text \<open>After the lookup the entry is there.\<close>
  obtain db1 a obj r where db1:
    "lookupDictAndGetHashdictObj rget srv db key = Inr (map_of (ddict db) key = None, db1)" "db_ok db1"
    "same_but key db db1" "map_of (ddict db1) key = Some (a, obj)" "val obj = HashObj (OBJ_ENCODING_REL r)"
    "rel_holds sz m cols r"
  proof (cases "map_of (ddict db) key")
    case None
    let ?o = "createObject (HashObj createDataHashdictFordict)"
    let ?db = "db\<lparr>ddict := ddict db @ [(key, fresh db, ?o)], fresh := fresh db + 1\<rparr>"
    have "lookupDictAndGetHashdictObj rget srv db key = Inr (True, ?db)"
      using dbAdd_ok(1) [OF assms(1) None, of ?o]
      by (simp add: lookupDictAndGetHashdictObj_def lookupKeyWrite_none [OF assms(2)] None)
    moreover have "map_of (ddict ?db) key = Some (fresh db, ?o)" using None by (simp add: map_add_def)
    moreover have "same_but key db ?db"
      using None by (simp add: same_but_def createObject_def map_add_def split: option.splits)
    moreover have "rel_holds sz m cols []" using assms(3) None by (intro rel_holds_empty) (simp add: group_mem_def)
    ultimately show ?thesis
      using that [of ?db "fresh db" ?o "[]"] dbAdd_ok(2) [OF assms(1) None, of ?o] None
      by (simp add: createObject_def createDataHashdictFordict_def)
  next
    case (Some e)
    obtain a obj where e: "e = (a, obj)" by (cases e)
    then obtain r where r: "val obj = HashObj (OBJ_ENCODING_REL r)" "rel_holds sz m cols r"
      using assms(3) Some by (auto simp: group_mem_def)
    then have "lookupDictAndGetHashdictObj rget srv db key = Inr (False, db)"
      by (simp add: lookupDictAndGetHashdictObj_def lookupKeyWrite_none [OF assms(2)] Some e)
    then show ?thesis using that [of db a obj r] Some e r assms(1) by simp
  qed
  obtain r' where r': "insert_value r ?f v = Inr r'" "rel_holds sz m (cols(c := cols c @ [v])) r'"
    using rel_holds_insert [OF db1(6) assms(4,5)] by blast
  let ?g = "\<lambda>obj :: robj. obj\<lparr>val := HashObj (OBJ_ENCODING_REL r')\<rparr>"
  let ?db' = "put_entry db1 a ?g"
  have "insertKVpairToRelational rget srv db key ?f v = Inr (map_of (ddict db) key = None, ?db')"
    by (simp add: insertKVpairToRelational_def db1(1,4,5) relation_of_def r'(1))
  moreover have "same_but key db ?db'"
    using same_but_trans [OF db1(3) put_entry_same_but [OF db1(2,4), of ?g]] by simp
  moreover have "map_of (ddict ?db') key = Some (a, ?g obj)" using put_entry_one [OF db1(2,4), of ?g key] by simp
  ultimately show ?thesis
    using db1(2) r'(2) by (auto simp: put_entry_ok group_mem_def)
qed

section \<open>Writing rows\<close>

text \<open>The columns after the values from the given index on, in row-major order.\<close>

fun fill :: "nat \<Rightarrow> nat \<Rightarrow> string list \<Rightarrow> (nat \<Rightarrow> string list) \<Rightarrow> nat \<Rightarrow> string list" where
  "fill m idx [] cols = cols"
| "fill m idx (v # vs) cols = fill m (idx + 1) vs (cols(idx mod m := cols (idx mod m) @ [v]))"

text \<open>How long the columns are when \<open>idx\<close> values have been written after \<open>n\<close> rows.\<close>

definition filled :: "nat \<Rightarrow> nat \<Rightarrow> nat \<Rightarrow> (nat \<Rightarrow> string list) \<Rightarrow> bool" where
  "filled m n idx cols \<longleftrightarrow> (\<forall>c < m. length (cols c) = n + idx div m + (if c < idx mod m then 1 else 0))"

lemma filled_step:
  assumes "filled m n idx cols" and "0 < m"
  shows "filled m n (idx + 1) (cols(idx mod m := cols (idx mod m) @ [v]))"
proof (cases "Suc (idx mod m) = m")
  case True
  then have "Suc idx mod m = 0" "Suc idx div m = Suc (idx div m)" by (simp_all add: mod_Suc div_Suc)
  with assms True show ?thesis by (auto simp: filled_def)
next
  case False
  then have "Suc idx mod m = Suc (idx mod m)" "Suc idx div m = idx div m"
    by (simp_all add: mod_Suc div_Suc)
  with assms show ?thesis by (auto simp: filled_def less_Suc_eq)
qed

text \<open>A value that is stored as it is: neither the text for missing values, nor empty, nor led by a blank.\<close>

definition writable :: "string \<Rightarrow> bool" where
  "writable v \<longleftrightarrow> cstr v \<noteq> ''null'' \<and> cstr v \<noteq> [] \<and> hd v \<noteq> CHR '' ''"

lemma write_values_ok:
  assumes "0 < m" and "int m \<le> MAX_COLUMN_NUMBER" and "0 < columnvector_size srv"
    and "\<forall>v \<in> set vs. writable v"
  defines "sz \<equiv> nat (columnvector_size srv)"
  shows "int (n + (idx + length vs) div m) < INT_MAX \<Longrightarrow> db_ok db \<Longrightarrow> map_of (expires db) key = None \<Longrightarrow>
    group_mem sz m cols db key \<Longrightarrow> filled m n idx cols \<Longrightarrow>
    \<exists>db'. write_values rget srv key (int n) (int m) (int idx) enroll vs sh db =
        Inr (enroll + (if map_of (ddict db) key = None \<and> vs \<noteq> [] then 1 else 0), sh, db') \<and>
      db_ok db' \<and> same_but key db db' \<and> (vs \<noteq> [] \<longrightarrow> map_of (ddict db') key \<noteq> None) \<and>
      group_mem sz m (fill m idx vs cols) db' key"
  using assms(4)
proof (induction vs arbitrary: idx enroll db cols)
  case Nil
  then show ?case by simp
next
  case (Cons v vs)
  let ?c = "idx mod m" and ?q = "idx div m"
  have c: "?c < m" "0 < sz" using assms(1,3) by (simp_all add: sz_def)
  have len: "length (cols ?c) = n + ?q" using Cons.prems(5) c(1) by (simp add: filled_def)
  have "?q \<le> (idx + length (v # vs)) div m" by (intro div_le_mono) simp
  then have "int (n + ?q) < INT_MAX" using Cons.prems(1) by linarith
  then have i: "c_int (int n + int ?q + 1) = int (n + ?q) + 1" by (simp add: c_int_id is_int_def)
  have f: "getDataField (int (n + ?q) div columnvector_size srv + 1) (int ?c + 1) = field (length (cols ?c) div sz) ?c"
    using assms(3) by (simp add: field_def len sz_def zdiv_int)
  obtain db1 where db1: "insertKVpairToRelational rget srv db key (field (length (cols ?c) div sz) ?c) v =
      Inr (map_of (ddict db) key = None, db1)" "db_ok db1" "same_but key db db1" "map_of (ddict db1) key \<noteq> None"
    "group_mem sz m (cols(?c := cols ?c @ [v])) db1 key"
    using insertKV_ok [OF Cons.prems(2-4) c] by blast
  have e: "map_of (expires db1) key = None"
    using same_but_frame(1) [OF db1(3)] Cons.prems(3) by simp
  let ?e = "if map_of (ddict db) key = None then enroll + 1 else enroll"
  obtain db' where db': "write_values rget srv key (int n) (int m) (int (idx + 1)) ?e vs sh db1 = Inr (?e, sh, db')"
    "db_ok db'" "same_but key db1 db'" "vs \<noteq> [] \<longrightarrow> map_of (ddict db') key \<noteq> None"
    "group_mem sz m (fill m (idx + 1) vs (cols(?c := cols ?c @ [v]))) db' key"
  proof -
    have "int (n + (idx + 1 + length vs) div m) < INT_MAX" "\<forall>v \<in> set vs. writable v"
      using Cons.prems(1,6) by simp_all
    from Cons.IH [OF this(1) db1(2) e db1(5) filled_step [OF Cons.prems(5) assms(1)] this(2), of ?e]
    show thesis using db1(4) that by (elim exE conjE) (simp only: simp_thms if_False add_0_right)
  qed
  have v: "value_object sh v = Inr (v, sh)" using Cons.prems(6) by (simp add: value_object_def writable_def)
  have w: "write_values rget srv key (int n) (int m) (int idx) enroll (v # vs) sh db =
      write_values rget srv key (int n) (int m) (int (idx + 1)) ?e vs sh db1"
  proof -
    have "c_div (int idx) (int m) = Inr (int ?q)" "c_mod (int idx) (int m) = Inr (int ?c)"
      using assms(1) by (simp_all add: c_div_pos c_mod_pos zdiv_int zmod_int)
    moreover have "c_div (c_int (int n + int ?q + 1) - 1) (columnvector_size srv) =
        Inr (int (n + ?q) div columnvector_size srv)"
      unfolding i using assms(3) by (subst c_div_pos) simp_all
    moreover have "int ?c + 1 \<le> MAX_COLUMN_NUMBER" using assms(2) c(1) by linarith
    ultimately show ?thesis
      using db1(1) v unfolding write_values.simps Let_def by (simp only: bindr_Inr f split if_True) (simp add: add.commute)
  qed
  have "map_of (ddict db') key \<noteq> None"
    using db1(4) db'(3) by (cases "map_of (ddict db1) key"; cases "map_of (ddict db') key") (auto simp: same_but_def)
  with db' w same_but_trans [OF db1(3) db'(3)] show ?case by simp
qed

end
