(* ===== verification/Partition.thy ===== *)
theory Partition
  imports Rows
begin

text \<open>
  A partition of a table as a list of row groups, each a list of rows: when the database holds
  such a list, wherever its row groups are, and that \<open>FPWRITE\<close> appends its rows to the last row
  group, or in a new one, and leaves the other partitions alone.
\<close>

section \<open>Keys of a partition\<close>

definition command_key :: "int \<Rightarrow> string \<Rightarrow> string" where
  "command_key tbl part = ''D:{'' @ print_int tbl @ '':'' @ part @ ''}''"

text \<open>The keys of the partition fit the buffers of the parsers and generators.\<close>

definition key_ok :: "int \<Rightarrow> string \<Rightarrow> bool" where
  "key_ok tbl part \<longleftrightarrow> is_int tbl \<and> part_ok part \<and> length (print_int tbl) + length part \<le> 100"

definition pinfo :: "int \<Rightarrow> string \<Rightarrow> int \<Rightarrow> int \<Rightarrow> data_key_info" where
  "pinfo tbl part rg rows =
     \<lparr>tableId = tbl, rowGroupId = rg, row_number = rows, partitionInfo = PartitionString part\<rparr>"

lemma pinfo_simps [simp]:
  "tableId (pinfo t p g n) = t" "rowGroupId (pinfo t p g n) = g" "row_number (pinfo t p g n) = n"
  "partitionInfo (pinfo t p g n) = PartitionString p"
  "(pinfo t p g n)\<lparr>rowGroupId := g'\<rparr> = pinfo t p g' n" "(pinfo t p g n)\<lparr>row_number := n'\<rparr> = pinfo t p g n'"
  by (simp_all add: pinfo_def)

lemma print_int_short: "is_int i \<Longrightarrow> length (print_int i) \<le> 20"
  by (intro print_int_length is_int_long)

lemma parsing_command_key:
  assumes "key_ok tbl part"
  shows "parsingDataKeyInfo (Some (command_key tbl part)) = Inr (Some (pinfo tbl part 0 0))"
proof -
  let ?k = "command_key tbl part"
  have p: "part_ok part" "is_int tbl" "length ?k + 1 < MAX_TMPBUF_SIZE"
    using assms by (simp_all add: key_ok_def command_key_def)
  have n: "cstr ?k = ?k"
    using print_int_excludes p(1) by (intro cstr_id) (auto simp: command_key_def part_ok_def)
  have 1: "strtok_r '':'' ?k = (Some ''D'', ''{'' @ print_int tbl @ '':'' @ part @ ''}'' @ [])"
    using strtok_r_token [of "''D''" "'':''" "[]" "CHR '':''"] by (simp add: command_key_def)
  have 2: "\<not> strcaseeq ''D'' ''I''" by code_simp
  have 3: "strtok_r ''G:'' [] = (None, [])" by (simp add: strtok_r_def)
  have l: "length part + 1 \<le> PARTITION_KEY_MAX_SIZE" using p(3) by (simp add: command_key_def)
  show ?thesis
    using p(2,3) l unfolding parsingDataKeyInfo_def copy_key_def n option.case
    by (simp add: 1 2 3 table_token [simplified] partition_token [OF p(1), where r = "[]", simplified] pinfo_def)
qed

lemma pinfo_keys:
  assumes "key_ok tbl part" and "is_int g"
  shows "generateDataKey b (pinfo tbl part g n) = Inr (data_key_text tbl part g)"
    and "generateRgIdKeyForRowgroup b (pinfo tbl part g n) = Inr (meta_key_text tbl part)"
    and "setMetaKeyForRowgroup (pinfo tbl part g n) = Inr (meta_key_text tbl part, pinfo tbl part g n)"
  using assms print_int_short [OF assms(2)]
  by (simp_all add: key_ok_def generateDataKey_def generateDataKeySds_def data_key_with_def sprintf_buf_def
    data_key_text_def generateRgIdKeyForRowgroup_def meta_key_text_def setMetaKeyForRowgroup_def Let_def partition_text_def)

lemma pinfo_rocks_key:
  assumes "key_ok tbl part" and "is_int g" and "is_int cv" and "is_int col"
  shows "generateDataRocksKeySds b (pinfo tbl part g n) cv col =
    Inr (data_key_text tbl part g @ '':F:'' @ getDataField cv col)"
  using assms pinfo_keys(1) [OF assms(1,2), of b n] print_int_short [OF assms(2)] print_int_short [OF assms(3)]
    print_int_short [OF assms(4)]
  by (simp add: generateDataRocksKeySds_def generateDataKey_def sprintf_buf_def data_key_text_def getDataField_def
    getDataFieldSds_def key_ok_def)

lemma data_key_inj:
  assumes "part_ok p" and "part_ok q"
  shows "data_key_text t p g = data_key_text u q h \<longleftrightarrow> t = u \<and> p = q \<and> g = h"
proof
  assume "data_key_text t p g = data_key_text u q h"
  then have "t = u \<and> p = q \<and> print_int g = print_int h"
    unfolding data_key_text_def by (rule key_parts_unique [OF assms])
  then show "t = u \<and> p = q \<and> g = h" by simp
qed simp

lemma meta_key_inj:
  assumes "part_ok p" and "part_ok q"
  shows "meta_key_text t p = meta_key_text u q \<longleftrightarrow> t = u \<and> p = q"
proof
  assume e: "meta_key_text t p = meta_key_text u q"
  have "print_int t = print_int u \<and> p @ ''}'' = q @ ''}''"
    using e print_int_excludes(1) [of t] print_int_excludes(1) [of u]
    by (intro split_at_unique [where c = "CHR '':''"]) (simp_all add: meta_key_text_def)
  then show "t = u \<and> p = q" by simp
qed simp

section \<open>What a partition holds\<close>

definition column :: "string list list \<Rightarrow> nat \<Rightarrow> string list" where
  "column rows c = map (\<lambda>row. row ! c) rows"

lemma column_length [simp]: "length (column rows c) = length rows"
  by (simp add: column_def)

lemma column_append: "column (rows @ rows') c = column rows c @ column rows' c"
  by (simp add: column_def)

text \<open>The store has the text of every column vector of a row group, and the texts are readable.\<close>

definition store_holds ::
  "'ps rocks_get \<Rightarrow> nat \<Rightarrow> nat \<Rightarrow> (nat \<Rightarrow> string list) \<Rightarrow> 'ps \<Rightarrow> string \<Rightarrow> bool" where
  "store_holds rget sz m cols st key \<longleftrightarrow>
     (\<forall>k c. c < m \<longrightarrow> chunk sz k (cols c) \<noteq> [] \<longrightarrow> col_clean (chunk sz k (cols c)) \<and>
        (\<exists>ty. 0 \<le> ty \<and> ty < 4 \<and>
           rget st (key @ '':F:'' @ field k c) = Some (Some (col_text ty (chunk sz k (cols c)) @ [NUL]))))"

text \<open>A row group is in memory, in the store, or in both when it is marked as persisted.\<close>

definition group_holds ::
  "'ps rocks_get \<Rightarrow> nat \<Rightarrow> nat \<Rightarrow> (nat \<Rightarrow> string list) \<Rightarrow> 'ps redisDb \<Rightarrow> string \<Rightarrow> bool" where
  "group_holds rget sz m cols db key \<longleftrightarrow>
     (case map_of (ddict db) key of
        None \<Rightarrow> store_holds rget sz m cols (persistent_store db) key
      | Some (a, obj) \<Rightarrow>
          (\<exists>r. val obj = HashObj (OBJ_ENCODING_REL r) \<and> rel_holds sz m cols r) \<and>
          (loc obj = LOCATION_PERSISTED \<longrightarrow> store_holds rget sz m cols (persistent_store db) key))"

definition cvsize :: "server \<Rightarrow> nat" where
  "cvsize srv = nat (columnvector_size srv)"

definition rg_field :: "nat \<Rightarrow> string" where
  "rg_field g = print_int (int g + 1)"

definition dkey :: "int \<Rightarrow> string \<Rightarrow> nat \<Rightarrow> string" where
  "dkey tbl part g = data_key_text tbl part (int g + 1)"

definition partition_holds ::
  "'ps rocks_get \<Rightarrow> server \<Rightarrow> nat \<Rightarrow> 'ps redisDb \<Rightarrow> int \<Rightarrow> string \<Rightarrow> string list list list \<Rightarrow> bool" where
  "partition_holds rget srv m db tbl part gs \<longleftrightarrow>
     (\<forall>rows \<in> set gs. \<forall>row \<in> set rows. length row = m) \<and>
     (\<forall>g. map_of (expires db) (dkey tbl part g) = None) \<and>
     (\<forall>g < length gs. mcount db (meta_key_text tbl part) (rg_field g) = Some (int (length (gs ! g))) \<and>
        group_holds rget (cvsize srv) m (column (gs ! g)) db (dkey tbl part g)) \<and>
     (\<forall>g \<ge> length gs. mcount db (meta_key_text tbl part) (rg_field g) = None \<and>
        map_of (ddict db) (dkey tbl part g) = None) \<and>
     (if gs = [] then map_of (Metadict db) (meta_key_text tbl part) = None
      else mcount db (meta_key_text tbl part) ''0'' = Some (int (length gs)))"

lemma group_holds_cong:
  "map_of (ddict db') key = map_of (ddict db) key \<Longrightarrow> persistent_store db' = persistent_store db \<Longrightarrow>
   group_holds rget sz m cols db' key = group_holds rget sz m cols db key"
  by (simp only: group_holds_def)

lemma partition_holds_cong:
  assumes "expires db' = expires db" and "persistent_store db' = persistent_store db"
    and "\<And>g. map_of (ddict db') (dkey tbl part g) = map_of (ddict db) (dkey tbl part g)"
    and "\<And>f. mcount db' (meta_key_text tbl part) f = mcount db (meta_key_text tbl part) f"
    and "map_of (Metadict db') (meta_key_text tbl part) = None \<longleftrightarrow> map_of (Metadict db) (meta_key_text tbl part) = None"
  shows "partition_holds rget srv m db' tbl part gs \<longleftrightarrow> partition_holds rget srv m db tbl part gs"
  unfolding partition_holds_def group_holds_def assms ..

section \<open>Reading the counters\<close>

lemma print_int_zero: "print_int 0 = ''0''"
  by code_simp

lemma rg_field_inj [simp]: "rg_field g = rg_field h \<longleftrightarrow> g = h"
  by (simp add: rg_field_def)

lemma rg_field_not_zero [simp]: "rg_field g \<noteq> ''0''" "''0'' \<noteq> rg_field g"
  using print_int_inj [of "int g + 1" 0] by (simp_all add: rg_field_def print_int_zero [symmetric])

lemma int_field: "getDecodedObject (IntObj 0) = ''0''"
  by (simp add: getDecodedObject_Int is_long_def print_int_zero)

lemma rg_object: "is_int (int g + 1) \<Longrightarrow> getDecodedObject (createStringObjectFromLongLong (int g + 1)) = rg_field g"
  by (simp add: decoded_fromLongLong is_int_long rg_field_def)

lemma mcount_read:
  assumes "meta_ok db" and "mcount db key (getDecodedObject f) = Some n"
  shows "lookupCompInfoForMeta (map_of (Metadict db) key) f = Inr (c_int n)"
    and "lookupCompInfoForRowNumberInMeta (map_of (Metadict db) key) f = Inr (c_int n)"
proof -
  obtain v where v: "map_of (Metadict db) key = Some v"
    using assms(2) by (cases "map_of (Metadict db) key") (simp_all add: mcount_def)
  obtain h where h: "val v = HashObj h" "hash_decimal h" by (rule meta_ok_find [OF assms(1) v])
  have "hash_count h (getDecodedObject f) = Some n" using assms(2) v h by (simp add: mcount_def)
  then obtain r where "hashTypeGetValueObject h (getDecodedObject f) = Inr (Some r)" "count_of r = c_int n"
    using hash_read [OF h(2), of "getDecodedObject f"] by auto
  then show "lookupCompInfoForMeta (map_of (Metadict db) key) f = Inr (c_int n)"
    "lookupCompInfoForRowNumberInMeta (map_of (Metadict db) key) f = Inr (c_int n)"
    by (simp_all add: lookupCompInfoForMeta_def lookupCompInfoForRowNumberInMeta_def v h hash_of_def)
qed

lemma mcount_read_none:
  assumes "meta_ok db" and "mcount db key (getDecodedObject f) = None"
  shows "lookupCompInfoForRowNumberInMeta (map_of (Metadict db) key) f = Inr 0"
proof (cases "map_of (Metadict db) key")
  case (Some v)
  obtain h where h: "val v = HashObj h" "hash_decimal h" by (rule meta_ok_find [OF assms(1) Some])
  have "hash_count h (getDecodedObject f) = None" using assms(2) Some h by (simp add: mcount_def)
  then have "hashTypeGetValueObject h (getDecodedObject f) = Inr None"
    using hash_read [OF h(2), of "getDecodedObject f"] by auto
  then show ?thesis by (simp add: lookupCompInfoForRowNumberInMeta_def Some h hash_of_def)
qed (simp add: lookupCompInfoForRowNumberInMeta_def)

section \<open>Changing one counter\<close>

text \<open>Only the metadata of one partition differ, by the given counters.\<close>

definition recount :: "string \<Rightarrow> (string \<rightharpoonup> int) \<Rightarrow> 'ps redisDb \<Rightarrow> 'ps redisDb \<Rightarrow> bool" where
  "recount key cs db db' \<longleftrightarrow> db' = db\<lparr>Metadict := Metadict db'\<rparr> \<and> meta_ok db' \<and>
     (\<forall>k. k \<noteq> key \<longrightarrow> map_of (Metadict db') k = map_of (Metadict db) k) \<and>
     mcount db' key = mcount db key ++ cs"

lemma recount_refl: "meta_ok db \<Longrightarrow> recount key Map.empty db db"
  by (simp add: recount_def)

lemma recount_trans:
  assumes "recount key cs db db'" and "recount key ds db' db''"
  shows "recount key (cs ++ ds) db db''"
proof -
  have a: "db' = db\<lparr>Metadict := Metadict db'\<rparr>" "\<forall>k. k \<noteq> key \<longrightarrow> map_of (Metadict db') k = map_of (Metadict db) k"
    "mcount db' key = mcount db key ++ cs" using assms(1) unfolding recount_def by blast+
  have b: "db'' = db'\<lparr>Metadict := Metadict db''\<rparr>" "\<forall>k. k \<noteq> key \<longrightarrow> map_of (Metadict db'') k = map_of (Metadict db') k"
    "mcount db'' key = mcount db' key ++ ds" "meta_ok db''" using assms(2) unfolding recount_def by blast+
  have "db'' = db\<lparr>Metadict := Metadict db''\<rparr>" by (subst b(1), subst a(1)) simp
  with a b show ?thesis by (simp add: recount_def)
qed

lemma recount_counters: "recount key cs db db' \<Longrightarrow> mcount db key ++ cs = mcount db key ++ ds \<Longrightarrow> recount key ds db db'"
  unfolding recount_def by simp

lemma recount_meta:
  assumes "recount key cs db db'"
  shows "meta_ok db'" and "mcount db' key = mcount db key ++ cs"
    and "k \<noteq> key \<Longrightarrow> map_of (Metadict db') k = map_of (Metadict db) k"
    and "k \<noteq> key \<Longrightarrow> mcount db' k = mcount db k"
proof -
  show "meta_ok db'" "mcount db' key = mcount db key ++ cs" using assms unfolding recount_def by blast+
  show k: "map_of (Metadict db') k = map_of (Metadict db) k" if "k \<noteq> key"
    using assms that unfolding recount_def by blast
  show "mcount db' k = mcount db k" if "k \<noteq> key" unfolding mcount_def k [OF that] ..
qed

lemma recount_frame:
  assumes "recount key cs db db'"
  shows "ddict db' = ddict db" "fresh db' = fresh db" "unlinked db' = unlinked db" "expires db' = expires db"
    "EvictQueue db' = EvictQueue db" "FreeQueue db' = FreeQueue db" "persistent_store db' = persistent_store db"
proof -
  have e: "db' = db\<lparr>Metadict := Metadict db'\<rparr>" using assms by (simp add: recount_def)
  show "ddict db' = ddict db" by (subst e) simp
  show "fresh db' = fresh db" by (subst e) simp
  show "unlinked db' = unlinked db" by (subst e) simp
  show "expires db' = expires db" by (subst e) simp
  show "EvictQueue db' = EvictQueue db" by (subst e) simp
  show "FreeQueue db' = FreeQueue db" by (subst e) simp
  show "persistent_store db' = persistent_store db" by (subst e) simp
qed

lemma recount_db_ok:
  assumes "recount key cs db db'" and "db_ok db"
  shows "db_ok db'"
proof -
  have "al_ok (Metadict db')" using recount_meta(1) [OF assms(1)] by (simp add: meta_ok_def)
  with assms(2) show ?thesis by (simp add: db_ok_def entries_def recount_frame [OF assms(1)])
qed

lemma IncDecCount_recount:
  assumes "meta_ok db" and "is_int cnt" and "is_int (count0 db key (getDecodedObject f) + cnt)"
  shows "\<exists>db'. IncDecCount srv db key f cnt = Inr (count0 db key (getDecodedObject f) + cnt, db') \<and>
    recount key [getDecodedObject f \<mapsto> count0 db key (getDecodedObject f) + cnt] db db'"
proof -
  let ?v = "count0 db key (getDecodedObject f) + cnt"
  have "is_long ?v" "is_long cnt" "c_int ?v = ?v" using assms(2,3) by (simp_all add: is_int_long c_int_id)
  then obtain md where "IncDecCount srv db key f cnt = Inr (?v, db\<lparr>Metadict := md\<rparr>)" "meta_ok (db\<lparr>Metadict := md\<rparr>)"
    "\<forall>k. k \<noteq> key \<longrightarrow> map_of md k = map_of (Metadict db) k"
    "\<forall>k g. mcount (db\<lparr>Metadict := md\<rparr>) k g = (if k = key \<and> g = getDecodedObject f then Some ?v else mcount db k g)"
    using IncDecCount_ok [OF assms(1), of cnt key f srv] by auto
  then show ?thesis by (intro exI [of _ "db\<lparr>Metadict := md\<rparr>"]) (auto simp: recount_def fun_eq_iff)
qed

lemma inc_group_ok:
  assumes "key_ok tbl part" and "meta_ok db" and "count0 db (meta_key_text tbl part) ''0'' = int n"
    and "int n < INT_MAX" and "is_int g"
  shows "\<exists>db'. IncRowgroupIdAndModifyInfo srv b db (pinfo tbl part g k) 1 = Inr (int n + 1, pinfo tbl part (int n + 1) k, db') \<and>
    recount (meta_key_text tbl part) [''0'' \<mapsto> int n + 1] db db'"
  using IncDecCount_recount [OF assms(2), of 1 "meta_key_text tbl part" "IntObj 0" srv] assms pinfo_keys(2) [OF assms(1,5), of b k]
  by (auto simp: IncRowgroupIdAndModifyInfo_def incRowgroupId_def int_field is_int_def)

lemma inc_rows_ok:
  assumes "key_ok tbl part" and "meta_ok db" and "count0 db (meta_key_text tbl part) (rg_field g) = int n"
    and "int (n + r) \<le> INT_MAX" and "int g < INT_MAX"
  shows "\<exists>db'. incRowNumber srv b db (pinfo tbl part (int g + 1) k) (int r) = Inr (int (n + r), db') \<and>
    recount (meta_key_text tbl part) [rg_field g \<mapsto> int (n + r)] db db'"
proof -
  have g: "is_int (int g + 1)" using assms(5) by (simp add: is_int_def)
  show ?thesis
    using IncDecCount_recount [OF assms(2), of "int r" "meta_key_text tbl part" "createStringObjectFromLongLong (int g + 1)" srv]
      assms pinfo_keys(2) [OF assms(1) g, of b k]
    by (auto simp: incRowNumber_def rg_object [OF g] is_int_def)
qed

section \<open>Filling whole rows\<close>

lemma fill_prefix:
  assumes "length xs \<le> m - j" and "j \<le> m" and "0 < m" and "c < m"
  shows "fill m (q * m + j) (xs @ ys) cols c =
    fill m (q * m + j + length xs) ys
      (\<lambda>c. if j \<le> c \<and> c < j + length xs then cols c @ [xs ! (c - j)] else cols c) c"
  using assms
proof (induction xs arbitrary: j cols)
  case Nil
  have "(\<lambda>c. if j \<le> c \<and> c < j + length [] then cols c @ [[] ! (c - j)] else cols c) = cols" by (simp add: fun_eq_iff)
  then show ?case by simp
next
  case (Cons x xs)
  then have j: "j < m" "(q * m + j) mod m = j" by auto
  let ?cols = "cols(j := cols j @ [x])"
  have e: "(\<lambda>c. if Suc j \<le> c \<and> c < Suc j + length xs then ?cols c @ [xs ! (c - Suc j)] else ?cols c) =
    (\<lambda>c. if j \<le> c \<and> c < j + length (x # xs) then cols c @ [(x # xs) ! (c - j)] else cols c)"
    by (auto simp: fun_eq_iff nth_Cons' Suc_diff_le)
  have "fill m (q * m + Suc j) (xs @ ys) ?cols c = fill m (q * m + Suc j + length xs) ys
      (\<lambda>c. if Suc j \<le> c \<and> c < Suc j + length xs then ?cols c @ [xs ! (c - Suc j)] else ?cols c) c"
    using Cons.prems j(1) by (intro Cons.IH) simp_all
  then show ?case unfolding e using j(2) by simp
qed

lemma fill_rows:
  assumes "0 < m" and "\<forall>row \<in> set rows. length row = m" and "c < m"
  shows "fill m (q * m) (concat rows) cols c = cols c @ column rows c"
  using assms(2)
proof (induction rows arbitrary: q cols)
  case Nil
  then show ?case by (simp add: column_def)
next
  case (Cons row rows)
  then show ?case
    using fill_prefix [of row m 0 c q "concat rows" cols] Cons.IH [of "Suc q"] assms(1,3)
    by (simp add: column_def add.commute)
qed

section \<open>The row group that is written\<close>

text \<open>The row groups with the first one opened.\<close>

definition opened :: "string list list list \<Rightarrow> string list list list" where
  "opened gs = (if gs = [] then [[]] else gs)"

lemma opened_simps [simp]: "opened gs \<noteq> []" "0 < length (opened gs)"
  by (simp_all add: opened_def)

text \<open>
  Whether a write starts a new row group: the last one is full, or no longer only in memory.
\<close>

definition starts_group :: "server \<Rightarrow> 'ps redisDb \<Rightarrow> int \<Rightarrow> string \<Rightarrow> string list list list \<Rightarrow> bool" where
  "starts_group srv db tbl part gs \<longleftrightarrow>
     rowgroup_size srv \<le> int (length (last (opened gs))) \<or>
     (case map_of (ddict db) (dkey tbl part (length (opened gs) - 1)) of
        None \<Rightarrow> last (opened gs) \<noteq> []
      | Some (a, v) \<Rightarrow> loc v \<noteq> LOCATION_REDIS_ONLY)"

definition written :: "bool \<Rightarrow> string list list \<Rightarrow> string list list list \<Rightarrow> string list list list" where
  "written new rows gs =
     (if new then opened gs @ [rows] else butlast (opened gs) @ [last (opened gs) @ rows])"

lemma mcount_none: "map_of (Metadict db) key = None \<Longrightarrow> mcount db key = Map.empty"
  by (simp add: mcount_def fun_eq_iff)

lemma row_number_read:
  assumes "key_ok tbl part" and "meta_ok db" and "int g < INT_MAX"
    and "count0 db (meta_key_text tbl part) (rg_field g) = int n" and "int n \<le> INT_MAX"
  shows "getRowNumberInfoAndSetRowNumberInfo db (pinfo tbl part (int g + 1) k) = Inr (int n, pinfo tbl part (int g + 1) (int n))"
proof -
  have g: "is_int (int g + 1)" using assms(3) by (simp add: is_int_def)
  have n: "c_int (int n) = int n" using assms(5) by (simp add: c_int_id is_int_def)
  show ?thesis
  proof (cases "mcount db (meta_key_text tbl part) (rg_field g)")
    case None
    with assms(4) mcount_read_none [OF assms(2), of "meta_key_text tbl part" "createStringObjectFromLongLong (int g + 1)"]
    show ?thesis
      by (simp add: getRowNumberInfoAndSetRowNumberInfo_def pinfo_keys(3) [OF assms(1) g] rg_object [OF g] count0_def
        lookupSDSKeyForMetadict_def)
  next
    case (Some i)
    with assms(4) n mcount_read(2) [OF assms(2), of "meta_key_text tbl part" "createStringObjectFromLongLong (int g + 1)" i]
    show ?thesis
      by (simp add: getRowNumberInfoAndSetRowNumberInfo_def pinfo_keys(3) [OF assms(1) g] rg_object [OF g] count0_def
        lookupSDSKeyForMetadict_def)
  qed
qed

lemma group_number_read:
  assumes "key_ok tbl part" and "meta_ok db" and "is_int g"
    and "if n = 0 then map_of (Metadict db) (meta_key_text tbl part) = None
         else mcount db (meta_key_text tbl part) ''0'' = Some (int n)" and "int n \<le> INT_MAX"
  shows "getRowGroupInfoAndSetRowGroupInfo db (pinfo tbl part g k) = Inr (int n, pinfo tbl part (int n) k)"
proof -
  have n: "c_int (int n) = int n" using assms(5) by (simp add: c_int_id is_int_def)
  have "lookupCompInfoForMeta (map_of (Metadict db) (meta_key_text tbl part)) (IntObj 0) = Inr (int n)"
  proof (cases "n = 0")
    case False
    with assms(4) n mcount_read(1) [OF assms(2), of "meta_key_text tbl part" "IntObj 0" "int n"]
    show ?thesis by (simp add: int_field)
  qed (use assms(4) in \<open>simp add: lookupCompInfoForMeta_def\<close>)
  then show ?thesis
    by (simp add: getRowGroupInfoAndSetRowGroupInfo_def pinfo_keys(3) [OF assms(1,3)] lookupSDSKeyForMetadict_def)
qed

lemma zero_rows_ok:
  assumes "key_ok tbl part" and "meta_ok db" and "count0 db (meta_key_text tbl part) (rg_field g) = int n"
    and "int n \<le> INT_MAX" and "int g < INT_MAX" and "n = 0 \<or> mcount db (meta_key_text tbl part) (rg_field g) = Some (int n)"
  shows "\<exists>db'. (if int n = 0 then bindr (incRowNumber srv b db (pinfo tbl part (int g + 1) k) 0) (\<lambda>(_, db). Inr db)
      else Inr db) = Inr db' \<and> recount (meta_key_text tbl part) [rg_field g \<mapsto> int n] db db'"
proof (cases "n = 0")
  case True
  then show ?thesis using inc_rows_ok [OF assms(1-3), of 0 srv b k] assms(4,5) by auto
next
  case False
  then have "mcount db (meta_key_text tbl part) ++ [rg_field g \<mapsto> int n] = mcount db (meta_key_text tbl part)"
    using assms(6) by (auto simp: fun_eq_iff)
  with False show ?thesis using recount_counters [OF recount_refl [OF assms(2)]] by simp
qed

lemma current_group:
  assumes "key_ok tbl part" and "meta_ok db" and "partition_holds rget srv m db tbl part gs"
    and "int (length gs) < INT_MAX" and "int (length (last (opened gs))) \<le> INT_MAX"
  defines "n \<equiv> length (opened gs) - 1" and "k \<equiv> length (last (opened gs))" and "mk \<equiv> meta_key_text tbl part"
  shows "\<exists>db1 db2. getRowgroupInfo srv b db (pinfo tbl part 0 0) = Inr (int n + 1, pinfo tbl part (int n + 1) 0, db1) \<and>
    getRowNumberInfoAndSetRowNumberInfo db1 (pinfo tbl part (int n + 1) 0) =
      Inr (int k, pinfo tbl part (int n + 1) (int k)) \<and>
    (if int k = 0 then bindr (incRowNumber srv b db1 (pinfo tbl part (int n + 1) (int k)) 0) (\<lambda>(_, db). Inr db)
     else Inr db1) = Inr db2 \<and> recount mk [''0'' \<mapsto> int n + 1, rg_field n \<mapsto> int k] db db2"
proof -
  have z: "is_int 0" by (simp add: is_int_def)
  obtain db1 where db1: "getRowgroupInfo srv b db (pinfo tbl part 0 0) = Inr (int n + 1, pinfo tbl part (int n + 1) 0, db1)"
    "recount mk [''0'' \<mapsto> int n + 1] db db1"
    "count0 db1 mk (rg_field n) = int k" "k = 0 \<or> mcount db1 mk (rg_field n) = Some (int k)"
  proof (cases "gs = []")
    case True
    then have e: "map_of (Metadict db) mk = None" "n = 0" "k = 0"
      using assms(3) by (simp_all add: partition_holds_def mk_def n_def k_def opened_def)
    then have c: "count0 db mk ''0'' = int 0" "count0 db mk (rg_field 0) = 0" by (simp_all add: count0_def mcount_none)
    obtain db1 where db1: "IncRowgroupIdAndModifyInfo srv b db (pinfo tbl part 0 0) 1 = Inr (1, pinfo tbl part 1 0, db1)"
      "recount mk [''0'' \<mapsto> 1] db db1"
      using inc_group_ok [OF assms(1,2) c(1) [unfolded mk_def] _ z, of srv b 0] by (auto simp: mk_def)
    have "getRowGroupInfoAndSetRowGroupInfo db (pinfo tbl part 0 0) = Inr (0, pinfo tbl part 0 0)"
      using group_number_read [OF assms(1,2) z, of 0 0] e(1) by (simp add: mk_def)
    then have "getRowgroupInfo srv b db (pinfo tbl part 0 0) = Inr (1, pinfo tbl part 1 0, db1)"
      by (simp add: getRowgroupInfo_def db1(1))
    moreover have "count0 db1 mk (rg_field 0) = 0"
      using c(2) by (simp add: count0_def recount_meta(2) [OF db1(2)])
    ultimately show ?thesis using that db1(2) e(2,3) by simp
  next
    case False
    then have l: "opened gs = gs" "length gs = Suc n" by (simp_all add: opened_def n_def)
    then have e: "opened gs = gs" "int (length gs) = int n + 1" "n < length gs" "gs ! n = last gs"
      using False by (simp_all add: last_conv_nth)
    have c: "mcount db mk ''0'' = Some (int n + 1)" "mcount db mk (rg_field n) = Some (int k)"
      using assms(3) False e by (simp_all add: partition_holds_def mk_def k_def)
    then have "getRowGroupInfoAndSetRowGroupInfo db (pinfo tbl part 0 0) = Inr (int n + 1, pinfo tbl part (int n + 1) 0)"
      using group_number_read [OF assms(1,2) z, of "n + 1" 0] assms(4) e(2) by (simp add: mk_def)
    then have "getRowgroupInfo srv b db (pinfo tbl part 0 0) = Inr (int n + 1, pinfo tbl part (int n + 1) 0, db)"
      by (simp add: getRowgroupInfo_def)
    moreover have "recount mk [''0'' \<mapsto> int n + 1] db db"
      using c(1) by (intro recount_counters [OF recount_refl [OF assms(2)]]) (auto simp: fun_eq_iff)
    ultimately show ?thesis using that c by (simp add: count0_def)
  qed
  note ok = recount_meta(1) [OF db1(2)]
  have "n \<le> length gs" by (simp add: n_def opened_def)
  then have n: "int n < INT_MAX" using assms(4) by linarith
  obtain db2 where "(if int k = 0 then bindr (incRowNumber srv b db1 (pinfo tbl part (int n + 1) (int k)) 0) (\<lambda>(_, db). Inr db)
     else Inr db1) = Inr db2" "recount mk [rg_field n \<mapsto> int k] db1 db2"
    using zero_rows_ok [OF assms(1) ok, of n k srv b "int k"] db1(3,4) assms(5) n by (auto simp: mk_def k_def)
  with db1 row_number_read [OF assms(1) ok n, of k 0] assms(5) recount_trans [OF db1(2), of "[rg_field n \<mapsto> int k]" db2]
  show ?thesis by (simp add: mk_def k_def)
qed

lemma next_group:
  assumes "key_ok tbl part" and "meta_ok db" and "mcount db (meta_key_text tbl part) ''0'' = Some (int n + 1)"
    and "int n + 1 < INT_MAX" and "is_int g"
  shows "\<exists>db'. IncRowgroupIdAndModifyInfo srv b db (pinfo tbl part g k) 1 = Inr (int n + 2, pinfo tbl part (int n + 2) k, db') \<and>
    recount (meta_key_text tbl part) [''0'' \<mapsto> int n + 2] db db'"
  using inc_group_ok [OF assms(1,2), of "n + 1" g srv b k] assms(3-5) by (simp add: count0_def add.commute)

text \<open>The group id after the tests for a full and for a tiered row group.\<close>

lemma choose_group:
  fixes k :: nat and srv :: server
  assumes "key_ok tbl part" and "meta_ok db" and "mcount db (meta_key_text tbl part) ''0'' = Some (int n + 1)"
    and "int n + 1 < INT_MAX" and "map_of (ddict db) (dkey tbl part (n + 1)) = None"
  defines "full \<equiv> rowgroup_size srv \<le> int k"
  defines "new \<equiv> full \<or> (case map_of (ddict db) (dkey tbl part n) of None \<Rightarrow> k \<noteq> 0 | Some (a, v) \<Rightarrow> loc v \<noteq> LOCATION_REDIS_ONLY)"
  defines "g \<equiv> if new then n + 1 else n"
  shows "\<exists>r info db1 j db2.
    (if int k \<ge> rowgroup_size srv
     then bindr (IncRowgroupIdAndModifyInfo srv b db (pinfo tbl part (int n + 1) (int k)) 1) (\<lambda>(_, info, db).
            Inr (0, True, info, db))
     else Inr (int k, False, pinfo tbl part (int n + 1) (int k), db)) = Inr (r, full, info, db1) \<and>
    next_group_if_tiered srv b db1 info r full =
      Inr (dkey tbl part g, int (if new then 0 else k), pinfo tbl part (int g + 1) j, db2) \<and>
    recount (meta_key_text tbl part) [''0'' \<mapsto> int g + 1] db db2"
proof -
  have i: "is_int (int n + 1)" "is_int (int n + 2)" using assms(4) by (simp_all add: is_int_def)
  have d: "data_key_text tbl part (int n + 1) = dkey tbl part n" "data_key_text tbl part (int n + 2) = dkey tbl part (n + 1)"
    by (simp_all add: dkey_def add.commute)
  note keys = pinfo_keys(1) [OF assms(1) i(1)] pinfo_keys(1) [OF assms(1) i(2)] d
  obtain db1 where db1: "IncRowgroupIdAndModifyInfo srv b db (pinfo tbl part (int n + 1) (int k)) 1 =
      Inr (int n + 2, pinfo tbl part (int n + 2) (int k), db1)"
    "recount (meta_key_text tbl part) [''0'' \<mapsto> int n + 2] db db1"
    using next_group [OF assms(1-4) i(1)] by blast
  consider "full" | "\<not> full" "new" | "\<not> full" "\<not> new" by blast
  then show ?thesis
  proof cases
    case 1
    then have "new" "g = n + 1" by (simp_all add: new_def g_def)
    moreover have "next_group_if_tiered srv b db1 (pinfo tbl part (int n + 2) (int k)) 0 True =
        Inr (dkey tbl part (n + 1), 0, pinfo tbl part (int n + 2) (int k), db1)"
      using assms(5) by (simp add: next_group_if_tiered_def keys recount_frame(1) [OF db1(2)])
    ultimately show ?thesis using db1 1 by (auto simp: full_def add.commute)
  next
    case 2
    have "g = n + 1" using 2 by (simp add: g_def)
    moreover have "next_group_if_tiered srv b db (pinfo tbl part (int n + 1) (int k)) (int k) False =
        Inr (dkey tbl part (n + 1), 0, pinfo tbl part (int n + 2) (int k), db1)"
      using 2 by (auto simp: next_group_if_tiered_def keys db1(1) new_def split: option.splits)
    ultimately show ?thesis using db1 2 by (auto simp: full_def add.commute)
  next
    case 3
    have "next_group_if_tiered srv b db (pinfo tbl part (int n + 1) (int k)) (int k) False =
        Inr (dkey tbl part n, int k, pinfo tbl part (int n + 1) (int k), db)"
      using 3 by (auto simp: next_group_if_tiered_def keys new_def split: option.splits)
    moreover have "recount (meta_key_text tbl part) [''0'' \<mapsto> int n + 1] db db"
      using assms(3) by (intro recount_counters [OF recount_refl [OF assms(2)]]) (auto simp: fun_eq_iff)
    ultimately show ?thesis using 3 by (auto simp: full_def g_def)
  qed
qed

section \<open>Writing the rows\<close>

text \<open>What a write changes: the entry of one key, the counters of one partition, the eviction queue.\<close>

definition appended :: "string \<Rightarrow> string \<Rightarrow> (string \<rightharpoonup> int) \<Rightarrow> 'ps redisDb \<Rightarrow> 'ps redisDb \<Rightarrow> bool" where
  "appended key mk cs db db' \<longleftrightarrow>
     (\<forall>k. k \<noteq> key \<longrightarrow> map_of (ddict db') k = map_of (ddict db) k) \<and>
     entry_kept (fresh db) (map_of (ddict db) key) (map_of (ddict db') key) \<and> map_of (ddict db') key \<noteq> None \<and>
     (\<forall>k. k \<noteq> mk \<longrightarrow> map_of (Metadict db') k = map_of (Metadict db) k) \<and> mcount db' mk = mcount db mk ++ cs \<and>
     expires db' = expires db \<and> persistent_store db' = persistent_store db \<and>
     FreeQueue db' = FreeQueue db \<and> unlinked db' = unlinked db"

lemma group_mem_cong:
  "ddict db' = ddict db \<Longrightarrow> (\<And>c. c < m \<Longrightarrow> cols' c = cols c) \<Longrightarrow> group_mem sz m cols' db' key = group_mem sz m cols db key"
  by (simp add: group_mem_def rel_holds_def cong: option.case_cong)

lemma evict_queue_frame [simp]:
  "db_ok (db\<lparr>EvictQueue := q\<rparr>) = db_ok db" "meta_ok (db\<lparr>EvictQueue := q\<rparr>) = meta_ok db"
  "mcount (db\<lparr>EvictQueue := q\<rparr>) = mcount db"
  by (simp_all add: db_ok_def entries_def meta_ok_def mcount_def fun_eq_iff)

text \<open>The eviction queue takes another entry, and a write adds the entry of its key when that is new.\<close>

definition can_enqueue :: "'ps redisDb \<Rightarrow> bool" where
  "can_enqueue db \<longleftrightarrow> (\<forall>a. \<exists>q. enqueue (EvictQueue db) (Some a) = Inr (1, q))"

definition evict_queued :: "string \<Rightarrow> 'ps redisDb \<Rightarrow> 'ps redisDb \<Rightarrow> bool" where
  "evict_queued key db db' \<longleftrightarrow>
     (case map_of (ddict db) key of
        Some e \<Rightarrow> EvictQueue db' = EvictQueue db
      | None \<Rightarrow> \<exists>a v. map_of (ddict db') key = Some (a, v) \<and> enqueue (EvictQueue db) (Some a) = Inr (1, EvictQueue db'))"

lemma finish_write_ok:
  assumes "key_ok tbl part" and "db_ok db" and "meta_ok db" and "0 < m"
    and "count0 db (meta_key_text tbl part) (rg_field g) = int n" and "int (n + r) < INT_MAX" and "int g < INT_MAX"
    and "can_enqueue db" and "map_of (ddict db) key = Some (a, v)"
  shows "\<exists>q db' db''. finish_write srv b db (pinfo tbl part (int g + 1) j) key (int (m * r)) (int m) enroll = Inr db'' \<and>
    db'' = db'\<lparr>EvictQueue := q\<rparr> \<and>
    recount (meta_key_text tbl part) [rg_field g \<mapsto> int (n + r)] db db' \<and>
    (if enroll = 0 then q = EvictQueue db else enqueue (EvictQueue db) (Some a) = Inr (1, q))"
proof -
  obtain db' where db': "incRowNumber srv b db (pinfo tbl part (int g + 1) j) (int r) = Inr (int (n + r), db')"
    "recount (meta_key_text tbl part) [rg_field g \<mapsto> int (n + r)] db db'"
    using inc_rows_ok [OF assms(1,3,5), of r srv b j] assms(6,7) by auto
  have d: "c_div (int (m * r)) (int m) = Inr (int r)" using assms(4) by (simp add: c_div_pos)
  have r: "c_int (int r) = int r" using assms(6) by (simp add: c_int_id is_int_def)
  obtain q where q: "enqueue (EvictQueue db) (Some a) = Inr (1, q)" using assms(8) unfolding can_enqueue_def by blast
  show ?thesis
  proof (cases "enroll = 0")
    case True
    then have "finish_write srv b db (pinfo tbl part (int g + 1) j) key (int (m * r)) (int m) enroll = Inr db'"
      using d by (simp add: finish_write_def r db'(1))
    with True db'(2) recount_frame(5) [OF db'(2)] show ?thesis
      by (intro exI [of _ "EvictQueue db"] exI [of _ db'] exI [of _ db']) simp
  next
    case False
    then have "finish_write srv b db (pinfo tbl part (int g + 1) j) key (int (m * r)) (int m) enroll = Inr (db'\<lparr>EvictQueue := q\<rparr>)"
      using d by (simp add: finish_write_def r db'(1) recount_frame [OF db'(2)] assms(9) q)
    with False db'(2) q show ?thesis by auto
  qed
qed

lemma concat_rows_length: "\<forall>row \<in> set rows. length row = m \<Longrightarrow> length (concat rows) = m * length rows"
  by (induction rows) auto

text \<open>The entry of the key that the eviction queue gains.\<close>

definition queued :: "nat list \<Rightarrow> string \<Rightarrow> 'ps redisDb \<Rightarrow> 'ps redisDb \<Rightarrow> nat list" where
  "queued xs key db db' =
     (case map_of (ddict db) key of
        Some e \<Rightarrow> xs
      | None \<Rightarrow> xs @ (case map_of (ddict db') key of None \<Rightarrow> [] | Some (a, v) \<Rightarrow> [a]))"

lemma write_group:
  assumes "key_ok tbl part" and "db_ok db" and "meta_ok db" and "0 < m" and "int m \<le> MAX_COLUMN_NUMBER"
    and "0 < columnvector_size srv" and "map_of (expires db) key = None"
    and "group_mem (cvsize srv) m (column old) db key" and "int g < INT_MAX"
    and "count0 db (meta_key_text tbl part) (rg_field g) = int (length old)"
    and "int (length old + length rows) < INT_MAX" and "rows \<noteq> []" and "\<forall>row \<in> set rows. length row = m"
    and "\<forall>v \<in> set (concat rows). writable v" and "can_enqueue db"
    and "enroll = 0 \<or> 0 < enroll \<and> map_of (ddict db) key = None"
  shows "\<exists>n db1 db2. write_values rget srv key (int (length old)) (int m) 0 enroll (concat rows) sh db = Inr (n, sh, db1) \<and>
    finish_write srv b db1 (pinfo tbl part (int g + 1) j) key (int (length (concat rows))) (int m) n = Inr db2 \<and>
    db_ok db2 \<and> meta_ok db2 \<and> group_mem (cvsize srv) m (column (old @ rows)) db2 key \<and>
    appended key (meta_key_text tbl part) [rg_field g \<mapsto> int (length old + length rows)] db db2 \<and>
    evict_queued key db db2"
proof -
  have ne: "concat rows \<noteq> []" "length (concat rows) = m * length rows"
    using assms(4,12,13) concat_rows_length [OF assms(13)] by (cases rows; auto)+
  have f: "filled m (length old) 0 (column old)" by (simp add: filled_def)
  have len: "int (length old + (0 + length (concat rows)) div m) < INT_MAX" using assms(4,11) ne(2) by simp
  let ?n = "enroll + (if map_of (ddict db) key = None \<and> concat rows \<noteq> [] then 1 else 0)"
  obtain db1 where db1: "write_values rget srv key (int (length old)) (int m) 0 enroll (concat rows) sh db = Inr (?n, sh, db1)"
    "db_ok db1" "same_but key db db1" "map_of (ddict db1) key \<noteq> None"
    "group_mem (cvsize srv) m (fill m 0 (concat rows) (column old)) db1 key"
    using write_values_ok [OF assms(4-6,14) len assms(2,7) assms(8) [unfolded cvsize_def] f, of rget enroll sh] ne(1)
    by (auto simp: cvsize_def)
  note fr = same_but_frame [OF db1(3)]
  obtain a v where av: "map_of (ddict db1) key = Some (a, v)" using db1(4) by (cases "map_of (ddict db1) key") auto
  have m1: "meta_ok db1" "mcount db1 = mcount db" using assms(3) fr(2) by (simp_all add: meta_ok_def mcount_def fun_eq_iff)
  obtain q db' where db': "finish_write srv b db1 (pinfo tbl part (int g + 1) j) key (int (m * length rows)) (int m) ?n =
      Inr (db'\<lparr>EvictQueue := q\<rparr>)"
    "recount (meta_key_text tbl part) [rg_field g \<mapsto> int (length old + length rows)] db1 db'"
    "if ?n = 0 then q = EvictQueue db1 else enqueue (EvictQueue db1) (Some a) = Inr (1, q)"
  proof -
    have "count0 db1 (meta_key_text tbl part) (rg_field g) = int (length old)" "can_enqueue db1"
      using assms(10,15) m1(2) fr(3) by (simp_all add: count0_def can_enqueue_def)
    from finish_write_ok [OF assms(1) db1(2) m1(1) assms(4) this(1) assms(11,9) this(2) av, of srv b j ?n] show thesis
      using that by blast
  qed
  note fr' = recount_frame [OF db'(2)]
  have g: "group_mem (cvsize srv) m (column (old @ rows)) (db'\<lparr>EvictQueue := q\<rparr>) key"
  proof -
    have "fill m 0 (concat rows) (column old) c = column (old @ rows) c" if "c < m" for c
      using fill_rows [OF assms(4,13) that, of 0 "column old"] by (simp add: column_append)
    with db1(5) fr'(1) show ?thesis
      by (subst group_mem_cong [of _ db1 m _ "fill m 0 (concat rows) (column old)"]) simp_all
  qed
  have "appended key (meta_key_text tbl part) [rg_field g \<mapsto> int (length old + length rows)] db (db'\<lparr>EvictQueue := q\<rparr>)"
  proof -
    have "\<forall>k. k \<noteq> key \<longrightarrow> map_of (ddict db1) k = map_of (ddict db) k"
      "entry_kept (fresh db) (map_of (ddict db) key) (map_of (ddict db1) key)"
      using db1(3) unfolding same_but_def by blast+
    with db1(4) fr fr' recount_meta(2,3) [OF db'(2)] m1(2) show ?thesis by (simp add: appended_def)
  qed
  moreover have "evict_queued key db (db'\<lparr>EvictQueue := q\<rparr>)"
    using db'(3) assms(16) ne(1) av fr(3) fr'(1) by (auto simp: evict_queued_def split: option.splits)
  ultimately show ?thesis
    using db1(1) db'(1) ne(2) g recount_db_ok [OF db'(2) db1(2)] recount_meta(1) [OF db'(2)]
    by (intro exI [of _ ?n] exI [of _ db1] exI [of _ "db'\<lparr>EvictQueue := q\<rparr>"]) simp
qed

text \<open>The index of the written row group and the rows it had.\<close>

definition target :: "bool \<Rightarrow> string list list list \<Rightarrow> nat" where
  "target new gs = (if new then length (opened gs) else length (opened gs) - 1)"

definition target_rows :: "bool \<Rightarrow> string list list list \<Rightarrow> string list list" where
  "target_rows new gs = (if new then [] else last (opened gs))"

lemma written_length: "length (written new rows gs) = target new gs + 1"
  by (simp add: written_def target_def)

lemma written_nth:
  assumes "gs = [] \<longrightarrow> \<not> new" and "h \<le> target new gs"
  shows "written new rows gs ! h = (if h = target new gs then target_rows new gs @ rows else gs ! h)"
    and "h < target new gs \<Longrightarrow> h < length gs"
  using assms by (auto simp: written_def target_def target_rows_def opened_def nth_append nth_butlast split: if_splits)

lemma dkey_inj: "part_ok p \<Longrightarrow> part_ok q \<Longrightarrow> dkey t p g = dkey u q h \<longleftrightarrow> t = u \<and> p = q \<and> g = h"
  by (simp add: dkey_def data_key_inj)

lemma partition_written:
  assumes "key_ok tbl part" and "partition_holds rget srv m db tbl part gs" and "gs = [] \<longrightarrow> \<not> new"
    and "appended (dkey tbl part (target new gs)) (meta_key_text tbl part)
           [''0'' \<mapsto> int (target new gs) + 1,
            rg_field (target new gs) \<mapsto> int (length (target_rows new gs) + length rows)] db db'"
    and "group_mem (cvsize srv) m (column (target_rows new gs @ rows)) db' (dkey tbl part (target new gs))"
    and "\<forall>a v. map_of (ddict db) (dkey tbl part (target new gs)) = Some (a, v) \<longrightarrow> loc v = LOCATION_REDIS_ONLY"
    and "\<forall>row \<in> set rows. length row = m"
  shows "partition_holds rget srv m db' tbl part (written new rows gs)"
proof -
  let ?g = "target new gs" and ?mk = "meta_key_text tbl part" and ?G = "written new rows gs"
  have p: "part_ok part" using assms(1) by (simp add: key_ok_def)
  have h: "\<forall>rows \<in> set gs. \<forall>row \<in> set rows. length row = m" "\<forall>g. map_of (expires db) (dkey tbl part g) = None"
    "\<forall>g < length gs. mcount db ?mk (rg_field g) = Some (int (length (gs ! g))) \<and>
        group_holds rget (cvsize srv) m (column (gs ! g)) db (dkey tbl part g)"
    "\<forall>g \<ge> length gs. mcount db ?mk (rg_field g) = None \<and> map_of (ddict db) (dkey tbl part g) = None"
    using assms(2) unfolding partition_holds_def by blast+
  have a: "\<forall>k. k \<noteq> dkey tbl part ?g \<longrightarrow> map_of (ddict db') k = map_of (ddict db) k"
    "entry_kept (fresh db) (map_of (ddict db) (dkey tbl part ?g)) (map_of (ddict db') (dkey tbl part ?g))"
    "map_of (ddict db') (dkey tbl part ?g) \<noteq> None"
    "mcount db' ?mk = mcount db ?mk ++ [''0'' \<mapsto> int ?g + 1, rg_field ?g \<mapsto> int (length (target_rows new gs) + length rows)]"
    "expires db' = expires db" "persistent_store db' = persistent_store db"
    using assms(4) unfolding appended_def by blast+
  have l: "set (target_rows new gs) \<subseteq> \<Union> (set ` set gs)"
    by (cases "gs = []") (auto simp: target_rows_def opened_def intro: last_in_set)
  have len: "\<forall>rows \<in> set ?G. \<forall>row \<in> set rows. length row = m"
    using h(1) assms(7) l
    by (auto simp: written_def target_rows_def opened_def dest!: in_set_butlastD split: if_splits)
  have low: "mcount db' ?mk (rg_field i) = Some (int (length (?G ! i))) \<and>
      group_holds rget (cvsize srv) m (column (?G ! i)) db' (dkey tbl part i)" if "i < length ?G" for i
  proof (cases "i = ?g")
    case True
    obtain a v where av: "map_of (ddict db') (dkey tbl part ?g) = Some (a, v)" using a(3) by auto
    have "loc v = LOCATION_REDIS_ONLY"
      using a(2) assms(6) av by (cases "map_of (ddict db) (dkey tbl part ?g)") auto
    then show ?thesis
      using assms(5) av by (simp add: True written_nth [OF assms(3)] a(4) group_holds_def group_mem_def)
  next
    case False
    then have i: "i < ?g" using that by (simp add: written_length)
    then have "i < length gs" "?G ! i = gs ! i" using written_nth [OF assms(3), of i] by simp_all
    moreover have "dkey tbl part i \<noteq> dkey tbl part ?g" using i p by (simp add: dkey_inj)
    ultimately show ?thesis
      using h(3) i a(1) group_holds_cong [of db' "dkey tbl part i" db, OF _ a(6)] by (simp add: a(4))
  qed
  have high: "mcount db' ?mk (rg_field i) = None \<and> map_of (ddict db') (dkey tbl part i) = None" if "length ?G \<le> i" for i
  proof -
    have i: "?g < i" "length gs \<le> i" using that by (simp_all add: written_length) (simp add: target_def opened_def split: if_splits)
    moreover have "dkey tbl part i \<noteq> dkey tbl part ?g" using i p by (simp add: dkey_inj)
    ultimately show ?thesis using h(4) a(1) by (simp add: a(4))
  qed
  have "?G \<noteq> []" by (simp add: written_def)
  with len low high h(2) show ?thesis by (simp add: partition_holds_def a(4,5) written_length)
qed

section \<open>The whole command\<close>

text \<open>The conditions on a write: the key fits, whole rows of values that are stored as they are, counters in range.\<close>

definition write_ok :: "server \<Rightarrow> int \<Rightarrow> string \<Rightarrow> nat \<Rightarrow> string list list \<Rightarrow> string list list list \<Rightarrow> bool" where
  "write_ok srv tbl part m rows gs \<longleftrightarrow>
     key_ok tbl part \<and> 0 < m \<and> int m \<le> MAX_COLUMN_NUMBER \<and> 0 < columnvector_size srv \<and> 0 < rowgroup_size srv \<and>
     rows \<noteq> [] \<and> (\<forall>row \<in> set rows. length row = m \<and> list_all writable row) \<and>
     int (length gs) + 1 < INT_MAX \<and> int (length (last (opened gs)) + length rows) < INT_MAX"

lemma group_mem_target:
  assumes "partition_holds rget srv m db tbl part gs" and "0 < rowgroup_size srv"
  defines "new \<equiv> starts_group srv db tbl part gs"
  shows "gs = [] \<longrightarrow> \<not> new"
    and "map_of (ddict db) (dkey tbl part (length (opened gs))) = None"
    and "group_mem (cvsize srv) m (column (target_rows new gs)) db (dkey tbl part (target new gs))"
    and "\<forall>a v. map_of (ddict db) (dkey tbl part (target new gs)) = Some (a, v) \<longrightarrow> loc v = LOCATION_REDIS_ONLY"
proof -
  have h: "\<forall>g < length gs. group_holds rget (cvsize srv) m (column (gs ! g)) db (dkey tbl part g)"
    "\<forall>g \<ge> length gs. map_of (ddict db) (dkey tbl part g) = None"
    using assms(1) unfolding partition_holds_def by blast+
  show "gs = [] \<longrightarrow> \<not> new" using assms(2) h(2) by (simp add: new_def starts_group_def opened_def)
  show n: "map_of (ddict db) (dkey tbl part (length (opened gs))) = None" using h(2) by (simp add: opened_def)
  show "\<forall>a v. map_of (ddict db) (dkey tbl part (target new gs)) = Some (a, v) \<longrightarrow> loc v = LOCATION_REDIS_ONLY"
    using n by (auto simp: target_def new_def starts_group_def split: option.splits)
  show "group_mem (cvsize srv) m (column (target_rows new gs)) db (dkey tbl part (target new gs))"
  proof (cases "new \<or> gs = []")
    case True
    then have "map_of (ddict db) (dkey tbl part (target new gs)) = None" "target_rows new gs = []"
      using n h(2) by (auto simp: target_def target_rows_def opened_def)
    then show ?thesis by (simp add: group_mem_def column_def)
  next
    case False
    then have e: "target new gs = length gs - 1" "target_rows new gs = gs ! (length gs - 1)" "length gs - 1 < length gs"
      by (simp_all add: target_def target_rows_def opened_def last_conv_nth)
    show ?thesis
    proof (cases "map_of (ddict db) (dkey tbl part (length gs - 1))")
      case None
      moreover have "opened gs = gs" using False by (simp add: opened_def)
      ultimately have "last gs = []" using False by (simp add: new_def starts_group_def)
      then have "target_rows new gs = []" using False by (simp add: target_rows_def opened_def)
      with None show ?thesis by (simp add: e(1) group_mem_def column_def)
    next
      case (Some x)
      with h(1) e(3) have "group_holds rget (cvsize srv) m (column (gs ! (length gs - 1))) db (dkey tbl part (length gs - 1))" by blast
      with Some show ?thesis by (auto simp: e group_mem_def group_holds_def)
    qed
  qed
qed

lemma appended_recount:
  assumes "recount mk cs db db1" and "appended key mk ds db1 db2"
  shows "appended key mk (cs ++ ds) db db2"
  using assms(2) recount_frame [OF assms(1)] recount_meta(2,3) [OF assms(1)] by (simp add: appended_def)

lemma group_opened:
  assumes "write_ok srv tbl part m rows gs" and "meta_ok db" and "partition_holds rget srv m db tbl part gs"
  defines "new \<equiv> starts_group srv db tbl part gs" and "mk \<equiv> meta_key_text tbl part"
    and "n \<equiv> length (opened gs) - 1" and "k \<equiv> length (last (opened gs))"
  shows "\<exists>db1 db2 r info db3 j db4 cs.
    getRowgroupInfo srv b db (pinfo tbl part 0 0) = Inr (int n + 1, pinfo tbl part (int n + 1) 0, db1) \<and>
    getRowNumberInfoAndSetRowNumberInfo db1 (pinfo tbl part (int n + 1) 0) = Inr (int k, pinfo tbl part (int n + 1) (int k)) \<and>
    (if int k = 0 then bindr (incRowNumber srv b db1 (pinfo tbl part (int n + 1) (int k)) 0) (\<lambda>(_, db). Inr db)
     else Inr db1) = Inr db2 \<and>
    (if int k \<ge> rowgroup_size srv
     then bindr (IncRowgroupIdAndModifyInfo srv b db2 (pinfo tbl part (int n + 1) (int k)) 1) (\<lambda>(_, info, db).
            Inr (0, True, info, db))
     else Inr (int k, False, pinfo tbl part (int n + 1) (int k), db2)) = Inr (r, rowgroup_size srv \<le> int k, info, db3) \<and>
    next_group_if_tiered srv b db3 info r (rowgroup_size srv \<le> int k) =
      Inr (dkey tbl part (target new gs), int (length (target_rows new gs)), pinfo tbl part (int (target new gs) + 1) j, db4) \<and>
    recount mk cs db db4 \<and> count0 db4 mk (rg_field (target new gs)) = int (length (target_rows new gs)) \<and>
    (\<forall>v. mcount db mk ++ cs ++ [rg_field (target new gs) \<mapsto> v] =
         mcount db mk ++ [''0'' \<mapsto> int (target new gs) + 1, rg_field (target new gs) \<mapsto> v])"
proof -
  have w: "key_ok tbl part" "0 < rowgroup_size srv" "int (length gs) + 1 < INT_MAX" "int k \<le> INT_MAX"
    using assms(1) by (simp_all add: write_ok_def k_def)
  note t = group_mem_target [OF assms(3) w(2), folded new_def]
  have nle: "n \<le> length gs" "Suc n = length (opened gs)" by (simp_all add: n_def opened_def)
  then have n: "int n + 1 < INT_MAX" using w(3) by linarith
  obtain db1 db2 where db2: "getRowgroupInfo srv b db (pinfo tbl part 0 0) = Inr (int n + 1, pinfo tbl part (int n + 1) 0, db1)"
    "getRowNumberInfoAndSetRowNumberInfo db1 (pinfo tbl part (int n + 1) 0) = Inr (int k, pinfo tbl part (int n + 1) (int k))"
    "(if int k = 0 then bindr (incRowNumber srv b db1 (pinfo tbl part (int n + 1) (int k)) 0) (\<lambda>(_, db). Inr db)
     else Inr db1) = Inr db2" "recount mk [''0'' \<mapsto> int n + 1, rg_field n \<mapsto> int k] db db2"
    using current_group [OF w(1) assms(2,3), of b] w(3,4) unfolding n_def k_def mk_def by auto
  have n2: "map_of (ddict db2) (dkey tbl part (n + 1)) = None" "mcount db2 mk ''0'' = Some (int n + 1)"
    using t(2) recount_frame(1) [OF db2(4)] nle(2) by (simp_all add: recount_meta(2) [OF db2(4)])
  have g: "(if new then n + 1 else n) = target new gs" "(if new then 0 else k) = length (target_rows new gs)"
    using nle(2) [symmetric] by (simp_all add: target_def target_rows_def k_def)
  have new: "(rowgroup_size srv \<le> int k \<or> (case map_of (ddict db2) (dkey tbl part n) of None \<Rightarrow> k \<noteq> 0
      | Some (a, v) \<Rightarrow> loc v \<noteq> LOCATION_REDIS_ONLY)) = new"
    unfolding new_def starts_group_def recount_frame(1) [OF db2(4)] n_def k_def length_0_conv by (rule refl)
  obtain r info db3 j db4 where db4: "(if int k \<ge> rowgroup_size srv
     then bindr (IncRowgroupIdAndModifyInfo srv b db2 (pinfo tbl part (int n + 1) (int k)) 1) (\<lambda>(_, info, db).
            Inr (0, True, info, db))
     else Inr (int k, False, pinfo tbl part (int n + 1) (int k), db2)) = Inr (r, rowgroup_size srv \<le> int k, info, db3)"
    "next_group_if_tiered srv b db3 info r (rowgroup_size srv \<le> int k) =
      Inr (dkey tbl part (target new gs), int (length (target_rows new gs)), pinfo tbl part (int (target new gs) + 1) j, db4)"
    "recount mk [''0'' \<mapsto> int (target new gs) + 1] db2 db4"
    using choose_group [OF w(1) recount_meta(1) [OF db2(4)] n2(2) [unfolded mk_def] n n2(1), of srv k b]
    unfolding new g mk_def by blast
  let ?cs = "[''0'' \<mapsto> int n + 1, rg_field n \<mapsto> int k] ++ [''0'' \<mapsto> int (target new gs) + 1]"
  have db04: "recount mk ?cs db db4" by (rule recount_trans [OF db2(4) db4(3)])
  have "count0 db4 mk (rg_field (target new gs)) = int (length (target_rows new gs)) \<and>
    (\<forall>v. mcount db mk ++ ?cs ++ [rg_field (target new gs) \<mapsto> v] =
         mcount db mk ++ [''0'' \<mapsto> int (target new gs) + 1, rg_field (target new gs) \<mapsto> v])"
  proof (cases new)
    case True
    then have "gs \<noteq> []" using t(1) by blast
    then have o: "opened gs = gs" "n < length gs" "k = length (gs ! n)"
      by (simp_all add: opened_def n_def k_def last_conv_nth)
    then have "mcount db mk (rg_field n) = Some (int k)" "mcount db mk (rg_field (n + 1)) = None"
      using assms(3) nle(2) unfolding partition_holds_def mk_def by simp_all
    with True g o show ?thesis by (auto simp: count0_def recount_meta(2) [OF db04] fun_eq_iff map_add_def target_rows_def)
  next
    case False
    with g show ?thesis by (auto simp: count0_def recount_meta(2) [OF db04] fun_eq_iff map_add_def)
  qed
  with db2(1-3) db4(1,2) db04 show ?thesis by blast
qed

lemma fpWrite_ok:
  assumes "write_ok srv tbl part m rows gs" and "db_ok db" and "meta_ok db"
    and "partition_holds rget srv m db tbl part gs" and "can_enqueue db"
  defines "new \<equiv> starts_group srv db tbl part gs"
  defines "key \<equiv> dkey tbl part (target new gs)"
  shows "\<exists>db'. fpWriteCommand rget srv b (command_key tbl part # p # print_int (int m) # i # concat rows) sh db =
      Inr (ReplyOk, sh, db') \<and> db_ok db' \<and> meta_ok db' \<and>
    partition_holds rget srv m db' tbl part (written new rows gs) \<and>
    appended key (meta_key_text tbl part)
      [''0'' \<mapsto> int (target new gs) + 1, rg_field (target new gs) \<mapsto> int (length (target_rows new gs) + length rows)] db db' \<and>
    evict_queued key db db'"
proof -
  let ?mk = "meta_key_text tbl part" and ?n = "length (opened gs) - 1" and ?k = "length (last (opened gs))"
  let ?full = "rowgroup_size srv \<le> int ?k" and ?old = "target_rows new gs"
  have w: "key_ok tbl part" "0 < m" "int m \<le> MAX_COLUMN_NUMBER" "0 < columnvector_size srv" "0 < rowgroup_size srv"
    "rows \<noteq> []" "\<forall>row \<in> set rows. length row = m" "\<forall>v \<in> set (concat rows). writable v"
    "int (length gs) + 1 < INT_MAX" "int (?k + length rows) < INT_MAX"
    using assms(1) by (auto simp: write_ok_def list_all_iff)
  note t = group_mem_target [OF assms(4) w(5), folded new_def, folded key_def]
  obtain db1 db2 r info db3 j db4 cs where s:
    "getRowgroupInfo srv b db (pinfo tbl part 0 0) = Inr (int ?n + 1, pinfo tbl part (int ?n + 1) 0, db1)"
    "getRowNumberInfoAndSetRowNumberInfo db1 (pinfo tbl part (int ?n + 1) 0) = Inr (int ?k, pinfo tbl part (int ?n + 1) (int ?k))"
    "(if int ?k = 0 then bindr (incRowNumber srv b db1 (pinfo tbl part (int ?n + 1) (int ?k)) 0) (\<lambda>(_, db). Inr db)
      else Inr db1) = Inr db2"
    "(if int ?k \<ge> rowgroup_size srv
      then bindr (IncRowgroupIdAndModifyInfo srv b db2 (pinfo tbl part (int ?n + 1) (int ?k)) 1) (\<lambda>(_, info, db).
            Inr (0, True, info, db))
      else Inr (int ?k, False, pinfo tbl part (int ?n + 1) (int ?k), db2)) = Inr (r, ?full, info, db3)"
    "next_group_if_tiered srv b db3 info r ?full = Inr (key, int (length ?old), pinfo tbl part (int (target new gs) + 1) j, db4)"
    "recount ?mk cs db db4" "count0 db4 ?mk (rg_field (target new gs)) = int (length ?old)"
    "\<forall>v. mcount db ?mk ++ cs ++ [rg_field (target new gs) \<mapsto> v] =
         mcount db ?mk ++ [''0'' \<mapsto> int (target new gs) + 1, rg_field (target new gs) \<mapsto> v]"
    using group_opened [OF assms(1,3,4), of b] unfolding key_def new_def by blast
  note fr = recount_frame [OF s(6)]
  have g4: "group_mem (cvsize srv) m (column ?old) db4 key" using t(3) group_mem_cong [OF fr(1)] by blast
  have "target new gs \<le> length gs" using t(1) by (auto simp: target_def opened_def)
  then have b: "int (target new gs) < INT_MAX" "int (length ?old + length rows) < INT_MAX" "int (length ?old) \<le> rowgroup_size srv"
    using w(5,9,10) by (auto simp: target_rows_def new_def starts_group_def)
  have x: "map_of (expires db4) key = None" using assms(4) fr(4) by (simp add: partition_holds_def key_def)
  have e: "(if ?full then 1 else 0 :: int) = 0 \<or> 0 < (if ?full then 1 else 0 :: int) \<and> map_of (ddict db4) key = None"
    using t(2) fr(1) by (auto simp: key_def target_def new_def starts_group_def)
  have ce: "can_enqueue db4" using assms(5) fr(5) by (simp add: can_enqueue_def)
  obtain e db5 db6 where db6: "write_values rget srv key (int (length ?old)) (int m) 0 (if ?full then 1 else 0)
      (concat rows) sh db4 = Inr (e, sh, db5)"
    "finish_write srv b db5 (pinfo tbl part (int (target new gs) + 1) j) key (int (length (concat rows))) (int m) e = Inr db6"
    "db_ok db6" "meta_ok db6" "group_mem (cvsize srv) m (column (?old @ rows)) db6 key"
    "appended key ?mk [rg_field (target new gs) \<mapsto> int (length ?old + length rows)] db4 db6"
    "evict_queued key db4 db6"
    using write_group [OF w(1) recount_db_ok [OF s(6) assms(2)] recount_meta(1) [OF s(6)] w(2-4) x g4 b(1) s(7) b(2) w(6-8) ce e] by blast
  have a: "appended key ?mk [''0'' \<mapsto> int (target new gs) + 1, rg_field (target new gs) \<mapsto> int (length ?old + length rows)] db db6"
    using appended_recount [OF s(6) db6(6)] s(8) by (simp add: appended_def)
  have m: "atoi (print_int (int m)) = int m" "c_mod (int (length (concat rows))) (int m) = Inr 0"
    using w(2,3) concat_rows_length [OF w(7)] by (simp_all add: atoi_print_int is_int_def c_mod_pos)
  have "fpWriteCommand rget srv b (command_key tbl part # p # print_int (int m) # i # concat rows) sh db = Inr (ReplyOk, sh, db6)"
    unfolding fpWriteCommand_def list.case parsing_command_key [OF w(1)] Let_def m
    using w(3) b(3) s(1-5) db6(1,2) by (simp only: bindr_Inr deref_simps split simp_thms if_True if_False of_nat_0_le_iff)
  moreover have "evict_queued key db4 db6 = evict_queued key db db6" unfolding evict_queued_def fr(1,5) ..
  ultimately show ?thesis
    using db6(3,4,7) a partition_written [OF w(1) assms(4) t(1) a [unfolded key_def] db6(5) [unfolded key_def]
      t(4) [unfolded key_def] w(7)] by auto
qed

lemma evict_queued_ok:
  assumes "qok (EvictQueue db) xs" and "queue_room (EvictQueue db)"
  shows "can_enqueue db" and "evict_queued key db db' \<Longrightarrow> qok (EvictQueue db') (queued xs key db db')"
proof -
  note e = enqueue_ok [OF assms]
  then show "can_enqueue db" unfolding can_enqueue_def by blast
  show "qok (EvictQueue db') (queued xs key db db')" if ev: "evict_queued key db db'"
  proof (cases "map_of (ddict db) key")
    case None
    then obtain a v where a: "map_of (ddict db') key = Some (a, v)" "enqueue (EvictQueue db) (Some a) = Inr (1, EvictQueue db')"
      using ev by (auto simp: evict_queued_def)
    then have "qok (EvictQueue db') (xs @ [a])" using e [of a] by auto
    with None a(1) show ?thesis by (simp add: queued_def)
  qed (use ev assms(1) in \<open>simp add: evict_queued_def queued_def\<close>)
qed

lemma concat_written: "concat (written new rows gs) = concat gs @ rows"
proof -
  have "concat (opened gs) = concat gs" by (simp add: opened_def)
  moreover have "concat (butlast (opened gs)) @ last (opened gs) = concat (opened gs)"
    using append_butlast_last_id [OF opened_simps(1), of gs]
    by (metis concat.simps concat_append append_Nil2)
  ultimately show ?thesis by (simp add: written_def del: append_assoc)
qed

text \<open>An empty database, a server with small groups, and a store that is an association list.\<close>

definition al_get :: "(string \<times> string) list rocks_get" where
  "al_get st k = Some (map_of st k)"

definition new_db :: "(string \<times> string) list redisDb" where
  "new_db = sample_db\<lparr>ddict := [], fresh := 0, unlinked := [], expires := [], Metadict := [],
     EvictQueue := createArrayQueue DEFAULT_ARRAY_QUEUE_SIZE\<rparr>"

definition small_server :: server where
  "small_server = sample_server\<lparr>rowgroup_size := 2, columnvector_size := 2\<rparr>"

lemma new_db_holds:
  "partition_holds rget srv m new_db tbl part []" "db_ok new_db" "meta_ok new_db"
  "qok (EvictQueue new_db) []" "queue_room (EvictQueue new_db)"
proof -
  show "partition_holds rget srv m new_db tbl part []"
    by (simp add: partition_holds_def new_db_def mcount_def)
  show "db_ok new_db" by (simp add: db_ok_def new_db_def entries_def al_ok_def)
  show "meta_ok new_db" by (simp add: meta_ok_def new_db_def al_ok_def)
  show "qok (EvictQueue new_db) []" unfolding new_db_def by (simp add: qok_create)
  show "queue_room (EvictQueue new_db)"
    unfolding new_db_def by (simp add: queue_room_def createArrayQueue_def inc_def)
qed

lemma sample_write_ok: "write_ok small_server 1 ''2'' 2 [[''a'', ''b'']] []"
proof -
  have "length (print_int 1) = 1" by code_simp
  then have "key_ok 1 ''2''" by (simp add: key_ok_def is_int_def part_ok_def)
  then show ?thesis by (simp add: write_ok_def small_server_def opened_def writable_def cstr_def)
qed

text \<open>
  C3. \<open>FPWRITE\<close> appends its rows to the partition. With row groups \<open>gs\<close> before, the partition
  afterwards holds the row groups with the new rows in the last one when that has room and is only
  in memory, and in a new one otherwise; read in order these are the old rows followed by the new
  ones, whatever is in memory and whatever in the store. A row group that is new in memory enters
  the eviction queue.
\<close>

theorem fpWrite_appends:
  assumes "write_ok srv tbl part m rows gs" and "db_ok db" and "meta_ok db"
    and "partition_holds rget srv m db tbl part gs" and "qok (EvictQueue db) xs" and "queue_room (EvictQueue db)"
  shows "\<exists>gs' db'. fpWriteCommand rget srv b (command_key tbl part # p # print_int (int m) # i # concat rows) sh db =
      Inr (ReplyOk, sh, db') \<and> db_ok db' \<and> meta_ok db' \<and>
    gs' = written (starts_group srv db tbl part gs) rows gs \<and> concat gs' = concat gs @ rows \<and>
    partition_holds rget srv m db' tbl part gs' \<and>
    qok (EvictQueue db') (queued xs (dkey tbl part (length gs' - 1)) db db')"
  using fpWrite_ok [OF assms(1-4) evict_queued_ok(1) [OF assms(5,6)], of b p i sh] evict_queued_ok(2) [OF assms(5,6)]
  by (auto simp: concat_written written_length)

theorem fpWrite_appends_witness:
  "\<exists>db'. fpWriteCommand al_get small_server [] (command_key 1 ''2'' # [] # print_int (int 2) # [] # [''a'', ''b''])
      createSharedObjects new_db = Inr (ReplyOk, createSharedObjects, db') \<and>
     partition_holds al_get small_server 2 db' 1 ''2'' [[[''a'', ''b'']]]"
proof -
  have "starts_group small_server new_db 1 ''2'' [] \<longleftrightarrow> False"
    by (simp add: starts_group_def opened_def small_server_def new_db_def)
  then have "written (starts_group small_server new_db 1 ''2'' []) [[''a'', ''b'']] [] = [[[''a'', ''b'']]]"
    by (simp add: written_def opened_def)
  then show ?thesis
    using fpWrite_appends [OF sample_write_ok new_db_holds(2,3,1,4,5), of al_get "[]" "[]" "[]" createSharedObjects]
    by auto
qed

lemma appended_other:
  assumes "appended (dkey tbl part g) (meta_key_text tbl part) cs db db'" and "part_ok part" and "part_ok part'"
    and "(tbl', part') \<noteq> (tbl, part)"
  shows "partition_holds rget srv m db' tbl' part' gs \<longleftrightarrow> partition_holds rget srv m db tbl' part' gs"
proof -
  have a: "\<forall>k. k \<noteq> dkey tbl part g \<longrightarrow> map_of (ddict db') k = map_of (ddict db) k"
    "\<forall>k. k \<noteq> meta_key_text tbl part \<longrightarrow> map_of (Metadict db') k = map_of (Metadict db) k"
    "expires db' = expires db" "persistent_store db' = persistent_store db"
    using assms(1) unfolding appended_def by blast+
  have m: "map_of (Metadict db') (meta_key_text tbl' part') = map_of (Metadict db) (meta_key_text tbl' part')"
    using a(2) assms(2-4) by (simp add: meta_key_inj)
  have d: "map_of (ddict db') (dkey tbl' part' h) = map_of (ddict db) (dkey tbl' part' h)" for h
    using a(1) assms(2-4) by (metis dkey_inj)
  show ?thesis by (intro partition_holds_cong a(3,4)) (simp_all add: m d mcount_def)
qed

text \<open>
  C7. \<open>FPWRITE\<close> to one partition leaves what every other partition holds as it was: no row group,
  counter, expiry or stored text of another partition changes.
\<close>

theorem fpWrite_other_partitions:
  assumes "write_ok srv tbl part m rows gs" and "db_ok db" and "meta_ok db"
    and "partition_holds rget srv m db tbl part gs" and "qok (EvictQueue db) xs" and "queue_room (EvictQueue db)"
    and "part_ok part'" and "(tbl', part') \<noteq> (tbl, part)"
  shows "\<exists>db'. fpWriteCommand rget srv b (command_key tbl part # p # print_int (int m) # i # concat rows) sh db =
      Inr (ReplyOk, sh, db') \<and>
    partition_holds rget srv m' db' tbl' part' gs' = partition_holds rget srv m' db tbl' part' gs'"
proof -
  have p: "part_ok part" using assms(1) by (simp add: write_ok_def key_ok_def)
  from fpWrite_ok [OF assms(1-4) evict_queued_ok(1) [OF assms(5,6)], of b p i sh] appended_other [OF _ p assms(7,8)] show ?thesis by blast
qed

theorem fpWrite_other_partitions_witness:
  "\<exists>db'. fpWriteCommand al_get small_server [] (command_key 1 ''2'' # [] # print_int (int 2) # [] # [''a'', ''b''])
      createSharedObjects new_db = Inr (ReplyOk, createSharedObjects, db') \<and>
     partition_holds al_get small_server 3 db' 1 ''3'' []"
proof -
  have "part_ok ''3''" "(1 :: int, ''3'') \<noteq> (1, ''2'')" by (simp_all add: part_ok_def)
  from fpWrite_other_partitions [OF sample_write_ok new_db_holds(2,3,1,4,5) this, of al_get "[]" "[]" "[]"
      createSharedObjects 3 "[]"] new_db_holds(1)
  show ?thesis by simp
qed

section \<open>Requests that are refused, and faults\<close>

text \<open>
  C37. \<open>FPWRITE\<close> refuses values that are not whole rows and changes nothing; with zero columns it
  divides by zero, and with more than a hundred it stops at an assertion.
\<close>

theorem fpWrite_refuses:
  assumes "key_ok tbl part"
  shows "(atoi cols = 0 \<longrightarrow> fpWriteCommand rget srv b (command_key tbl part # p # cols # i # vs) sh db = Inl DivByZero) \<and>
    (MAX_COLUMN_NUMBER < atoi cols \<longrightarrow>
      fpWriteCommand rget srv b (command_key tbl part # p # cols # i # vs) sh db = Inl AssertFailed) \<and>
    (atoi cols \<noteq> 0 \<and> atoi cols \<le> MAX_COLUMN_NUMBER \<and> int (length vs) mod \<bar>atoi cols\<bar> \<noteq> 0 \<longrightarrow>
      fpWriteCommand rget srv b (command_key tbl part # p # cols # i # vs) sh db = Inr (ReplyError, sh, db))"
proof -
  have "vs \<noteq> []" if "int (length vs) mod \<bar>atoi cols\<bar> \<noteq> 0" using that by auto
  then show ?thesis by (auto simp: fpWriteCommand_def parsing_command_key [OF assms] c_mod_def Let_def)
qed

theorem fpWrite_refuses_witness:
  "fpWriteCommand al_get small_server [] [command_key 1 ''2'', [], ''2'', [], ''a''] createSharedObjects new_db =
     Inr (ReplyError, createSharedObjects, new_db)"
proof -
  have "key_ok 1 ''2''" using sample_write_ok by (simp add: write_ok_def)
  moreover have "atoi ''2'' = 2" by code_simp
  ultimately show ?thesis
    using fpWrite_refuses [where tbl = 1 and part = "''2''" and cols = "''2''" and rget = al_get and srv = small_server
      and b = "[]" and p = "[]" and i = "[]" and vs = "[''a'']" and sh = createSharedObjects and db = new_db] by simp
qed

definition is_null :: "string \<Rightarrow> bool" where
  "is_null v \<longleftrightarrow> cstr v = ''null''"

lemma write_values_nulls:
  "write_values rget srv key rown m idx enroll vs sh db = Inr (e, sh', db') \<Longrightarrow>
   nullValue sh' + length (filter is_null vs) = nullValue sh"
proof (induction vs arbitrary: idx enroll sh db)
  case Nil
  then show ?case by simp
next
  case (Cons v vs)
  then obtain w sh1 idx1 e1 db1 where w: "value_object sh v = Inr (w, sh1)"
    "write_values rget srv key rown m idx1 e1 vs sh1 db1 = Inr (e, sh', db')"
    by (auto simp: Let_def bindr_eq_Inr split: if_splits)
  have "nullValue sh1 + (if is_null v then 1 else 0) = nullValue sh"
    using w(1) by (auto simp: value_object_def decr_shared_def is_null_def split: if_splits)
  with Cons.IH [OF w(2)] show ?case by (simp split: if_splits)
qed

text \<open>
  C39. The shared object for missing values is released once for every missing value that is written
  and never retained, so that its reference count falls by their number: the server, which creates
  it with a count of one, can write one missing value in its lifetime, and a second one uses an
  object that has been freed.
\<close>

theorem fpWrite_null_count:
  assumes "fpWriteCommand rget srv b (key # p # cols # i # vs) sh db = Inr (ReplyOk, sh', db')"
  shows "nullValue sh' + length (filter is_null vs) = nullValue sh"
  using assms
  by (auto simp: fpWriteCommand_def Let_def bindr_eq_Inr split: if_splits dest!: write_values_nulls)

theorem fpWrite_null_count_witness:
  "\<exists>sh db. fpWriteCommand al_get small_server [] [''D:{1:2}'', [], ''1'', [], ''null''] createSharedObjects
       (sample_db\<lparr>expires := []\<rparr>) = Inr (ReplyOk, sh, db) \<and> nullValue sh = 0"
proof -
  have "case fpWriteCommand al_get small_server [] [''D:{1:2}'', [], ''1'', [], ''null''] createSharedObjects
      (sample_db\<lparr>expires := []\<rparr>) of Inl e \<Rightarrow> False | Inr (r, sh, db) \<Rightarrow> r = ReplyOk"
    by code_simp
  then obtain sh db where run: "fpWriteCommand al_get small_server [] [''D:{1:2}'', [], ''1'', [], ''null''] createSharedObjects
      (sample_db\<lparr>expires := []\<rparr>) = Inr (ReplyOk, sh, db)"
    by (auto split: sum.splits)
  moreover have "length (filter is_null [''null'']) = 1" "nullValue createSharedObjects = 1" by code_simp+
  ultimately show ?thesis using fpWrite_null_count [OF run] by auto
qed

end
