(* ===== verification/Scan.thy ===== *)
theory Scan
  imports Partition
begin

text \<open>
  What \<open>FPSCAN\<close> answers. A scan reads the row groups of a partition in order, each from memory or
  from the texts in the store, with a cache per column; whichever source a row group has, the
  answer is the chosen columns of all rows in the order they were written.
\<close>

section \<open>The loops over rows and columns\<close>

lemma scan_columns_ok:
  assumes "list_all2 I cols cs"
    and "\<And>col c. col \<in> set cols \<Longrightarrow> I col c \<Longrightarrow> \<exists>c'. cell col c = Inr (v col, c') \<and> J col c'"
  shows "\<exists>cs'. scan_columns cell cols cs = Inr (map v cols, cs') \<and> list_all2 J cols cs'"
  using assms
proof (induction cols cs rule: list_all2_induct)
  case Nil
  then show ?case by simp
next
  case (Cons col cols c cs)
  obtain c' where c': "cell col c = Inr (v col, c')" "J col c'" using Cons.prems Cons.hyps(1) by auto
  obtain cs' where "scan_columns cell cols cs = Inr (map v cols, cs')" "list_all2 J cols cs'"
    using Cons.IH Cons.prems by auto
  with c' show ?case by auto
qed

text \<open>The cell of row \<open>j\<close> turns the invariant of the caches at \<open>j\<close> into the one at the next row.\<close>

lemma scan_rows_ok:
  assumes "\<And>j col c. j < n \<Longrightarrow> col \<in> set cols \<Longrightarrow> I j col c \<Longrightarrow>
      \<exists>c'. cell (j + 1) col c = Inr (v j col, c') \<and> I (j + 1) col c'"
    and "list_all2 (I i) cols cs" and "i \<le> n"
  shows "scan_rows cell cols [i..<n] cs = Inr (concat (map (\<lambda>j. map (v j) cols) [i..<n]))"
  using assms(2,3)
proof (induction "n - i" arbitrary: i cs)
  case 0
  then show ?case by simp
next
  case (Suc k)
  then have i: "i < n" "[i..<n] = i # [i + 1..<n]" by (simp_all add: upt_conv_Cons)
  obtain cs' where cs': "scan_columns (cell (i + 1)) cols cs = Inr (map (v i) cols, cs')" "list_all2 (I (i + 1)) cols cs'"
    using scan_columns_ok [OF Suc.prems(1), of "cell (i + 1)" "v i" "I (i + 1)"] assms(1) [OF i(1)] by blast
  have "scan_rows cell cols [i + 1..<n] cs' = Inr (concat (map (\<lambda>j. map (v j) cols) [i + 1..<n]))"
    using Suc i(1) cs'(2) by (intro Suc.hyps(1)) simp_all
  with cs'(1) show ?case by (simp add: i(2))
qed

section \<open>One row group\<close>

text \<open>The values of a row group in the order of a scan.\<close>

definition chosen :: "int list \<Rightarrow> string list list \<Rightarrow> string list" where
  "chosen cols rows = concat (map (\<lambda>row. map (\<lambda>col. row ! nat (col - 1)) cols) rows)"

definition cols_ok :: "nat \<Rightarrow> int list \<Rightarrow> bool" where
  "cols_ok m cols \<longleftrightarrow> (\<forall>col \<in> set cols. 1 \<le> col \<and> col \<le> int m \<and> col \<le> INT_MAX)"

lemma chosen_upt:
  "concat (map (\<lambda>j. map (\<lambda>col. rows ! j ! nat (col - 1)) cols) [0..<length rows]) = chosen cols rows"
proof -
  have "map (\<lambda>j. map (\<lambda>col. rows ! j ! nat (col - 1)) cols) [0..<length rows] =
      map (\<lambda>row. map (\<lambda>col. row ! nat (col - 1)) cols) rows"
    by (rule nth_equalityI) simp_all
  then show ?thesis by (simp add: chosen_def)
qed

lemma column_vector_id:
  assumes "0 < sz" and "int j < INT_MAX"
  shows "getColumnVectorId sz (j + 1) = Inr (int (j div sz) + 1)" and "getColumnVectorIndex sz (j + 1) = Inr (j mod sz)"
proof -
  have "size_dec (j + 1) = j" using size_dec_pos [of "j + 1"] by simp
  moreover have "int (j div sz) \<le> int j" by (simp only: of_nat_le_iff div_le_dividend)
  with assms(2) have "is_int (int (j div sz) + 1)" unfolding is_int_def by linarith
  then have "c_int (int (j div sz) + 1) = int (j div sz) + 1" by (rule c_int_id)
  ultimately show "getColumnVectorId sz (j + 1) = Inr (int (j div sz) + 1)" "getColumnVectorIndex sz (j + 1) = Inr (j mod sz)"
    using assms(1) by (simp_all add: getColumnVectorId_def getColumnVectorIndex_def add.commute)
qed

text \<open>From memory: a cache holds the vector that its number names.\<close>

definition memory_cache :: "relation \<Rightarrow> int \<Rightarrow> int \<times> string vector option \<Rightarrow> bool" where
  "memory_cache r col c \<longleftrightarrow> fst c = - 1 \<or> snd c = map_of r (getDataFieldSds (fst c) col)"

lemma cell_memory_ok:
  assumes "rel_holds (cvsize srv) m (column rows) r" and "val obj = HashObj (OBJ_ENCODING_REL r)"
    and "0 < columnvector_size srv" and "j < length rows" and "int (length rows) \<le> INT_MAX"
    and "1 \<le> col" and "col \<le> int m" and "memory_cache r col c"
  shows "\<exists>c'. cell_memory srv obj (j + 1) col c = Inr (rows ! j ! nat (col - 1), c') \<and> memory_cache r col c'"
proof -
  let ?sz = "cvsize srv" and ?c = "nat (col - 1)"
  have sz: "0 < ?sz" using assms(3) by (simp add: cvsize_def)
  let ?k = "j div ?sz" and ?i = "j mod ?sz"
  have f: "getDataFieldSds (int ?k + 1) col = field ?k ?c"
    using assms(6) by (simp add: getDataFieldSds_def field_def getDataField_def)
  have l: "j < length (column rows ?c)" using assms(4) by simp
  note ch = chunk_nth [OF l sz]
  have "slot_holds (map_of r (field ?k ?c)) (chunk ?sz ?k (column rows ?c))"
    using assms(1,6,7) by (simp add: rel_holds_def)
  then obtain vec where vec: "map_of r (field ?k ?c) = Some vec" "vok vec (map Some (chunk ?sz ?k (column rows ?c)))"
    using ch(1) by (cases "map_of r (field ?k ?c)") auto
  have g: "vectorGet vec ?i = Inr (Some (rows ! j ! ?c))"
    using vok_get [OF vec(2), of ?i] ch assms(4) by (simp add: column_def)
  have id: "getColumnVectorId ?sz (j + 1) = Inr (int ?k + 1)" "getColumnVectorIndex ?sz (j + 1) = Inr ?i"
    using column_vector_id [OF sz, of j] assms(4,5) by simp_all
  have n: "int ?k + 1 \<noteq> - 1" by simp
  show ?thesis
  proof (cases "fst c = int ?k + 1")
    case True
    then have "snd c = Some vec" using assms(8) n vec(1) f by (auto simp: memory_cache_def)
    then show ?thesis
      using True id g assms(8) by (simp add: cell_memory_def cvsize_def)
  next
    case False
    then have "cell_memory srv obj (j + 1) col c = Inr (rows ! j ! ?c, int ?k + 1, Some vec)"
      using id g vec(1) f assms(2) by (simp add: cell_memory_def cvsize_def relation_of_def)
    then show ?thesis using vec(1) f by (simp add: memory_cache_def)
  qed
qed

lemma cachedScan_ok:
  assumes "rel_holds (cvsize srv) m (column rows) r" and "dictObj p = Some obj" and "val obj = HashObj (OBJ_ENCODING_REL r)"
    and "rowCount p = length rows" and "0 < columnvector_size srv" and "int (length rows) \<le> INT_MAX" and "cols_ok m cols"
  shows "cachedScan srv p cols = Inr (chosen cols rows)"
  unfolding cachedScan_def assms(2,4) deref_simps bindr_Inr chosen_upt [symmetric]
proof (rule scan_rows_ok [where I = "\<lambda>_. memory_cache r"])
  show "list_all2 (memory_cache r) cols (replicate (length cols) (- 1, None))"
    by (simp add: list_all2_conv_all_nth memory_cache_def)
qed (use cell_memory_ok [OF assms(1,3,5) _ assms(6)] assms(7) in \<open>auto simp: cols_ok_def\<close>)

text \<open>
  From the store: a cache holds an iterator on the text of its column vector, at the entry of the
  current row.
\<close>

definition iterator_cache :: "nat \<Rightarrow> string list \<Rightarrow> nat \<Rightarrow> int \<times> col_iter option \<Rightarrow> bool" where
  "iterator_cache sz xs j c \<longleftrightarrow>
     (j mod sz \<noteq> 0 \<longrightarrow> fst c = int (j div sz) + 1) \<and>
     (j < length xs \<and> fst c = int (j div sz) + 1 \<longrightarrow>
        (\<exists>ty. snd c = Some (col_at ty (chunk sz (j div sz) xs) [NUL] (j mod sz))))"

lemma iterator_cache_next:
  assumes "0 < sz" and "j < length xs" and "int (length xs) \<le> INT_MAX" and "col_clean (chunk sz (j div sz) xs)"
  shows "iterator_cache sz xs (j + 1)
    (int (j div sz) + 1, Some (snd (snd (columnVectorIterNext (col_at ty (chunk sz (j div sz) xs) [NUL] (j mod sz))))))"
proof (cases "Suc j mod sz = 0")
  case True
  then have "Suc j div sz = Suc (j div sz)" by (simp add: div_Suc)
  with True show ?thesis by (simp add: iterator_cache_def)
next
  case False
  then have s: "Suc j div sz = j div sz" "Suc j mod sz = Suc (j mod sz)" by (simp_all add: div_Suc mod_Suc split: if_splits)
  let ?es = "chunk sz (j div sz) xs"
  have "columnVectorIterNext (col_at ty ?es [NUL] (j mod sz)) = (True, False, col_at ty ?es [NUL] (Suc (j mod sz)))"
    if "Suc j < length xs"
  proof (rule col_at_next)
    show n: "Suc (j mod sz) < length ?es" using chunk_nth(1) [OF that assms(1)] by (simp add: s)
    then show "CHR '':'' \<notin> set (?es ! (j mod sz))"
      using assms(4) unfolding col_clean_def by (metis Suc_lessD diff_Suc_1 nat_neq_iff less_diff_conv Suc_eq_plus1)
    show "int (length ?es) \<le> INT_MAX" using chunk_length [of sz "j div sz" xs] assms(3) by linarith
  qed
  then show ?thesis by (auto simp: iterator_cache_def s)
qed

lemma cell_iterator_ok:
  assumes "key_ok tbl part" and "int g < INT_MAX"
    and "store_holds rget (cvsize srv) m (column rows) (persistent_store db) (dkey tbl part g)"
    and "0 < columnvector_size srv" and "j < length rows" and "int (length rows) \<le> INT_MAX"
    and "1 \<le> col" and "col \<le> int m" and "col \<le> INT_MAX"
    and "iterator_cache (cvsize srv) (column rows (nat (col - 1))) j c"
  shows "\<exists>c'. cell_iterator rget srv b db (pinfo tbl part (int g + 1) k) (j + 1) col c = Inr (rows ! j ! nat (col - 1), c') \<and>
    iterator_cache (cvsize srv) (column rows (nat (col - 1))) (j + 1) c'"
proof -
  let ?sz = "cvsize srv" and ?c = "nat (col - 1)"
  let ?k = "j div ?sz" and ?i = "j mod ?sz" and ?xs = "column rows ?c" and ?info = "pinfo tbl part (int g + 1) k"
  let ?es = "chunk ?sz ?k ?xs"
  have sz: "0 < ?sz" using assms(4) by (simp add: cvsize_def)
  have l: "j < length ?xs" "int (length ?xs) \<le> INT_MAX" using assms(5,6) by simp_all
  note ch = chunk_nth [OF l(1) sz]
  have ne: "?es \<noteq> []" "int (length ?es) \<le> INT_MAX" using ch(1) chunk_length [of ?sz ?k ?xs] l(2) by auto
  have cm: "?c < m" using assms(7,8) by linarith
  obtain ty where ty: "0 \<le> ty" "ty < 4" "col_clean ?es"
    "rget (persistent_store db) (dkey tbl part g @ '':F:'' @ field ?k ?c) = Some (Some (col_text ty ?es @ [NUL]))"
    using assms(3) cm ne(1) unfolding store_holds_def by blast
  have id: "getColumnVectorId ?sz (j + 1) = Inr (int ?k + 1)" using column_vector_id(1) [OF sz, of j] assms(5,6) by simp
  obtain ty' where c1: "(if int ?k + 1 \<noteq> fst c
      then bindr (generateDataRocksKeySds b ?info (int ?k + 1) col) (\<lambda>key.
             bindr (getRawColumnVectorFromRocksDB rget db key) (\<lambda>text.
               bindr (makeColumnVectorIter text) (\<lambda>its. Inr (int ?k + 1, map_option fst its))))
      else Inr c) = Inr (int ?k + 1, Some (col_at ty' ?es [NUL] ?i))"
  proof (cases "fst c = int ?k + 1")
    case True
    then show ?thesis using that assms(10) l(1) by (cases c) (auto simp: iterator_cache_def)
  next
    case False
    then have i: "?i = 0" using assms(10) by (auto simp: iterator_cache_def)
    have "?k \<le> j" by simp
    then have "int ?k + 1 \<le> INT_MAX" using assms(5,6) by linarith
    then have "is_int (int ?k + 1)" "is_int (int g + 1)" "is_int col" "is_int ty"
      using assms(2,7,9) ty(1,2) by (simp_all add: is_int_def)
    moreover have "getDataField (int ?k + 1) col = field ?k ?c" using assms(7) by (simp add: field_def)
    ultimately have "generateDataRocksKeySds b ?info (int ?k + 1) col = Inr (dkey tbl part g @ '':F:'' @ field ?k ?c)"
      using pinfo_rocks_key [OF assms(1), of "int g + 1" "int ?k + 1" col b k] by (simp add: dkey_def)
    moreover obtain last where "makeColumnVectorIter (Some (col_text ty ?es @ [NUL])) = Inr (Some (col_at ty ?es [NUL] 0, last))"
      using makeColumnVectorIter_begin [OF \<open>is_int ty\<close> ne(2), of "[NUL]"] by auto
    ultimately show ?thesis using that [of ty] False ty(4) by (simp add: getRawColumnVectorFromRocksDB_def i)
  qed
  let ?it = "col_at ty' ?es [NUL] ?i"
  have "columnVectorIterGetNoCopy ?it = Inr (Some (it_pos ?it, length (?es ! ?i)))"
    "take (length (?es ! ?i)) (drop (it_pos ?it) (col_text ty' ?es @ [NUL])) = ?es ! ?i"
    using col_at_get [OF ch(1)] ty(3) ch(1) by (simp_all add: col_clean_def)
  moreover have "it_col ?it = Some (col_text ty' ?es @ [NUL])" by (simp add: col_at_def)
  moreover have "?es ! ?i = rows ! j ! ?c" using ch(2) assms(5) by (simp add: column_def)
  ultimately have "cell_iterator rget srv b db ?info (j + 1) col c =
      Inr (rows ! j ! ?c, int ?k + 1, Some (snd (snd (columnVectorIterNext ?it))))"
    unfolding cell_iterator_def cvsize_def [symmetric] id bindr_Inr c1 by simp
  then show ?thesis using iterator_cache_next [OF sz l ty(3), of ty'] by blast
qed

lemma scan_iterator_ok:
  assumes "key_ok tbl part" and "int g < INT_MAX"
    and "store_holds rget (cvsize srv) m (column rows) (persistent_store db) (dkey tbl part g)"
    and "rowCount p = length rows" and "0 < columnvector_size srv" and "int (length rows) \<le> INT_MAX" and "cols_ok m cols"
  shows "cachedScanOnRocksDB_iterator rget srv b db (pinfo tbl part (int g + 1) k) p cols = Inr (chosen cols rows)"
  unfolding cachedScanOnRocksDB_iterator_def assms(4) chosen_upt [symmetric]
proof (rule scan_rows_ok [where I = "\<lambda>j col. iterator_cache (cvsize srv) (column rows (nat (col - 1))) j"])
  show "list_all2 (\<lambda>col. iterator_cache (cvsize srv) (column rows (nat (col - 1))) 0) cols (replicate (length cols) (- 1, None))"
    by (simp add: list_all2_conv_all_nth iterator_cache_def)
qed (use cell_iterator_ok [OF assms(1-3,5) _ assms(6)] assms(7) in \<open>auto simp: cols_ok_def\<close>)

section \<open>All row groups\<close>

definition group_param :: "'ps redisDb \<Rightarrow> int \<Rightarrow> string \<Rightarrow> string list list list \<Rightarrow> nat \<Rightarrow> row_group_param" where
  "group_param db tbl part gs g =
     (let obj = map_option snd (map_of (ddict db) (dkey tbl part g))
      in \<lparr>dictObj = obj, isInRocksDb = (case obj of None \<Rightarrow> True | Some v \<Rightarrow> loc v = LOCATION_PERSISTED),
          rowCount = length (gs ! g)\<rparr>)"

text \<open>The counters of a partition are in the range of \<open>int\<close>.\<close>

definition sizes_ok :: "string list list list \<Rightarrow> bool" where
  "sizes_ok gs \<longleftrightarrow> int (length gs) < INT_MAX \<and> list_all (\<lambda>rows. int (length rows) \<le> INT_MAX) gs"

lemma sizes_ok_nth: "sizes_ok gs \<Longrightarrow> g < length gs \<Longrightarrow> int (length (gs ! g)) \<le> INT_MAX \<and> int g < INT_MAX"
  by (auto simp: sizes_ok_def list_all_length)

lemma createRowGroupParameter_ok:
  "map_of (expires db) key = None \<Longrightarrow>
   createRowGroupParameter rget srv db key =
     Inr (\<lparr>dictObj = map_option snd (map_of (ddict db) key),
          isInRocksDb = (case map_option snd (map_of (ddict db) key) of None \<Rightarrow> True | Some v \<Rightarrow> loc v = LOCATION_PERSISTED),
          rowCount = 0\<rparr>, db)"
  by (auto simp: createRowGroupParameter_def expire_none lookupKey_def split: option.splits)

lemma populate_groups_ok:
  assumes "key_ok tbl part" and "meta_ok db" and "partition_holds rget srv m db tbl part gs" and "sizes_ok gs"
  shows "i \<le> length gs \<Longrightarrow> \<exists>g' k'. populate_groups rget srv b [i..<length gs] (pinfo tbl part g k) db =
    Inr (map (group_param db tbl part gs) [i..<length gs], pinfo tbl part g' k', db)"
proof (induction "length gs - i" arbitrary: i g k)
  case 0
  then show ?case by auto
next
  case (Suc n)
  then have i: "i < length gs" "[i..<length gs] = i # [i + 1..<length gs]" by (simp_all add: upt_conv_Cons)
  note sz = sizes_ok_nth [OF assms(4) i(1)]
  have h: "map_of (expires db) (dkey tbl part i) = None"
    "count0 db (meta_key_text tbl part) (rg_field i) = int (length (gs ! i))"
    using assms(3) i(1) by (simp_all add: partition_holds_def count0_def)
  have "is_int (int i + 1)" using sz by (simp add: is_int_def)
  then have k: "generateDataKey b (pinfo tbl part (int i + 1) k) = Inr (dkey tbl part i)"
    using pinfo_keys(1) [OF assms(1)] by (simp add: dkey_def)
  note r = row_number_read [OF assms(1,2) conjunct2 [OF sz] h(2) conjunct1 [OF sz], of k]
  obtain g' k' where "populate_groups rget srv b [i + 1..<length gs] (pinfo tbl part (int i + 1) (int (length (gs ! i)))) db =
    Inr (map (group_param db tbl part gs) [i + 1..<length gs], pinfo tbl part g' k', db)"
  proof -
    have "n = length gs - (i + 1)" "i + 1 \<le> length gs" using Suc.hyps(2) i(1) by simp_all
    from Suc.hyps(1) [OF this] show thesis using that by blast
  qed
  moreover have "nat (int (length (gs ! i)) mod 2 ^ 63) = length (gs ! i)" using sz by simp
  ultimately show ?case
    unfolding i(2) populate_groups.simps Let_def pinfo_simps k bindr_Inr createRowGroupParameter_ok [OF h(1)] split r
    by (auto simp: group_param_def Let_def)
qed

lemma chosen_append: "chosen cols (rows @ rows') = chosen cols rows @ chosen cols rows'"
  by (simp add: chosen_def)

lemma scan_groups_ok:
  assumes "key_ok tbl part" and "partition_holds rget srv m db tbl part gs" and "sizes_ok gs"
    and "0 < columnvector_size srv" and "cols_ok m cols"
  shows "i \<le> length gs \<Longrightarrow> scan_groups rget srv b db (pinfo tbl part g k) cols i (map (group_param db tbl part gs) [i..<length gs]) =
    Inr (chosen cols (concat (drop i gs)))"
proof (induction "length gs - i" arbitrary: i g)
  case 0
  then show ?case by (simp add: chosen_def)
next
  case (Suc n)
  then have i: "i < length gs" "[i..<length gs] = i # [i + 1..<length gs]" "drop i gs = gs ! i # drop (i + 1) gs"
    by (simp_all add: upt_conv_Cons Cons_nth_drop_Suc)
  note sz = sizes_ok_nth [OF assms(3) i(1)]
  let ?p = "group_param db tbl part gs i" and ?info = "pinfo tbl part (int i + 1) k"
  have h: "group_holds rget (cvsize srv) m (column (gs ! i)) db (dkey tbl part i)"
    using assms(2) i(1) by (simp add: partition_holds_def)
  have n: "rowCount ?p = length (gs ! i)" by (simp add: group_param_def Let_def)
  have "(if isInRocksDb ?p then cachedScanOnRocksDB_iterator rget srv b db ?info ?p cols
      else cachedScan srv ?p cols) = Inr (chosen cols (gs ! i))"
  proof (cases "isInRocksDb ?p")
    case True
    then have "store_holds rget (cvsize srv) m (column (gs ! i)) (persistent_store db) (dkey tbl part i)"
      using h by (auto simp: group_param_def group_holds_def Let_def split: option.splits)
    from scan_iterator_ok [OF assms(1) conjunct2 [OF sz] this n assms(4) conjunct1 [OF sz] assms(5)]
    show ?thesis using True by simp
  next
    case False
    then obtain obj r where "dictObj ?p = Some obj" "val obj = HashObj (OBJ_ENCODING_REL r)"
        "rel_holds (cvsize srv) m (column (gs ! i)) r"
      using h by (auto simp: group_param_def group_holds_def Let_def split: option.splits)
    with False show ?thesis using cachedScan_ok [OF _ _ _ n assms(4) _ assms(5)] sz by simp
  qed
  moreover have "scan_groups rget srv b db ?info cols (i + 1) (map (group_param db tbl part gs) [i + 1..<length gs]) =
      Inr (chosen cols (concat (drop (i + 1) gs)))"
    using Suc.hyps i(1) by (intro Suc.hyps(1)) simp_all
  ultimately show ?case
    unfolding i(2,3) list.map scan_groups.simps Let_def pinfo_simps by (simp add: chosen_append)
qed

section \<open>The command\<close>

lemma print_int_nonempty: "print_int i \<noteq> []"
  by (simp add: print_int_def)

lemma join_set: "set (join sep xs) \<subseteq> set sep \<union> \<Union> (set ` set xs)"
  by (induction xs) (auto simp: join_Cons)

lemma join_print_int_clean: "NUL \<notin> set (sdsjoinsds (map print_int cols) '','')"
  using join_set [of "'',''" "map print_int cols"] print_int_excludes(5) by (auto simp: sdsjoinsds_def join_loop_join)

lemma parseColumnParameter_ok:
  assumes "cols \<noteq> []" and "list_all is_int cols"
  shows "parseColumnParameter (sdsjoinsds (map print_int cols) '','') = Inr cols"
proof -
  have "map atoi (map print_int cols) = cols" using assms(2) by (induction cols) simp_all
  moreover have "CHR '','' \<notin> set (print_int i)" for i
    by (auto dest!: print_int_chars simp: is_digit_def)
  then have "sdssplit (sdsjoinsds (map print_int cols) '','') '','' = Some (map print_int cols)"
    using assms(1) print_int_nonempty by (intro sdssplit_join) auto
  ultimately show ?thesis
    using assms(1) by (simp add: parseColumnParameter_def cstr_id join_print_int_clean)
qed

lemma fpScan_ok:
  assumes "key_ok tbl part" and "meta_ok db" and "partition_holds rget srv m db tbl part gs" and "sizes_ok gs"
    and "0 < columnvector_size srv" and "cols_ok m cols" and "cols \<noteq> []"
  shows "fpScanCommand rget srv b [command_key tbl part, sdsjoinsds (map print_int cols) '',''] db =
    Inr (ReplyBulks (chosen cols (concat gs)), db)"
proof -
  have z: "is_int 0" by (simp add: is_int_def)
  have n: "int (length gs) \<le> INT_MAX" using assms(4) by (simp add: sizes_ok_def)
  have c: "list_all is_int cols" using assms(6) by (auto simp: list_all_iff cols_ok_def is_int_def)
  have "if length gs = 0 then map_of (Metadict db) (meta_key_text tbl part) = None
      else mcount db (meta_key_text tbl part) ''0'' = Some (int (length gs))"
    using assms(3) by (simp add: partition_holds_def)
  then have "createScanParameter db (command_key tbl part) (sdsjoinsds (map print_int cols) '','') =
      Inr \<lparr>totalRowGroupCount = int (length gs), scanKeyInfo = pinfo tbl part (int (length gs)) 0, columnParam = cols\<rparr>"
    using group_number_read [OF assms(1,2) z _ n, of 0] parseColumnParameter_ok [OF assms(7) c]
    by (simp add: createScanParameter_def parsing_command_key [OF assms(1)])
  moreover obtain g' k' where "populate_groups rget srv b [0..<length gs] (pinfo tbl part (int (length gs)) 0) db =
    Inr (map (group_param db tbl part gs) [0..<length gs], pinfo tbl part g' k', db)"
    using populate_groups_ok [OF assms(1-4), of 0 b "int (length gs)" 0] by auto
  ultimately show ?thesis
    using scan_groups_ok [OF assms(1,3-6), of 0 b g' k']
    by (simp add: fpScanCommand_def populateScanParameter_def scanDataFromADDB_def)
qed

text \<open>
  C4. \<open>FPSCAN\<close> answers with the chosen columns of every row of the partition, in the order of the
  rows, and changes nothing, whether a row group is in memory, only in the store, or in both. The
  hypotheses are that the database holds the partition and that the column ids exist.
\<close>

theorem fpScan_answers:
  assumes "key_ok tbl part" and "meta_ok db" and "partition_holds rget srv m db tbl part gs" and "sizes_ok gs"
    and "0 < columnvector_size srv" and "cols_ok m cols" and "cols \<noteq> []"
  shows "fpScanCommand rget srv b [command_key tbl part, sdsjoinsds (map print_int cols) '',''] db =
    Inr (ReplyBulks (concat (map (\<lambda>row. map (\<lambda>col. row ! nat (col - 1)) cols) (concat gs))), db)"
  using fpScan_ok [OF assms] by (simp add: chosen_def)

theorem fpScan_answers_witness:
  "\<exists>db. fpWriteCommand al_get small_server [] (command_key 1 ''2'' # [] # print_int (int 2) # [] # [''a'', ''b''])
      createSharedObjects new_db = Inr (ReplyOk, createSharedObjects, db) \<and>
     fpScanCommand al_get small_server [] [command_key 1 ''2'', sdsjoinsds (map print_int [2, 1]) '',''] db =
       Inr (ReplyBulks [''b'', ''a''], db)"
proof -
  have k: "key_ok 1 ''2''" using sample_write_ok by (simp add: write_ok_def)
  let ?gs = "[[[''a'', ''b'']]]"
  have "starts_group small_server new_db 1 ''2'' [] \<longleftrightarrow> False"
    by (simp add: starts_group_def opened_def small_server_def new_db_def)
  then have "written (starts_group small_server new_db 1 ''2'' []) [[''a'', ''b'']] [] = ?gs"
    by (simp add: written_def opened_def)
  then obtain db where db: "fpWriteCommand al_get small_server [] (command_key 1 ''2'' # [] # print_int (int 2) # [] # [''a'', ''b''])
      createSharedObjects new_db = Inr (ReplyOk, createSharedObjects, db)" "meta_ok db"
    "partition_holds al_get small_server 2 db 1 ''2'' ?gs"
    using fpWrite_ok [OF sample_write_ok new_db_holds(2,3,1) evict_queued_ok(1) [OF new_db_holds(4,5)], of al_get "[]" "[]" "[]" createSharedObjects] by auto
  have "sizes_ok ?gs" "0 < columnvector_size small_server" "cols_ok 2 [2, 1]" "[2, 1 :: int] \<noteq> []"
    by (simp_all add: sizes_ok_def small_server_def cols_ok_def)
  from fpScan_answers [OF k db(2,3) this, of "[]"] db(1) show ?thesis by auto
qed

end
