(* ===== verification/Tiering.thy ===== *)
theory Tiering
  imports Scan
begin

text \<open>
  Tiering of row groups to the persistent store (\<open>src/src/evict.c\<close>, \<open>src/src/lazyfree.c\<close>,
  \<open>src/src/bio.c\<close>, \<open>src/src/addb_relational.c\<close>). When memory runs short the main thread takes row
  groups from the eviction queue, marks them as being flushed and hands them to a background
  thread, which writes them in one batch and marks them as persisted; the main thread then drops
  persisted row groups from memory in the order of the free queue.
\<close>

section \<open>Definitions\<close>

subsection \<open>Writing to the store\<close>

text \<open>
  The store applies a list of puts at once, or reports an error. A put with the same key as an
  earlier one of the list replaces it.
\<close>

type_synonym 'ps rocks_write = "'ps \<Rightarrow> (string \<times> string) list \<Rightarrow> 'ps option"

abbreviation (input) SDS_DATA_KEY_MAX :: nat where "SDS_DATA_KEY_MAX \<equiv> 268"

text \<open>The key of a vector, printed to a buffer, and the put of its text with the terminator.\<close>

definition field_put :: "string \<Rightarrow> string \<Rightarrow> string vector \<Rightarrow> (string \<times> string) res" where
  "field_put key fld vec =
     (let keystr = cstr key @ '':'' @ ''F:'' @ cstr fld
      in if length keystr < SDS_DATA_KEY_MAX
         then bindr (vectorSerialize vec) (\<lambda>s. Inr (keystr, cstr s @ [NUL]))
         else Inl OutOfBounds)"

fun relation_puts :: "string \<Rightarrow> relation \<Rightarrow> (string \<times> string) list res" where
  "relation_puts key [] = Inr []"
| "relation_puts key ((fld, vec) # r) =
     bindr (field_put key fld vec) (\<lambda>p.
       bindr (relation_puts key r) (\<lambda>ps. Inr (p # ps)))"

definition rocks_write :: "'ps rocks_write \<Rightarrow> (string \<times> string) list \<Rightarrow> 'ps redisDb \<Rightarrow> 'ps redisDb res" where
  "rocks_write rwrite puts db =
     (case rwrite (persistent_store db) puts of
        None \<Rightarrow> Inl ServerPanic
      | Some st \<Rightarrow> Inr (db\<lparr>persistent_store := st\<rparr>))"

definition prepareWriteToRocksDB ::
  "'ps rocks_write \<Rightarrow> 'ps redisDb \<Rightarrow> string \<Rightarrow> robj \<Rightarrow> 'ps redisDb res" where
  "prepareWriteToRocksDB rwrite db key targetVal =
     bindr (relation_of targetVal) (\<lambda>r.
       bindr (relation_puts key r) (\<lambda>puts. rocks_write rwrite puts db))"

text \<open>The text of a string object as it is, without a terminator.\<close>

definition persistKey :: "'ps rocks_write \<Rightarrow> 'ps redisDb \<Rightarrow> string \<Rightarrow> string \<Rightarrow> 'ps redisDb res" where
  "persistKey rwrite db key text = rocks_write rwrite [(key, text)] db"

text \<open>
  An entry by its address. An entry that left the dictionary may be released at any moment, so
  that only those of the dictionary are found.
\<close>

definition entry_of :: "'ps redisDb \<Rightarrow> nat \<Rightarrow> (string \<times> robj) res" where
  "entry_of db a =
     (case map_of (map (\<lambda>(k, a, v). (a, k, v)) (ddict db)) a of
        None \<Rightarrow> Inl UseAfterFree
      | Some e \<Rightarrow> Inr e)"

fun batch_puts :: "'ps redisDb \<Rightarrow> nat list \<Rightarrow> (string \<times> string) list res" where
  "batch_puts db [] = Inr []"
| "batch_puts db (a # as) =
     bindr (entry_of db a) (\<lambda>(key, obj).
       bindr (relation_of obj) (\<lambda>r.
         bindr (relation_puts key r) (\<lambda>puts.
           bindr (batch_puts db as) (\<lambda>rest. Inr (puts @ rest)))))"

definition set_location :: "location \<Rightarrow> nat \<Rightarrow> 'ps redisDb \<Rightarrow> 'ps redisDb res" where
  "set_location l a db = bindr (entry_of db a) (\<lambda>_. Inr (put_entry db a (\<lambda>v. v\<lparr>loc := l\<rparr>)))"

fun mark_all :: "nat list \<Rightarrow> 'ps redisDb \<Rightarrow> 'ps redisDb res" where
  "mark_all [] db = Inr db"
| "mark_all (a # as) db = bindr (set_location LOCATION_PERSISTED a db) (\<lambda>db. mark_all as db)"

text \<open>
  The two vectors of the code, of keys and of relations, are one list of entries here: they are
  filled in pairs. The batch is written, then every relation is marked.
\<close>

definition prepareBatchWriteToRocksDB :: "'ps rocks_write \<Rightarrow> 'ps redisDb \<Rightarrow> nat list \<Rightarrow> 'ps redisDb res" where
  "prepareBatchWriteToRocksDB rwrite db evicted =
     bindr (batch_puts db evicted) (\<lambda>puts.
       bindr (rocks_write rwrite puts db) (\<lambda>db. mark_all evicted db))"

subsection \<open>Background jobs\<close>

text \<open>A queue of jobs per type, each served by its own thread.\<close>

record 'ps tiering =
  tdb :: "'ps redisDb"
  bio_tiering :: "(string \<times> nat) list"
  bio_batch_tiering :: "nat list list"
  bio_tiered_free :: "nat list"

definition dbPersistBatch :: "nat list \<Rightarrow> 'ps tiering \<Rightarrow> 'ps tiering" where
  "dbPersistBatch evicted s = s\<lparr>bio_batch_tiering := bio_batch_tiering s @ [evicted]\<rparr>"

text \<open>
  The value of a job that is not a relation is taken for a string; the pointer field of another
  object is not one.
\<close>

definition process_tiering :: "'ps rocks_write \<Rightarrow> 'ps tiering \<Rightarrow> 'ps tiering res" where
  "process_tiering rwrite s =
     (case bio_tiering s of
        [] \<Rightarrow> Inr s
      | (key, a) # jobs \<Rightarrow>
          bindr (entry_of (tdb s) a) (\<lambda>(_, v).
            bindr (case val v of
                     HashObj (OBJ_ENCODING_REL r) \<Rightarrow> prepareWriteToRocksDB rwrite (tdb s) key v
                   | StringObj (SdsObj text) \<Rightarrow> persistKey rwrite (tdb s) key text
                   | _ \<Rightarrow> Inl OutOfBounds) (\<lambda>d.
              bindr (set_location LOCATION_PERSISTED a d) (\<lambda>d.
                Inr (s\<lparr>tdb := d, bio_tiering := jobs\<rparr>)))))"

definition process_batch_tiering :: "'ps rocks_write \<Rightarrow> 'ps tiering \<Rightarrow> 'ps tiering res" where
  "process_batch_tiering rwrite s =
     (case bio_batch_tiering s of
        [] \<Rightarrow> Inr s
      | evicted # jobs \<Rightarrow>
          bindr (prepareBatchWriteToRocksDB rwrite (tdb s) evicted) (\<lambda>d.
            Inr (s\<lparr>tdb := d, bio_batch_tiering := jobs\<rparr>)))"

definition process_tiered_free :: "'ps tiering \<Rightarrow> 'ps tiering res" where
  "process_tiered_free s =
     (case bio_tiered_free s of
        [] \<Rightarrow> Inr s
      | a # jobs \<Rightarrow>
          if a \<in> fst ` set (unlinked (tdb s))
          then Inr (s\<lparr>tdb := (tdb s)\<lparr>unlinked := AList.delete a (unlinked (tdb s))\<rparr>, bio_tiered_free := jobs\<rparr>)
          else Inl UseAfterFree)"

text \<open>
  The old entry points: a single row group at a time. A persisted entry leaves the dictionary and
  its expiry, and is released by a job.
\<close>

definition dbPersistOrClear :: "string \<Rightarrow> 'ps tiering \<Rightarrow> (bool \<times> 'ps tiering) res" where
  "dbPersistOrClear key s =
     (case map_of (ddict (tdb s)) key of
        None \<Rightarrow> Inr (False, s)
      | Some (a, v) \<Rightarrow>
          (case loc v of
             LOCATION_PERSISTED \<Rightarrow>
               Inr (True, s\<lparr>tdb := (tdb s)\<lparr>expires := AList.delete key (expires (tdb s)),
                                        ddict := AList.delete key (ddict (tdb s)),
                                        unlinked := (a, v) # unlinked (tdb s)\<rparr>,
                            bio_tiered_free := bio_tiered_free s @ [a]\<rparr>)
           | LOCATION_REDIS_ONLY \<Rightarrow>
               (case val v of
                  HashObj (OBJ_ENCODING_REL r) \<Rightarrow> Inr (True, s\<lparr>bio_tiering := bio_tiering s @ [(key, a)]\<rparr>)
                | _ \<Rightarrow> Inl AssertFailed)
           | LOCATION_FLUSH \<Rightarrow> Inr (True, s)))"

definition dbPersist :: "string \<Rightarrow> 'ps tiering \<Rightarrow> (bool \<times> 'ps tiering) res" where
  "dbPersist key s =
     (case map_of (ddict (tdb s)) key of
        None \<Rightarrow> Inr (False, s)
      | Some (a, v) \<Rightarrow>
          assertr (loc v = LOCATION_FLUSH)
            (Inr (True, s\<lparr>bio_tiering := bio_tiering s @ [(key, a)]\<rparr>)))"

text \<open>Whether the deletion failed, as the code returns it. The expiry of the key stays.\<close>

definition dbClear :: "string \<Rightarrow> 'ps redisDb \<Rightarrow> bool \<times> 'ps redisDb" where
  "dbClear key db =
     (case map_of (ddict db) key of
        None \<Rightarrow> (True, db)
      | Some e \<Rightarrow> (False, db\<lparr>ddict := AList.delete key (ddict db)\<rparr>))"

subsection \<open>Taking row groups from the queue\<close>

text \<open>
  One turn of the loop of \<open>_batchTiering\<close>: the entry, the number of its rows and the database in
  which it is being flushed and waits in the free queue.
\<close>

definition evict_one :: "'ps redisDb \<Rightarrow> (nat \<times> int \<times> 'ps redisDb) res" where
  "evict_one db =
     bindr (chooseBestKeyFromQueue2 (db_heap db) (EvictQueue db) (FreeQueue db)) (\<lambda>(a, _, q, freequeue).
       let db = (put_entry db a (\<lambda>v. v\<lparr>loc := LOCATION_FLUSH\<rparr>))\<lparr>EvictQueue := q, FreeQueue := freequeue\<rparr>
       in bindr (entry_of db a) (\<lambda>(key, _).
            bindr (getRowCount db key) (\<lambda>rows. Inr (a, rows, db))))"

partial_function (option) batch_loop ::
  "int \<Rightarrow> 'ps redisDb \<Rightarrow> nat list \<Rightarrow> (nat list \<times> 'ps redisDb) res option" where
  "batch_loop budget db evicted =
     (if isEmpty (EvictQueue db) \<or> budget \<le> 0 then Some (Inr (evicted, db))
      else
        (case evict_one db of
           Inl e \<Rightarrow> Some (Inl e)
         | Inr (a, rows, db) \<Rightarrow> batch_loop (c_int (budget - rows)) db (evicted @ [a])))"

declare batch_loop.simps [code]

definition batchTiering :: "server \<Rightarrow> 'ps tiering \<Rightarrow> 'ps tiering res option" where
  "batchTiering srv s =
     map_option (\<lambda>r. bindr r (\<lambda>(evicted, db). Inr (dbPersistBatch evicted (s\<lparr>tdb := db\<rparr>))))
       (batch_loop (batch_tiering_size srv) (tdb s) [])"

text \<open>One turn of the loop of \<open>freeMemoryIfNeeded\<close>.\<close>

definition clear_one :: "'ps tiering \<Rightarrow> 'ps tiering res" where
  "clear_one s =
     bindr (chooseClearKeyFromQueue (db_heap (tdb s)) (FreeQueue (tdb s))) (\<lambda>(victim, q).
       let db = (tdb s)\<lparr>FreeQueue := q\<rparr>
       in case victim of
            None \<Rightarrow> Inr (s\<lparr>tdb := db\<rparr>)
          | Some a \<Rightarrow>
              bindr (entry_of db a) (\<lambda>(victimKey, victVal).
                assertr (loc victVal = LOCATION_PERSISTED)
                  (let (isFlushed, db) = dbClear victimKey db
                   in assertr (\<not> isFlushed) (Inr (s\<lparr>tdb := db\<rparr>)))))"

definition free_turn :: "server \<Rightarrow> 'ps tiering \<Rightarrow> 'ps tiering res option" where
  "free_turn srv s =
     (if \<not> isEmpty (FreeQueue (tdb s)) then Some (clear_one s) else batchTiering srv s)"

text \<open>
  What the function asks of its surroundings: whether clients are paused, the memory in use and the
  part of it that is not counted, the limit and the policy, and the memory in use after each turn.
  The readings end where the observation does; the background threads run between the turns.
\<close>

record memory =
  paused :: bool
  reported :: nat
  overhead :: nat
  maxmemory :: nat
  no_eviction :: bool
  readings :: "nat list"

fun free_loop :: "server \<Rightarrow> nat \<Rightarrow> nat \<Rightarrow> nat list \<Rightarrow> 'ps tiering \<Rightarrow> 'ps tiering res option" where
  "free_loop srv limit inuse rs s =
     (if inuse \<le> limit then Some (Inr s)
      else
        (case free_turn srv s of
           None \<Rightarrow> None
         | Some (Inl e) \<Rightarrow> Some (Inl e)
         | Some (Inr s) \<Rightarrow> (case rs of [] \<Rightarrow> Some (Inr s) | r # rs \<Rightarrow> free_loop srv limit r rs s)))"

definition freeMemoryIfNeeded :: "server \<Rightarrow> memory \<Rightarrow> 'ps tiering \<Rightarrow> (bool \<times> 'ps tiering) res option" where
  "freeMemoryIfNeeded srv mem s =
     (let inuse = reported mem - overhead mem;
          start = maxmemory mem * 8 mod 2 ^ 64 div 10
      in if paused mem \<or> reported mem \<le> start \<or> inuse \<le> start
         then Some (Inr (True, s))
         else if no_eviction mem then Some (Inr (False, s))
         else
           map_option (\<lambda>r. bindr r (\<lambda>s. Inr (True, s)))
             (case (if qsize (FreeQueue (tdb s)) < int DEFAULT_FREE_QUEUE_SIZE - 1 then batchTiering srv s
                    else Some (Inr s)) of
                None \<Rightarrow> None
              | Some (Inl e) \<Rightarrow> Some (Inl e)
              | Some (Inr s) \<Rightarrow> free_loop srv (maxmemory mem) inuse (readings mem) s))"

end
