(* ===== verification/Flush.thy ===== *)
theory Flush
  imports Tiering
begin

text \<open>
  What a batch leaves in the store: the text of every vector of the row groups in it, and nothing
  else is changed. The loop that fills a batch is shown to end.
\<close>

section \<open>Laws of the store\<close>

text \<open>
  A write that succeeds makes every key of the batch read as its last value in the batch, and
  leaves the reading of the other keys as it was.
\<close>

definition kv_laws :: "'ps rocks_get \<Rightarrow> 'ps rocks_write \<Rightarrow> bool" where
  "kv_laws rget rwrite \<longleftrightarrow>
     (\<forall>st puts st' k. rwrite st puts = Some st' \<longrightarrow>
        rget st' k = (case map_of (rev puts) k of None \<Rightarrow> rget st k | Some v \<Rightarrow> Some (Some v)))"

definition al_write :: "(string \<times> string) list rocks_write" where
  "al_write st puts = Some (rev puts @ st)"

lemma al_kv_laws: "kv_laws al_get al_write"
  by (simp add: kv_laws_def al_get_def al_write_def map_add_def split: option.splits)

lemma map_of_functional:
  assumes "\<forall>p \<in> set ps. \<forall>q \<in> set ps. fst p = fst q \<longrightarrow> p = q"
  shows "map_of ps k = Some v \<longleftrightarrow> (k, v) \<in> set ps"
proof
  assume "(k, v) \<in> set ps"
  moreover from this obtain w where "map_of ps k = Some w" by (metis weak_map_of_SomeI)
  moreover from this have "(k, w) \<in> set ps" by (rule map_of_SomeD)
  ultimately show "map_of ps k = Some v" using assms by fastforce
qed (rule map_of_SomeD)

section \<open>Entries by address\<close>

lemma entry_of_iff:
  assumes "db_ok db"
  shows "entry_of db a = Inr (k, v) \<longleftrightarrow> map_of (ddict db) k = Some (a, v)"
proof -
  have d: "distinct (map (fst \<circ> snd) (ddict db))" "distinct (map fst (ddict db))"
    using assms by (simp_all add: db_ok_def entries_def al_ok_def)
  have "distinct (map fst (map (\<lambda>(k, a, v). (a, k, v)) (ddict db)))"
    using d(1) by (simp add: comp_def case_prod_unfold)
  then have "map_of (map (\<lambda>(k, a, v). (a, k, v)) (ddict db)) a = Some (k, v) \<longleftrightarrow> (k, a, v) \<in> set (ddict db)"
    by (subst map_of_eq_Some_iff, assumption) force
  also have "\<dots> \<longleftrightarrow> map_of (ddict db) k = Some (a, v)" using d(2) by (simp add: map_of_eq_Some_iff)
  finally show ?thesis by (auto simp: entry_of_def split: option.splits)
qed

section \<open>The text of a vector\<close>

text \<open>Values that survive the text form: without the separators and the terminator.\<close>

definition clean :: "string \<Rightarrow> bool" where
  "clean v \<longleftrightarrow> NUL \<notin> set v \<and> CHR '':'' \<notin> set v \<and> CHR '']'' \<notin> set v"

lemma clean_col: "list_all clean es \<Longrightarrow> col_clean es"
  by (auto simp: col_clean_def list_all_length clean_def)

lemma clean_text:
  assumes "list_all clean es"
  shows "cstr (col_text ty es) = col_text ty es"
proof -
  have "NUL \<notin> set (join '':'' es)" using assms join_chars [of NUL "'':''" es] by (auto simp: list_all_iff clean_def)
  then have "NUL \<notin> set (col_text ty es)"
    using print_int_excludes(5) by (auto simp: col_text_def col_header_def)
  then show ?thesis by (rule cstr_id)
qed

lemma vok_unique:
  assumes "vok v xs" and "vok v ys"
  shows "xs = ys"
proof (rule nth_equalityI)
  show l: "length xs = length ys" using vok_count [OF assms(1)] vok_count [OF assms(2)] by simp
  fix i assume "i < length xs"
  then show "xs ! i = ys ! i"
    using vok_slot_get [OF assms(1), of i] vok_slot_get [OF assms(2), of i] l by simp
qed

lemma map_Some_inj: "map Some xs = map Some ys \<longleftrightarrow> xs = ys"
  by (simp add: inj_map_eq_map)

text \<open>The keys and fields that the texts are stored under.\<close>

lemma field_chars:
  "NUL \<notin> set (field k c)" "is_int (int k + 1) \<Longrightarrow> is_int (int c + 1) \<Longrightarrow> length (field k c) \<le> 41"
  using print_int_excludes(5) print_int_short [of "int k + 1"] print_int_short [of "int c + 1"]
  by (auto simp: field_def getDataField_def)

lemma dkey_chars: "part_ok part \<Longrightarrow> NUL \<notin> set (dkey tbl part g)"
  using print_int_excludes(5) by (auto simp: dkey_def data_key_text_def part_ok_def)

lemma dkey_length: "key_ok tbl part \<Longrightarrow> is_int (int g + 1) \<Longrightarrow> length (dkey tbl part g) \<le> 130"
  using print_int_short [of "int g + 1"] by (simp add: dkey_def data_key_text_def key_ok_def)

lemma rocks_key_inj:
  assumes "part_ok p" and "part_ok q"
  shows "dkey t p g @ '':F:'' @ field k c = dkey u q h @ '':F:'' @ field k' c' \<longleftrightarrow>
    t = u \<and> p = q \<and> g = h \<and> k = k' \<and> c = c'"
proof
  assume "dkey t p g @ '':F:'' @ field k c = dkey u q h @ '':F:'' @ field k' c'"
  then have e: "t = u \<and> p = q \<and> print_int (int g + 1) @ '':F:'' @ field k c = print_int (int h + 1) @ '':F:'' @ field k' c'"
    by (intro key_parts_unique [OF assms]) (simp add: dkey_def data_key_text_def)
  then have "print_int (int g + 1) = print_int (int h + 1) \<and> ''F:'' @ field k c = ''F:'' @ field k' c'"
    by (intro split_at_unique [where c = "CHR '':''"]) (simp_all add: print_int_excludes)
  with e show "t = u \<and> p = q \<and> g = h \<and> k = k' \<and> c = c'" by simp
qed simp

section \<open>The puts of a batch\<close>

text \<open>
  An entry of the dictionary that holds the columns of a row group in a form that can be flushed.
\<close>

definition flushable ::
  "server \<Rightarrow> 'ps redisDb \<Rightarrow> nat \<Rightarrow> int \<Rightarrow> string \<Rightarrow> nat \<Rightarrow> nat \<Rightarrow> (nat \<Rightarrow> string list) \<Rightarrow> bool" where
  "flushable srv db a tbl part g m cols \<longleftrightarrow>
     key_ok tbl part \<and> int g < INT_MAX \<and> int m \<le> MAX_COLUMN_NUMBER \<and>
     (\<forall>c < m. list_all clean (cols c) \<and> int (length (cols c)) < INT_MAX) \<and>
     (\<exists>v r. map_of (ddict db) (dkey tbl part g) = Some (a, v) \<and> val v = HashObj (OBJ_ENCODING_REL r) \<and>
        rel_holds (cvsize srv) m cols r)"

lemma chunk_index:
  assumes "chunk sz k xs \<noteq> []"
  shows "k * sz < length xs"
  using assms by (simp add: chunk_def)

lemma field_put_ok:
  assumes "key_ok tbl part" and "int g < INT_MAX" and "int m \<le> MAX_COLUMN_NUMBER"
    and "\<forall>c < m. list_all clean (cols c) \<and> int (length (cols c)) < INT_MAX"
    and "rel_holds sz m cols r" and "0 < sz" and "map_of r f = Some vec"
  shows "\<exists>k c. c < m \<and> f = field k c \<and> vok vec (map Some (chunk sz k (cols c))) \<and>
    field_put (dkey tbl part g) f vec =
      Inr (dkey tbl part g @ '':F:'' @ f, col_text (int (vtype vec)) (chunk sz k (cols c)) @ [NUL])"
proof -
  obtain k c where c: "c < m" "f = field k c" using assms(5,7) unfolding rel_holds_def by blast
  let ?es = "chunk sz k (cols c)"
  have "slot_holds (map_of r f) ?es" using assms(5) c by (simp add: rel_holds_def)
  then have v: "?es \<noteq> []" "vok vec (map Some ?es)" using assms(7) by simp_all
  have "k \<le> k * sz" using assms(6) by simp
  then have "k < length (cols c)" using chunk_index [OF v(1)] by linarith
  then have i: "is_int (int k + 1)" "is_int (int c + 1)" "is_int (int g + 1)" "int (length ?es) \<le> INT_MAX"
    using assms(2,3,4) c(1) chunk_length [of sz k "cols c"] by (auto simp: is_int_def)
  have es: "list_all clean ?es" using assms(4) c(1) chunk_subset [of sz k "cols c"] by (auto simp: list_all_iff)
  have p: "part_ok part" using assms(1) by (simp add: key_ok_def)
  have "cstr (dkey tbl part g) = dkey tbl part g" "cstr f = f"
    using dkey_chars [OF p] field_chars(1) c(2) by (auto intro: cstr_id)
  then have "field_put (dkey tbl part g) f vec =
      Inr (dkey tbl part g @ '':F:'' @ f, col_text (int (vtype vec)) ?es @ [NUL])"
    using dkey_length [OF assms(1) i(3)] field_chars(2) [OF i(1,2)] c(2)
    by (simp add: field_put_def Let_def vectorSerialize_layout [OF v(2) i(4)] clean_text [OF es])
  with c v(2) show ?thesis by blast
qed

lemma relation_puts_ok:
  "\<forall>(f, vec) \<in> set r. \<exists>p. field_put key f vec = Inr p \<Longrightarrow>
   \<exists>puts. relation_puts key r = Inr puts \<and> set puts = {p. \<exists>(f, vec) \<in> set r. field_put key f vec = Inr p}"
proof (induction r)
  case (Cons x r)
  obtain f vec p where x: "x = (f, vec)" "field_put key f vec = Inr p" using Cons.prems by (cases x) auto
  with Cons show ?case by auto
qed simp

definition entry_put :: "'ps redisDb \<Rightarrow> nat \<Rightarrow> string \<times> string \<Rightarrow> bool" where
  "entry_put db a p \<longleftrightarrow>
     (\<exists>key v r f vec. entry_of db a = Inr (key, v) \<and> val v = HashObj (OBJ_ENCODING_REL r) \<and>
        (f, vec) \<in> set r \<and> field_put key f vec = Inr p)"

lemma batch_puts_ok:
  assumes "db_ok db" and "0 < columnvector_size srv"
  shows "\<forall>a \<in> set as. \<exists>tbl part g m cols. flushable srv db a tbl part g m cols \<Longrightarrow>
    \<exists>puts. batch_puts db as = Inr puts \<and> set puts = {p. \<exists>a \<in> set as. entry_put db a p}"
proof (induction as)
  case (Cons a as)
  obtain tbl part g m cols where "flushable srv db a tbl part g m cols" using Cons.prems by auto
  then obtain v r where f: "key_ok tbl part" "int g < INT_MAX" "int m \<le> MAX_COLUMN_NUMBER"
    "\<forall>c < m. list_all clean (cols c) \<and> int (length (cols c)) < INT_MAX"
    "map_of (ddict db) (dkey tbl part g) = Some (a, v)" "val v = HashObj (OBJ_ENCODING_REL r)"
    "rel_holds (cvsize srv) m cols r" unfolding flushable_def by blast
  have e: "entry_of db a = Inr (dkey tbl part g, v)" using f(5) entry_of_iff [OF assms(1)] by blast
  have al: "al_ok r" using f(7) by (simp add: rel_holds_def)
  have sz: "0 < cvsize srv" using assms(2) by (simp add: cvsize_def)
  have "\<forall>(f, vec) \<in> set r. \<exists>p. field_put (dkey tbl part g) f vec = Inr p"
    using field_put_ok [OF f(1-4,7) sz] al by (fastforce simp: al_ok_def map_of_eq_Some_iff)
  then obtain ps where ps: "relation_puts (dkey tbl part g) r = Inr ps"
    "set ps = {p. \<exists>(f, vec) \<in> set r. field_put (dkey tbl part g) f vec = Inr p}"
    using relation_puts_ok by blast
  have "set ps = {p. entry_put db a p}" using ps(2) e f(6) by (auto simp: entry_put_def)
  moreover obtain puts where "batch_puts db as = Inr puts" "set puts = {p. \<exists>a \<in> set as. entry_put db a p}"
    using Cons by auto
  ultimately show ?case using e ps(1) f(6) by (auto simp: relation_of_def)
qed simp

text \<open>A put of an entry is the text of one of its chunks, and every chunk has one.\<close>

lemma entry_put_shape:
  assumes "db_ok db" and "0 < columnvector_size srv" and "flushable srv db a tbl part g m cols" and "entry_put db a p"
  shows "\<exists>v r k c vec. map_of (ddict db) (dkey tbl part g) = Some (a, v) \<and> val v = HashObj (OBJ_ENCODING_REL r) \<and>
    map_of r (field k c) = Some vec \<and> fst p = dkey tbl part g @ '':F:'' @ field k c \<and>
    field_put (dkey tbl part g) (field k c) vec = Inr p"
proof -
  obtain v r where f: "key_ok tbl part" "int g < INT_MAX" "int m \<le> MAX_COLUMN_NUMBER"
    "\<forall>c < m. list_all clean (cols c) \<and> int (length (cols c)) < INT_MAX"
    "map_of (ddict db) (dkey tbl part g) = Some (a, v)" "val v = HashObj (OBJ_ENCODING_REL r)"
    "rel_holds (cvsize srv) m cols r" using assms(3) unfolding flushable_def by blast
  have "entry_of db a = Inr (dkey tbl part g, v)" using f(5) entry_of_iff [OF assms(1)] by blast
  then obtain fl vec where p: "(fl, vec) \<in> set r" "field_put (dkey tbl part g) fl vec = Inr p"
    using assms(4) f(6) by (auto simp: entry_put_def)
  have r: "map_of r fl = Some vec" using p(1) f(7) by (simp add: rel_holds_def al_ok_def map_of_eq_Some_iff)
  have sz: "0 < cvsize srv" using assms(2) by (simp add: cvsize_def)
  obtain k c where "fl = field k c" "fst p = dkey tbl part g @ '':F:'' @ field k c"
    using field_put_ok [OF f(1-4,7) sz r] p(2) by auto
  with f(5,6) r p(2) show ?thesis by blast
qed

lemma entry_put_all:
  assumes "db_ok db" and "0 < columnvector_size srv" and "flushable srv db a tbl part g m cols"
    and "c < m" and "chunk (cvsize srv) k (cols c) \<noteq> []"
  shows "\<exists>ty. 0 \<le> ty \<and> ty < 4 \<and>
    entry_put db a (dkey tbl part g @ '':F:'' @ field k c, col_text ty (chunk (cvsize srv) k (cols c)) @ [NUL])"
proof -
  obtain v r where f: "key_ok tbl part" "int g < INT_MAX" "int m \<le> MAX_COLUMN_NUMBER"
    "\<forall>c < m. list_all clean (cols c) \<and> int (length (cols c)) < INT_MAX"
    "map_of (ddict db) (dkey tbl part g) = Some (a, v)" "val v = HashObj (OBJ_ENCODING_REL r)"
    "rel_holds (cvsize srv) m cols r" using assms(3) unfolding flushable_def by blast
  have "entry_of db a = Inr (dkey tbl part g, v)" using f(5) entry_of_iff [OF assms(1)] by blast
  moreover have "slot_holds (map_of r (field k c)) (chunk (cvsize srv) k (cols c))"
    using f(7) assms(4) by (simp add: rel_holds_def)
  then obtain vec where vec: "map_of r (field k c) = Some vec" "vok vec (map Some (chunk (cvsize srv) k (cols c)))"
    using assms(5) by (cases "map_of r (field k c)") auto
  have sz: "0 < cvsize srv" using assms(2) by (simp add: cvsize_def)
  have "field_put (dkey tbl part g) (field k c) vec =
      Inr (dkey tbl part g @ '':F:'' @ field k c, col_text (int (vtype vec)) (chunk (cvsize srv) k (cols c)) @ [NUL])"
    using field_put_ok [OF f(1-4,7) sz vec(1)] by auto
  moreover have "vtype vec < 4" using vec(2) by (simp add: vok_def)
  ultimately show ?thesis
    using f(6) map_of_SomeD [OF vec(1)] unfolding entry_put_def by (intro exI [of _ "int (vtype vec)"]) auto
qed

lemma entry_put_functional:
  assumes "db_ok db" and "0 < columnvector_size srv"
    and "flushable srv db a tbl part g m cols" and "flushable srv db b tbl' part' g' m' cols'"
    and "entry_put db a p" and "entry_put db b q" and "fst p = fst q"
  shows "p = q"
proof -
  obtain v r k c vec where p: "map_of (ddict db) (dkey tbl part g) = Some (a, v)" "val v = HashObj (OBJ_ENCODING_REL r)"
    "map_of r (field k c) = Some vec" "fst p = dkey tbl part g @ '':F:'' @ field k c"
    "field_put (dkey tbl part g) (field k c) vec = Inr p"
    using entry_put_shape [OF assms(1-3,5)] by blast
  obtain v' r' k' c' vec' where q: "map_of (ddict db) (dkey tbl' part' g') = Some (b, v')"
    "val v' = HashObj (OBJ_ENCODING_REL r')" "map_of r' (field k' c') = Some vec'"
    "fst q = dkey tbl' part' g' @ '':F:'' @ field k' c'" "field_put (dkey tbl' part' g') (field k' c') vec' = Inr q"
    using entry_put_shape [OF assms(1,2,4,6)] by blast
  have "part_ok part" "part_ok part'" using assms(3,4) by (simp_all add: flushable_def key_ok_def)
  then have "tbl = tbl'" "part = part'" "g = g'" "k = k'" "c = c'"
    using rocks_key_inj p(4) q(4) assms(7) by metis+
  with p q show ?thesis by simp
qed

lemma batch_write_effect:
  assumes "db_ok db" and "0 < columnvector_size srv" and "kv_laws rget rwrite"
    and "\<forall>a \<in> set as. \<exists>tbl part g m cols. flushable srv db a tbl part g m cols"
    and "batch_puts db as = Inr puts" and "rwrite (persistent_store db) puts = Some st"
  shows "a \<in> set as \<Longrightarrow> flushable srv db a tbl part g m cols \<Longrightarrow> store_holds rget (cvsize srv) m cols st (dkey tbl part g)"
    and "part_ok part \<Longrightarrow> \<forall>a v. map_of (ddict db) (dkey tbl part g) = Some (a, v) \<longrightarrow> a \<notin> set as \<Longrightarrow>
      store_holds rget (cvsize srv) m cols (persistent_store db) (dkey tbl part g) \<Longrightarrow>
      store_holds rget (cvsize srv) m cols st (dkey tbl part g)"
proof -
  have puts: "p \<in> set puts \<longleftrightarrow> (\<exists>a \<in> set as. entry_put db a p)" for p
    using batch_puts_ok [OF assms(1,2,4)] assms(5) by auto
  have "\<forall>p \<in> set (rev puts). \<forall>q \<in> set (rev puts). fst p = fst q \<longrightarrow> p = q"
  proof (intro ballI impI)
    fix p q assume "p \<in> set (rev puts)" "q \<in> set (rev puts)" and e: "fst p = fst q"
    then obtain a b where ab: "a \<in> set as" "b \<in> set as" "entry_put db a p" "entry_put db b q" using puts by auto
    then obtain tbl part g m cols tbl' part' g' m' cols' where
      "flushable srv db a tbl part g m cols" "flushable srv db b tbl' part' g' m' cols'" using assms(4) by meson
    from entry_put_functional [OF assms(1,2) this ab(3,4) e] show "p = q" .
  qed
  note m = map_of_functional [OF this, unfolded set_rev]
  have read: "rget st k = (case map_of (rev puts) k of None \<Rightarrow> rget (persistent_store db) k | Some v \<Rightarrow> Some (Some v))" for k
    using assms(3,6) unfolding kv_laws_def by blast
  show "store_holds rget (cvsize srv) m cols st (dkey tbl part g)"
    if "a \<in> set as" and fl: "flushable srv db a tbl part g m cols"
    unfolding store_holds_def
  proof (intro allI impI conjI)
    fix k c assume c: "c < m" and ne: "chunk (cvsize srv) k (cols c) \<noteq> []"
    show "col_clean (chunk (cvsize srv) k (cols c))"
      using fl c chunk_subset [of "cvsize srv" k "cols c"] by (intro clean_col) (auto simp: flushable_def list_all_iff)
    obtain ty where ty: "0 \<le> ty" "ty < 4"
      "entry_put db a (dkey tbl part g @ '':F:'' @ field k c, col_text ty (chunk (cvsize srv) k (cols c)) @ [NUL])"
      using entry_put_all [OF assms(1,2) fl c ne] by blast
    then have "rget st (dkey tbl part g @ '':F:'' @ field k c) = Some (Some (col_text ty (chunk (cvsize srv) k (cols c)) @ [NUL]))"
    proof -
      let ?k = "dkey tbl part g @ '':F:'' @ field k c" and ?v = "col_text ty (chunk (cvsize srv) k (cols c)) @ [NUL]"
      have "(?k, ?v) \<in> set puts" using ty(3) that(1) unfolding puts by blast
      then have "map_of (rev puts) ?k = Some ?v" by (simp only: m)
      then show ?thesis by (simp add: read)
    qed
    with ty show "\<exists>ty. 0 \<le> ty \<and> ty < 4 \<and>
      rget st (dkey tbl part g @ '':F:'' @ field k c) = Some (Some (col_text ty (chunk (cvsize srv) k (cols c)) @ [NUL]))" by blast
  qed
  show "store_holds rget (cvsize srv) m cols st (dkey tbl part g)"
    if p: "part_ok part" and other: "\<forall>a v. map_of (ddict db) (dkey tbl part g) = Some (a, v) \<longrightarrow> a \<notin> set as"
      and old: "store_holds rget (cvsize srv) m cols (persistent_store db) (dkey tbl part g)"
  proof -
    have "map_of (rev puts) (dkey tbl part g @ '':F:'' @ field k c) = None" for k c
    proof (rule ccontr)
      assume "map_of (rev puts) (dkey tbl part g @ '':F:'' @ field k c) \<noteq> None"
      then obtain w where "map_of (rev puts) (dkey tbl part g @ '':F:'' @ field k c) = Some w" by blast
      then have "(dkey tbl part g @ '':F:'' @ field k c, w) \<in> set puts" by (simp only: m)
      then obtain a where a: "a \<in> set as" "entry_put db a (dkey tbl part g @ '':F:'' @ field k c, w)"
        unfolding puts by blast
      then obtain tbl' part' g' m' cols' where fl: "flushable srv db a tbl' part' g' m' cols'" using assms(4) by blast
      obtain v k' c' where e: "map_of (ddict db) (dkey tbl' part' g') = Some (a, v)"
        "dkey tbl part g @ '':F:'' @ field k c = dkey tbl' part' g' @ '':F:'' @ field k' c'"
        using entry_put_shape [OF assms(1,2) fl a(2)] by auto
      moreover have "part_ok part'" using fl by (simp add: flushable_def key_ok_def)
      ultimately have "dkey tbl part g = dkey tbl' part' g'"
        using rocks_key_inj [OF p, of part'] by (simp only:)
      with e(1) other a(1) show False by simp
    qed
    then show ?thesis using old by (simp add: store_holds_def read)
  qed
qed

section \<open>Filling a batch ends\<close>

text \<open>Every turn takes an entry out of the eviction queue, whatever the entries are.\<close>

lemma dequeue_shrinks:
  assumes "qholds q xs" and "dequeue h q = Inr (Some a, q')"
  shows "\<exists>xs'. xs = a # xs' \<and> qholds q' xs'"
proof (cases xs)
  case Nil
  then show ?thesis using assms by (simp add: dequeue_def qholds_def)
next
  case (Cons x ys)
  then obtain u where "unlink_rear q = Inr u" "qholds u ys" "buf_get q (rear q) = Inr (Some x)" "rear q \<noteq> front q"
    using unlink_qholds [of q x ys] assms(1) by blast
  with assms(2) Cons show ?thesis by (auto simp: dequeue_def bindr_eq_Inr split: if_splits)
qed

lemma evict_one_shrinks:
  assumes "qholds (EvictQueue db) xs" and "evict_one db = Inr (a, n, db')"
  shows "\<exists>xs'. xs = a # xs' \<and> qholds (EvictQueue db') xs'"
proof -
  obtain h q fq where "chooseBestKeyFromQueue2 (db_heap db) (EvictQueue db) (FreeQueue db) = Inr (a, h, q, fq)"
    "EvictQueue db' = q"
    using assms(2) by (auto simp: evict_one_def bindr_eq_Inr Let_def)
  moreover from this have "dequeue (db_heap db) (EvictQueue db) = Inr (Some a, q)"
    unfolding chooseBestKeyFromQueue2_def
    by (cases "dequeue (db_heap db) (EvictQueue db)") (auto simp: bindr_eq_Inr split: if_splits)
  ultimately show ?thesis using dequeue_shrinks [OF assms(1)] by simp
qed

text \<open>An induction over the turns of the loop.\<close>

lemma batch_loop_induct [consumes 1, case_names Stop Fault Turn]:
  assumes "qholds (EvictQueue db) xs"
    and stop: "\<And>budget db ev. isEmpty (EvictQueue db) \<or> budget \<le> 0 \<Longrightarrow> P budget db ev (Some (Inr (ev, db)))"
    and fault: "\<And>budget db ev e. \<not> isEmpty (EvictQueue db) \<Longrightarrow> 0 < budget \<Longrightarrow> evict_one db = Inl e \<Longrightarrow> P budget db ev (Some (Inl e))"
    and turn: "\<And>budget db ev a n db' y. \<not> isEmpty (EvictQueue db) \<Longrightarrow> 0 < budget \<Longrightarrow> evict_one db = Inr (a, n, db') \<Longrightarrow>
      P (c_int (budget - n)) db' (ev @ [a]) y \<Longrightarrow> P budget db ev y"
  shows "P budget db ev (batch_loop budget db ev)"
  using assms(1)
proof (induction xs arbitrary: budget db ev)
  case Nil
  then have "isEmpty (EvictQueue db)" by (simp add: qholds_def isEmpty_def)
  with stop [of db budget ev] show ?case by (subst batch_loop.simps) simp
next
  case (Cons x xs)
  show ?case
  proof (cases "isEmpty (EvictQueue db) \<or> budget \<le> 0")
    case True
    with stop [of db budget ev] show ?thesis by (subst batch_loop.simps) simp
  next
    case go: False
    show ?thesis
    proof (cases "evict_one db")
      case (Inl e)
      with go fault [of db budget e ev] show ?thesis by (subst batch_loop.simps) simp
    next
      case (Inr r)
      then obtain a n db' where e: "evict_one db = Inr (a, n, db')" by (cases r) auto
      have "qholds (EvictQueue db') xs" using evict_one_shrinks [OF Cons.prems e] by auto
      then have "P (c_int (budget - n)) db' (ev @ [a]) (batch_loop (c_int (budget - n)) db' (ev @ [a]))" by (rule Cons.IH)
      moreover have "batch_loop budget db ev = batch_loop (c_int (budget - n)) db' (ev @ [a])"
        using go e by (subst batch_loop.simps) simp
      ultimately show ?thesis using turn [of db budget a n db' ev] go e by simp
    qed
  qed
qed

lemma batch_loop_takes:
  assumes "qholds (EvictQueue db) xs"
  shows "\<exists>r. batch_loop budget db ev = Some r \<and>
    (\<forall>ev' db'. r = Inr (ev', db') \<longrightarrow> (\<exists>n. ev' = ev @ take n xs \<and> qholds (EvictQueue db') (drop n xs)))"
proof -
  let ?P = "\<lambda>_ db ev y. \<forall>xs. qholds (EvictQueue db) xs \<longrightarrow> (\<exists>r. y = Some r \<and>
    (\<forall>ev' db'. r = Inr (ev', db') \<longrightarrow> (\<exists>n. ev' = ev @ take n xs \<and> qholds (EvictQueue db') (drop n xs))))"
  have "?P budget db ev (batch_loop budget db ev)"
  proof (rule batch_loop_induct [OF assms, where P = ?P])
    fix budget :: int and db :: "'a redisDb" and ev :: "nat list"
    show "?P budget db ev (Some (Inr (ev, db)))" by (auto intro!: exI [of _ 0])
  next
    fix budget n :: int and db db' :: "'a redisDb" and ev a y
    assume e: "evict_one db = Inr (a, n, db')" and IH: "?P (c_int (budget - n)) db' (ev @ [a]) y"
    show "?P budget db ev y"
    proof (intro allI impI)
      fix xs assume "qholds (EvictQueue db) xs"
      then obtain xs' where x: "xs = a # xs'" "qholds (EvictQueue db') xs'" using evict_one_shrinks e by blast
      then obtain r where r: "y = Some r"
        "\<forall>ev' d. r = Inr (ev', d) \<longrightarrow> (\<exists>n. ev' = (ev @ [a]) @ take n xs' \<and> qholds (EvictQueue d) (drop n xs'))"
        using IH by blast
      have "\<exists>k. ev' = ev @ take k xs \<and> qholds (EvictQueue d) (drop k xs)" if res: "r = Inr (ev', d)" for ev' d
      proof -
        obtain k where "ev' = (ev @ [a]) @ take k xs'" "qholds (EvictQueue d) (drop k xs')" using r(2) res by blast
        then show ?thesis by (intro exI [of _ "Suc k"]) (simp add: x(1))
      qed
      with r(1) show "\<exists>r. y = Some r \<and> (\<forall>ev' d. r = Inr (ev', d) \<longrightarrow> (\<exists>n. ev' = ev @ take n xs \<and> qholds (EvictQueue d) (drop n xs)))"
        by blast
    qed
  qed auto
  with assms show ?thesis by blast
qed

text \<open>
  C23. Filling a batch ends on every eviction queue, and unless it stops at a fault it hands the
  entries at the head of the queue to the background thread, in their order, and leaves the others.
\<close>

theorem batchTiering_ends:
  assumes "qholds (EvictQueue (tdb s)) xs"
  shows "\<exists>r. batchTiering srv s = Some r \<and>
    (\<forall>s'. r = Inr s' \<longrightarrow> (\<exists>n. bio_batch_tiering s' = bio_batch_tiering s @ [take n xs] \<and>
       qholds (EvictQueue (tdb s')) (drop n xs)))"
  using batch_loop_takes [OF assms, of "batch_tiering_size srv" "[]"]
  by (auto simp: batchTiering_def dbPersistBatch_def bindr_eq_Inr)

theorem batchTiering_ends_witness:
  "\<exists>r. batchTiering sample_server \<lparr>tdb = sample_db, bio_tiering = [], bio_batch_tiering = [], bio_tiered_free = []\<rparr> = Some r"
proof -
  have "qholds (EvictQueue (tdb \<lparr>tdb = sample_db, bio_tiering = [], bio_batch_tiering = [], bio_tiered_free = []\<rparr>)) [0]"
    by (simp add: sample_db_def one_entry_queue_def qholds_def)
  from batchTiering_ends [OF this, of sample_server] show ?thesis by blast
qed

end
