(* ===== verification/Interleave.thy ===== *)
theory Interleave
  imports Flush
begin

text \<open>
  Writes, tiering, the background thread and the clearing of memory in any order. The main thread
  writes rows, fills batches and clears persisted row groups; the background thread writes a batch
  and marks its row groups one by one. In every state that such a sequence of steps leads to, every
  partition holds the rows that were written to it, in order.
\<close>

section \<open>Steps\<close>

text \<open>The number of columns of each partition.\<close>

type_synonym schema = "int \<Rightarrow> string \<Rightarrow> nat"

datatype event = Write int string "string list list" | Tier | Flush | Mark | Clear

text \<open>The database of a server that has started, with the store it opened.\<close>

definition initServer_db :: "'ps \<Rightarrow> 'ps redisDb" where
  "initServer_db st = \<lparr>ddict = [], fresh = 0, unlinked = [], expires = [], Metadict = [],
     EvictQueue = createArrayQueue DEFAULT_ARRAY_QUEUE_SIZE, FreeQueue = createArrayQueue DEFAULT_FREE_QUEUE_SIZE,
     persistent_store = st\<rparr>"

definition initial :: "'ps \<Rightarrow> 'ps tiering \<times> nat list" where
  "initial st = (\<lparr>tdb = initServer_db st, bio_tiering = [], bio_batch_tiering = [], bio_tiered_free = []\<rparr>, [])"

text \<open>
  A state is the database with its jobs, and the entries that the background thread has written
  and not yet marked. A job is taken when the one before is finished.
\<close>

inductive step ::
  "'ps rocks_get \<Rightarrow> 'ps rocks_write \<Rightarrow> server \<Rightarrow> schema \<Rightarrow> 'ps tiering \<times> nat list \<Rightarrow> event \<Rightarrow> 'ps tiering \<times> nat list \<Rightarrow> bool"
  for rget rwrite srv M where
  Write: "step rget rwrite srv M (s, ms) (Write tbl part rows) (s\<lparr>tdb := db\<rparr>, ms)"
    if "fpWriteCommand rget srv b (command_key tbl part # p # print_int (int (M tbl part)) # i # concat rows) sh (tdb s) =
          Inr (ReplyOk, sh', db)"
      and "can_enqueue (tdb s)"
| Tier: "step rget rwrite srv M (s, ms) Tier (s', ms)"
    if "batchTiering srv s = Some (Inr s')"
| Flush: "step rget rwrite srv M (s, []) Flush (s\<lparr>tdb := db, bio_batch_tiering := jobs\<rparr>, evicted)"
    if "bio_batch_tiering s = evicted # jobs" and "batch_puts (tdb s) evicted = Inr puts"
      and "rocks_write rwrite puts (tdb s) = Inr db"
| Mark: "step rget rwrite srv M (s, a # ms) Mark (s\<lparr>tdb := db\<rparr>, ms)"
    if "set_location LOCATION_PERSISTED a (tdb s) = Inr db"
| Clear: "step rget rwrite srv M (s, ms) Clear (s', ms)"
    if "\<not> isEmpty (FreeQueue (tdb s))" and "clear_one s = Inr s'"

inductive_cases WriteE: "step rget rwrite srv M w (Write tbl part rows) w'"
inductive_cases TierE: "step rget rwrite srv M w Tier w'"
inductive_cases FlushE: "step rget rwrite srv M w Flush w'"
inductive_cases MarkE: "step rget rwrite srv M w Mark w'"
inductive_cases ClearE: "step rget rwrite srv M w Clear w'"

text \<open>The rows that the events wrote to a partition.\<close>

fun rows_of :: "event list \<Rightarrow> int \<Rightarrow> string \<Rightarrow> string list list" where
  "rows_of [] tbl part = []"
| "rows_of (Write t p rows # es) tbl part = (if t = tbl \<and> p = part then rows else []) @ rows_of es tbl part"
| "rows_of (_ # es) tbl part = rows_of es tbl part"

lemma rows_of_append [simp]: "rows_of (es @ es') tbl part = rows_of es tbl part @ rows_of es' tbl part"
  by (induction es tbl part rule: rows_of.induct) auto

text \<open>
  The writes that are considered: whole rows of values that are stored and read back as they are,
  with counters that stay in the range of \<open>int\<close>.
\<close>

fun event_ok :: "schema \<Rightarrow> event list \<Rightarrow> event \<Rightarrow> bool" where
  "event_ok M es (Write tbl part rows) \<longleftrightarrow>
     key_ok tbl part \<and> 0 < M tbl part \<and> int (M tbl part) \<le> MAX_COLUMN_NUMBER \<and> rows \<noteq> [] \<and>
     (\<forall>row \<in> set rows. length row = M tbl part \<and> list_all writable row \<and> list_all clean row) \<and>
     int (length (rows_of es tbl part) + length rows) + 1 < INT_MAX"
| "event_ok M es _ \<longleftrightarrow> True"

inductive run ::
  "'ps rocks_get \<Rightarrow> 'ps rocks_write \<Rightarrow> server \<Rightarrow> schema \<Rightarrow> 'ps \<Rightarrow> event list \<Rightarrow> 'ps tiering \<times> nat list \<Rightarrow> bool"
  for rget rwrite srv M st where
  Init: "run rget rwrite srv M st [] (initial st)"
| Step: "run rget rwrite srv M st (es @ [e]) w'"
    if "run rget rwrite srv M st es w" and "event_ok M es e" and "step rget rwrite srv M w e w'"

section \<open>The invariant\<close>

text \<open>The entry at an address has a location.\<close>

definition at :: "'ps redisDb \<Rightarrow> nat \<Rightarrow> location \<Rightarrow> bool" where
  "at db a l \<longleftrightarrow> (\<exists>k v. map_of (ddict db) k = Some (a, v) \<and> loc v = l)"

text \<open>The texts of the entry at an address are in the store.\<close>

definition stored :: "'ps rocks_get \<Rightarrow> server \<Rightarrow> schema \<Rightarrow> 'ps redisDb \<Rightarrow> nat \<Rightarrow> bool" where
  "stored rget srv M db a \<longleftrightarrow>
     (\<exists>tbl part g v r cols. key_ok tbl part \<and> map_of (ddict db) (dkey tbl part g) = Some (a, v) \<and>
        val v = HashObj (OBJ_ENCODING_REL r) \<and> rel_holds (cvsize srv) (M tbl part) cols r \<and>
        store_holds rget (cvsize srv) (M tbl part) cols (persistent_store db) (dkey tbl part g))"

text \<open>The partitions hold what was written, and nothing but row groups is in the dictionary.\<close>

definition data_inv :: "'ps rocks_get \<Rightarrow> server \<Rightarrow> schema \<Rightarrow> event list \<Rightarrow> 'ps redisDb \<Rightarrow> bool" where
  "data_inv rget srv M es db \<longleftrightarrow>
     db_ok db \<and> meta_ok db \<and> expires db = [] \<and> unlinked db = [] \<and>
     (\<forall>tbl part. key_ok tbl part \<longrightarrow>
        (\<exists>gs. partition_holds rget srv (M tbl part) db tbl part gs \<and> concat gs = rows_of es tbl part \<and> [] \<notin> set gs)) \<and>
     (\<forall>k a v. map_of (ddict db) k = Some (a, v) \<longrightarrow> (\<exists>tbl part g. key_ok tbl part \<and> k = dkey tbl part g))"

text \<open>
  The queues and jobs: what waits for eviction is in memory only, what waits to be cleared is
  being flushed or persisted, and what is being flushed is what the jobs have to mark.
\<close>

definition queue_inv :: "'ps rocks_get \<Rightarrow> server \<Rightarrow> schema \<Rightarrow> 'ps redisDb \<Rightarrow> nat list list \<Rightarrow> nat list \<Rightarrow> bool" where
  "queue_inv rget srv M db jobs ms \<longleftrightarrow>
     (\<exists>xs. qholds (EvictQueue db) xs \<and> distinct xs \<and> (\<forall>a \<in> set xs. at db a LOCATION_REDIS_ONLY)) \<and>
     (\<exists>ys. qholds (FreeQueue db) ys \<and> distinct ys \<and> (\<forall>a \<in> set ys. at db a LOCATION_FLUSH \<or> at db a LOCATION_PERSISTED)) \<and>
     distinct (concat jobs @ ms) \<and> (\<forall>a. at db a LOCATION_FLUSH \<longleftrightarrow> a \<in> set (concat jobs @ ms)) \<and>
     (\<forall>a \<in> set ms. stored rget srv M db a)"

definition log_inv :: "schema \<Rightarrow> event list \<Rightarrow> bool" where
  "log_inv M es \<longleftrightarrow>
     (\<forall>tbl part. (\<forall>row \<in> set (rows_of es tbl part). length row = M tbl part \<and> list_all clean row) \<and>
        int (length (rows_of es tbl part)) + 1 < INT_MAX \<and>
        (rows_of es tbl part \<noteq> [] \<longrightarrow> int (M tbl part) \<le> MAX_COLUMN_NUMBER))"

definition tier_inv :: "'ps rocks_get \<Rightarrow> server \<Rightarrow> schema \<Rightarrow> event list \<Rightarrow> 'ps tiering \<times> nat list \<Rightarrow> bool" where
  "tier_inv rget srv M es w \<longleftrightarrow>
     log_inv M es \<and> data_inv rget srv M es (tdb (fst w)) \<and>
     queue_inv rget srv M (tdb (fst w)) (bio_batch_tiering (fst w)) (snd w)"

lemma tier_inv_initial: "tier_inv rget srv M [] (initial st)"
proof -
  let ?db = "initServer_db st"
  have "data_inv rget srv M [] ?db"
    by (auto simp: data_inv_def initServer_db_def db_ok_def entries_def al_ok_def meta_ok_def partition_holds_def mcount_def
      intro!: exI [of _ "[]"])
  moreover have "queue_inv rget srv M ?db [] []"
    using qok_create [of DEFAULT_ARRAY_QUEUE_SIZE] qok_create [of DEFAULT_FREE_QUEUE_SIZE]
    by (auto simp: queue_inv_def initServer_db_def qok_def at_def intro!: exI [of _ "[]"])
  ultimately show ?thesis by (simp add: tier_inv_def initial_def log_inv_def)
qed

lemma log_inv_step:
  assumes "log_inv M es" and "event_ok M es e"
  shows "log_inv M (es @ [e])"
proof (cases e)
  case (Write t p rows)
  then show ?thesis using assms by (auto simp: log_inv_def ball_Un)
qed (use assms in \<open>simp_all add: log_inv_def\<close>)

lemma at_unique: "db_ok db \<Longrightarrow> at db a l \<Longrightarrow> at db a l' \<Longrightarrow> l = l'"
  unfolding at_def by (metis address_unique option.inject prod.inject)

lemma at_fresh:
  assumes "db_ok db" and "at db a l"
  shows "a < fresh db"
proof -
  obtain k v where "(k, a, v) \<in> set (ddict db)" using assms(2) by (auto simp: at_def dest: map_of_SomeD)
  then have "(a, v) \<in> set (entries db)" by (force simp: entries_def)
  then have "a \<in> set (map fst (entries db))" by force
  then show ?thesis using assms(1) unfolding db_ok_def by blast
qed

lemma length_concat: "[] \<notin> set gs \<Longrightarrow> length gs \<le> length (concat gs)"
proof (induction gs)
  case (Cons rows gs)
  then show ?case by (cases rows) auto
qed simp

lemma length_concat_member: "g < length gs \<Longrightarrow> length (gs ! g) \<le> length (concat gs)"
proof (induction gs arbitrary: g)
  case (Cons rows gs)
  then show ?case by (cases g) (auto intro: trans_le_add2)
qed simp

lemma length_last_opened: "length (last (opened gs)) \<le> length (concat gs)"
proof (cases "gs = []")
  case False
  then have "concat gs = concat (butlast gs) @ last gs"
    by (metis append_butlast_last_id concat_append concat.simps append_Nil2)
  with False show ?thesis by (simp add: opened_def)
qed (simp add: opened_def)

lemma partition_holds_mono:
  assumes "partition_holds rget srv m db tbl part gs" and "expires db' = expires db" and "Metadict db' = Metadict db"
    and "\<And>g. map_of (ddict db) (dkey tbl part g) = None \<Longrightarrow> map_of (ddict db') (dkey tbl part g) = None"
    and "\<And>g cols. group_holds rget (cvsize srv) m cols db (dkey tbl part g) \<Longrightarrow>
      group_holds rget (cvsize srv) m cols db' (dkey tbl part g)"
  shows "partition_holds rget srv m db' tbl part gs"
proof -
  have "mcount db' = mcount db" by (simp add: mcount_def fun_eq_iff assms(3))
  with assms(1,4,5) show ?thesis unfolding partition_holds_def assms(2,3) by simp
qed

section \<open>A write keeps the invariant\<close>

lemma at_appended:
  assumes "appended key mk cs db db'" and "at db a l"
  shows "at db' a l"
proof -
  have a: "\<forall>k. k \<noteq> key \<longrightarrow> map_of (ddict db') k = map_of (ddict db) k"
    "entry_kept (fresh db) (map_of (ddict db) key) (map_of (ddict db') key)"
    using assms(1) unfolding appended_def by blast+
  obtain k v where k: "map_of (ddict db) k = Some (a, v)" "loc v = l" using assms(2) by (auto simp: at_def)
  show ?thesis
  proof (cases "k = key")
    case True
    then obtain v' where "map_of (ddict db') key = Some (a, v')" "loc v' = l"
      using a(2) k by (cases "map_of (ddict db') key") auto
    then show ?thesis by (auto simp: at_def)
  next
    case False
    then have "map_of (ddict db') k = Some (a, v)" using a(1) k(1) by simp
    then show ?thesis using k(2) by (auto simp: at_def)
  qed
qed

lemma at_appended_flush:
  assumes "appended key mk cs db db'" and "at db' a LOCATION_FLUSH"
  shows "at db a LOCATION_FLUSH"
proof -
  have ap: "\<forall>k. k \<noteq> key \<longrightarrow> map_of (ddict db') k = map_of (ddict db) k"
    "entry_kept (fresh db) (map_of (ddict db) key) (map_of (ddict db') key)"
    using assms(1) unfolding appended_def by blast+
  obtain k v where k: "map_of (ddict db') k = Some (a, v)" "loc v = LOCATION_FLUSH" using assms(2) by (auto simp: at_def)
  show ?thesis
  proof (cases "k = key")
    case True
    then obtain v' where "map_of (ddict db) key = Some (a, v')" "loc v' = LOCATION_FLUSH"
      using ap(2) k by (cases "map_of (ddict db) key") auto
    then show ?thesis by (auto simp: at_def)
  next
    case False
    then show ?thesis using ap(1) k by (auto simp: at_def)
  qed
qed

lemma stored_appended:
  assumes "appended key mk cs db db'" and "stored rget srv M db a" and "at db a LOCATION_FLUSH" and "db_ok db"
    and "\<forall>a v. map_of (ddict db) key = Some (a, v) \<longrightarrow> loc v = LOCATION_REDIS_ONLY"
  shows "stored rget srv M db' a"
proof -
  have ap: "\<forall>k. k \<noteq> key \<longrightarrow> map_of (ddict db') k = map_of (ddict db) k" "persistent_store db' = persistent_store db"
    using assms(1) unfolding appended_def by blast+
  obtain tbl part g v r cols where s: "key_ok tbl part" "map_of (ddict db) (dkey tbl part g) = Some (a, v)"
    "val v = HashObj (OBJ_ENCODING_REL r)" "rel_holds (cvsize srv) (M tbl part) cols r"
    "store_holds rget (cvsize srv) (M tbl part) cols (persistent_store db) (dkey tbl part g)"
    using assms(2) unfolding stored_def by blast
  have "at db a (loc v)" using s(2) by (auto simp: at_def)
  then have "loc v = LOCATION_FLUSH" using at_unique [OF assms(4) _ assms(3)] by blast
  then have "dkey tbl part g \<noteq> key" using assms(5) s(2) by auto
  then have "map_of (ddict db') (dkey tbl part g) = Some (a, v)" using ap(1) s(2) by simp
  with s(1,3-5) ap(2) show ?thesis unfolding stored_def by metis
qed

lemma evict_queue_appended:
  assumes "qholds (EvictQueue db) xs" and "distinct xs" and "\<forall>a \<in> set xs. at db a LOCATION_REDIS_ONLY"
    and "appended key mk cs db db'" and "evict_queued key db db'" and "db_ok db"
  shows "\<exists>xs. qholds (EvictQueue db') xs \<and> distinct xs \<and> (\<forall>a \<in> set xs. at db' a LOCATION_REDIS_ONLY)"
proof (cases "map_of (ddict db) key")
  case None
  then obtain a v where a: "map_of (ddict db') key = Some (a, v)" "enqueue (EvictQueue db) (Some a) = Inr (1, EvictQueue db')"
    using assms(5) by (auto simp: evict_queued_def)
  have "entry_kept (fresh db) None (Some (a, v))" using assms(4) None a(1) by (simp add: appended_def)
  then have f: "fresh db \<le> a" "at db' a LOCATION_REDIS_ONLY" using a(1) by (auto simp: at_def)
  obtain n where n: "qholds (EvictQueue db') (take n xs @ [a])" using enqueue_qholds [OF assms(1) a(2)] by blast
  have "a \<notin> set xs" using assms(3,6) at_fresh f(1) by fastforce
  then have "distinct (take n xs @ [a])" using assms(2) by (auto dest: in_set_takeD)
  moreover have "\<forall>b \<in> set (take n xs @ [a]). at db' b LOCATION_REDIS_ONLY"
    using assms(3) f(2) at_appended [OF assms(4)] by (auto dest: in_set_takeD)
  ultimately show ?thesis using n by blast
next
  case (Some e)
  then have "EvictQueue db' = EvictQueue db" using assms(5) by (simp add: evict_queued_def)
  then show ?thesis using assms(1-3) at_appended [OF assms(4)] by auto
qed

lemma queue_invI:
  "qholds (EvictQueue db) xs \<Longrightarrow> distinct xs \<Longrightarrow> \<forall>a \<in> set xs. at db a LOCATION_REDIS_ONLY \<Longrightarrow>
   qholds (FreeQueue db) ys \<Longrightarrow> distinct ys \<Longrightarrow> \<forall>a \<in> set ys. at db a LOCATION_FLUSH \<or> at db a LOCATION_PERSISTED \<Longrightarrow>
   distinct (concat jobs @ ms) \<Longrightarrow> \<forall>a. at db a LOCATION_FLUSH \<longleftrightarrow> a \<in> set (concat jobs @ ms) \<Longrightarrow>
   \<forall>a \<in> set ms. stored rget srv M db a \<Longrightarrow> queue_inv rget srv M db jobs ms"
  unfolding queue_inv_def by blast

lemma queue_invE:
  assumes "queue_inv rget srv M db jobs ms"
  obtains xs ys where "qholds (EvictQueue db) xs" and "distinct xs" and "\<forall>a \<in> set xs. at db a LOCATION_REDIS_ONLY"
    and "qholds (FreeQueue db) ys" and "distinct ys" and "\<forall>a \<in> set ys. at db a LOCATION_FLUSH \<or> at db a LOCATION_PERSISTED"
    and "distinct (concat jobs @ ms)" and "\<forall>a. at db a LOCATION_FLUSH \<longleftrightarrow> a \<in> set (concat jobs @ ms)"
    and "\<forall>a \<in> set ms. stored rget srv M db a"
  using assms unfolding queue_inv_def by blast

lemma queue_inv_snoc_Nil: "queue_inv rget srv M db (jobs @ [[]]) ms = queue_inv rget srv M db jobs ms"
  unfolding queue_inv_def concat_append concat.simps append_Nil append_Nil2 ..

lemma queue_inv_write:
  assumes "queue_inv rget srv M db jobs ms" and "appended key mk cs db db'" and "evict_queued key db db'" and "db_ok db"
    and "\<forall>a v. map_of (ddict db) key = Some (a, v) \<longrightarrow> loc v = LOCATION_REDIS_ONLY"
  shows "queue_inv rget srv M db' jobs ms"
proof -
  obtain xs ys where xs: "qholds (EvictQueue db) xs" "distinct xs" "\<forall>a \<in> set xs. at db a LOCATION_REDIS_ONLY"
    and ys: "qholds (FreeQueue db) ys" "distinct ys"
      "\<forall>a \<in> set ys. at db a LOCATION_FLUSH \<or> at db a LOCATION_PERSISTED"
    and j: "distinct (concat jobs @ ms)" "\<forall>a. at db a LOCATION_FLUSH \<longleftrightarrow> a \<in> set (concat jobs @ ms)"
      "\<forall>a \<in> set ms. stored rget srv M db a"
    using assms(1) by (rule queue_invE)
  have "FreeQueue db' = FreeQueue db" using assms(2) by (simp add: appended_def)
  moreover have "\<forall>a. at db' a LOCATION_FLUSH \<longleftrightarrow> a \<in> set (concat jobs @ ms)"
    using j(2) at_appended [OF assms(2)] at_appended_flush [OF assms(2)] by blast
  moreover have "\<forall>a \<in> set ys. at db' a LOCATION_FLUSH \<or> at db' a LOCATION_PERSISTED"
    using ys(3) at_appended [OF assms(2)] by blast
  moreover have "\<forall>a \<in> set ms. stored rget srv M db' a"
  proof
    fix a
    assume "a \<in> set ms"
    then show "stored rget srv M db' a" using j(2,3) stored_appended [OF assms(2) _ _ assms(4,5)] by auto
  qed
  moreover obtain xs' where "qholds (EvictQueue db') xs'" "distinct xs'" "\<forall>a \<in> set xs'. at db' a LOCATION_REDIS_ONLY"
    using evict_queue_appended [OF xs assms(2-4)] by blast
  ultimately show ?thesis using ys(1,2) j(1) by (metis queue_invI)
qed

lemma data_inv_write:
  assumes "data_inv rget srv M es db" and "event_ok M es (Write tbl part rows)"
    and "0 < columnvector_size srv" and "0 < rowgroup_size srv" and "can_enqueue db"
    and "fpWriteCommand rget srv b (command_key tbl part # p # print_int (int (M tbl part)) # i # concat rows) sh db =
          Inr (ReplyOk, sh', db')"
  shows "\<exists>key mk cs. appended key mk cs db db' \<and> evict_queued key db db' \<and>
    (\<forall>a v. map_of (ddict db) key = Some (a, v) \<longrightarrow> loc v = LOCATION_REDIS_ONLY) \<and>
    data_inv rget srv M (es @ [Write tbl part rows]) db'"
proof -
  have d: "db_ok db" "meta_ok db" "expires db = []" "unlinked db = []"
    "\<forall>k a v. map_of (ddict db) k = Some (a, v) \<longrightarrow> (\<exists>tbl part g. key_ok tbl part \<and> k = dkey tbl part g)"
    using assms(1) unfolding data_inv_def by blast+
  have k: "key_ok tbl part" using assms(2) by simp
  then obtain gs where gs: "partition_holds rget srv (M tbl part) db tbl part gs" "concat gs = rows_of es tbl part" "[] \<notin> set gs"
    using assms(1) unfolding data_inv_def by blast
  have w: "write_ok srv tbl part (M tbl part) rows gs"
    using assms(2-4) gs(2) length_concat [OF gs(3)] length_last_opened [of gs] by (auto simp: write_ok_def)
  let ?new = "starts_group srv db tbl part gs"
  let ?key = "dkey tbl part (target ?new gs)" and ?mk = "meta_key_text tbl part"
  obtain cs where h: "db_ok db'" "meta_ok db'"
    "partition_holds rget srv (M tbl part) db' tbl part (written ?new rows gs)" "appended ?key ?mk cs db db'"
    "evict_queued ?key db db'"
    using fpWrite_ok [OF w d(1,2) gs(1) assms(5), of b p i sh] assms(6) by auto
  note t = group_mem_target [OF gs(1) assms(4)]
  have a: "\<forall>k. k \<noteq> ?key \<longrightarrow> map_of (ddict db') k = map_of (ddict db) k" "expires db' = []" "unlinked db' = []"
    using h(4) d(3,4) unfolding appended_def by simp_all
  have "\<exists>gs'. partition_holds rget srv (M tbl' part') db' tbl' part' gs' \<and>
      concat gs' = rows_of (es @ [Write tbl part rows]) tbl' part' \<and> [] \<notin> set gs'" if k': "key_ok tbl' part'" for tbl' part'
  proof (cases "(tbl', part') = (tbl, part)")
    case True
    have "rows \<noteq> []" using assms(2) by simp
    then have "[] \<notin> set (written ?new rows gs)"
      using gs(3) t(1) by (auto simp: written_def opened_def dest: in_set_butlastD)
    with True h(3) gs(2) show ?thesis by (auto simp: concat_written)
  next
    case False
    have "part_ok part" "part_ok part'" using k k' by (simp_all add: key_ok_def)
    moreover obtain gs' where "partition_holds rget srv (M tbl' part') db tbl' part' gs'" "concat gs' = rows_of es tbl' part'"
      "[] \<notin> set gs'" using assms(1) k' unfolding data_inv_def by blast
    ultimately show ?thesis using appended_other [OF h(4) _ _ False, of rget srv "M tbl' part'" gs'] False by auto
  qed
  moreover have "\<exists>tbl part g. key_ok tbl part \<and> k = dkey tbl part g" if "map_of (ddict db') k = Some (x, v)" for k x v
    using that a(1) d(5) k by (cases "k = ?key") auto
  ultimately have "data_inv rget srv M (es @ [Write tbl part rows]) db'"
    using h(1,2) a(2,3) unfolding data_inv_def by blast
  with h(4,5) t(4) show ?thesis by blast
qed

lemma write_inv:
  assumes "tier_inv rget srv M es w" and "event_ok M es (Write tbl part rows)"
    and "0 < columnvector_size srv" and "0 < rowgroup_size srv"
    and "step rget rwrite srv M w (Write tbl part rows) w'"
  shows "tier_inv rget srv M (es @ [Write tbl part rows]) w'"
  using assms(5)
proof (rule WriteE)
  fix db b p i sh sh' s ms
  assume w: "w = (s, ms)" "w' = (s\<lparr>tdb := db\<rparr>, ms)" and c: "can_enqueue (tdb s)"
    and f: "fpWriteCommand rget srv b (command_key tbl part # p # print_int (int (M tbl part)) # i # concat rows) sh (tdb s) =
          Inr (ReplyOk, sh', db)"
  have t: "log_inv M es" "data_inv rget srv M es (tdb s)" "queue_inv rget srv M (tdb s) (bio_batch_tiering s) ms"
    using assms(1) by (simp_all add: tier_inv_def w)
  have "db_ok (tdb s)" using t(2) by (simp add: data_inv_def)
  with data_inv_write [OF t(2) assms(2-4) c f] queue_inv_write [OF t(3)] log_inv_step [OF t(1) assms(2)]
  show ?thesis by (auto simp: tier_inv_def w)
qed

section \<open>Changing the location of an entry\<close>

lemma slot_holds_unique: "slot_holds x xs \<Longrightarrow> slot_holds x ys \<Longrightarrow> xs = ys"
proof (cases x)
  case (Some vec)
  assume "slot_holds x xs" "slot_holds x ys"
  then have "vok vec (map Some xs)" "vok vec (map Some ys)" using Some by simp_all
  then show ?thesis using vok_unique map_Some_inj by metis
qed simp

text \<open>A relation determines the chunks of its columns, and so the texts that stand for it.\<close>

lemma store_holds_rel:
  assumes "rel_holds sz m cols r" and "rel_holds sz m cols' r" and "store_holds rget sz m cols st key"
  shows "store_holds rget sz m cols' st key"
proof -
  have "chunk sz k (cols' c) = chunk sz k (cols c)" if "c < m" for k c
    using assms(1,2) that slot_holds_unique unfolding rel_holds_def by metis
  then show ?thesis using assms(3) by (simp add: store_holds_def)
qed

lemma put_entry_frame [simp]:
  "expires (put_entry db a f) = expires db" "Metadict (put_entry db a f) = Metadict db"
  "persistent_store (put_entry db a f) = persistent_store db" "EvictQueue (put_entry db a f) = EvictQueue db"
  "FreeQueue (put_entry db a f) = FreeQueue db" "mcount (put_entry db a f) = mcount db" "meta_ok (put_entry db a f) = meta_ok db"
  by (simp_all add: put_entry_def mcount_def meta_ok_def fun_eq_iff)

lemma at_relocate:
  assumes "db_ok db" and "at db a l0"
  shows "at (put_entry db a (\<lambda>v. v\<lparr>loc := l\<rparr>)) b l' \<longleftrightarrow> (if b = a then l' = l else at db b l')"
proof -
  obtain key v where k: "map_of (ddict db) key = Some (a, v)" using assms(2) by (auto simp: at_def)
  note p = put_entry_one [OF assms(1) k, of "\<lambda>v. v\<lparr>loc := l\<rparr>"]
  show ?thesis
  proof (cases "b = a")
    case True
    have "l' = l" if new: "at (put_entry db a (\<lambda>v. v\<lparr>loc := l\<rparr>)) a l'"
    proof -
      obtain k' v' where k': "(if k' = key then Some (a, v\<lparr>loc := l\<rparr>) else map_of (ddict db) k') = Some (a, v')" "loc v' = l'"
        using new unfolding at_def p by blast
      then have "k' = key" using address_unique [OF assms(1) k, of k' v'] by (cases "k' = key") simp_all
      with k' show ?thesis by auto
    qed
    moreover have "at (put_entry db a (\<lambda>v. v\<lparr>loc := l\<rparr>)) a l" unfolding at_def p by (intro exI [of _ key]) simp
    ultimately show ?thesis using True by auto
  next
    case False
    have "(if x = key then Some (a, v\<lparr>loc := l\<rparr>) else map_of (ddict db) x) = Some (b, w) \<longleftrightarrow> map_of (ddict db) x = Some (b, w)" for x w
      using False k by (cases "x = key") simp_all
    then show ?thesis using False unfolding at_def p by simp
  qed
qed

lemma stored_relocate:
  assumes "db_ok db" and "at db a l0" and "stored rget srv M db b"
  shows "stored rget srv M (put_entry db a (\<lambda>v. v\<lparr>loc := l\<rparr>)) b"
proof -
  let ?f = "\<lambda>v :: robj. v\<lparr>loc := l\<rparr>"
  obtain key u where k: "map_of (ddict db) key = Some (a, u)" using assms(2) by (auto simp: at_def)
  obtain tbl part g v r cols where s: "key_ok tbl part" "map_of (ddict db) (dkey tbl part g) = Some (b, v)"
    "val v = HashObj (OBJ_ENCODING_REL r)" "rel_holds (cvsize srv) (M tbl part) cols r"
    "store_holds rget (cvsize srv) (M tbl part) cols (persistent_store db) (dkey tbl part g)"
    using assms(3) unfolding stored_def by blast
  obtain v' where "map_of (ddict (put_entry db a ?f)) (dkey tbl part g) = Some (b, v')" "val v' = val v"
    using put_entry_one [OF assms(1) k, of ?f "dkey tbl part g"] s(2) k by (cases "dkey tbl part g = key") auto
  with s(1,3-5) show ?thesis unfolding stored_def put_entry_frame(3) by metis
qed

lemma group_holds_relocate:
  assumes "db_ok db" and "at db a l0" and "key_ok tbl part"
    and "group_holds rget (cvsize srv) (M tbl part) cols db (dkey tbl part g)" and "l = LOCATION_PERSISTED \<longrightarrow> stored rget srv M db a"
  shows "group_holds rget (cvsize srv) (M tbl part) cols (put_entry db a (\<lambda>v. v\<lparr>loc := l\<rparr>)) (dkey tbl part g)"
proof -
  obtain key u where k: "map_of (ddict db) key = Some (a, u)" using assms(2) by (auto simp: at_def)
  note p = put_entry_one [OF assms(1) k, of "\<lambda>v. v\<lparr>loc := l\<rparr>" "dkey tbl part g"]
  show ?thesis
  proof (cases "dkey tbl part g = key")
    case False
    then have "map_of (ddict (put_entry db a (\<lambda>v. v\<lparr>loc := l\<rparr>))) (dkey tbl part g) = map_of (ddict db) (dkey tbl part g)"
      using p by simp
    from group_holds_cong [OF this] assms(4) show ?thesis by simp
  next
    case True
    then obtain r where r: "val u = HashObj (OBJ_ENCODING_REL r)" "rel_holds (cvsize srv) (M tbl part) cols r"
      using assms(4) k by (auto simp: group_holds_def)
    have "store_holds rget (cvsize srv) (M tbl part) cols (persistent_store db) (dkey tbl part g)" if pers: "l = LOCATION_PERSISTED"
    proof -
      obtain tbl' part' g' v r' cols' where s: "key_ok tbl' part'" "map_of (ddict db) (dkey tbl' part' g') = Some (a, v)"
        "val v = HashObj (OBJ_ENCODING_REL r')" "rel_holds (cvsize srv) (M tbl' part') cols' r'"
        "store_holds rget (cvsize srv) (M tbl' part') cols' (persistent_store db) (dkey tbl' part' g')"
        using assms(5) pers unfolding stored_def by blast
      have "dkey tbl' part' g' = dkey tbl part g" using address_unique [OF assms(1) k s(2)] True by simp
      then have e: "tbl' = tbl" "part' = part" "g' = g"
        using dkey_inj [of part' part tbl' g' tbl g] s(1) assms(3) by (simp_all add: key_ok_def)
      have "v = u" using s(2) k unfolding e True by simp
      then have "r' = r" using s(3) r(1) by simp
      with s(4,5) show ?thesis unfolding e using store_holds_rel [OF _ r(2)] by simp
    qed
    with True p r show ?thesis by (simp add: group_holds_def)
  qed
qed

lemma data_inv_relocate:
  assumes "data_inv rget srv M es db" and "at db a l0" and "l = LOCATION_PERSISTED \<longrightarrow> stored rget srv M db a"
  shows "data_inv rget srv M es (put_entry db a (\<lambda>v. v\<lparr>loc := l\<rparr>))"
proof -
  let ?db = "put_entry db a (\<lambda>v. v\<lparr>loc := l\<rparr>)"
  have d: "db_ok db" "meta_ok db" "expires db = []" "unlinked db = []"
    "\<forall>k a v. map_of (ddict db) k = Some (a, v) \<longrightarrow> (\<exists>tbl part g. key_ok tbl part \<and> k = dkey tbl part g)"
    using assms(1) unfolding data_inv_def by blast+
  obtain key u where k: "map_of (ddict db) key = Some (a, u)" using assms(2) by (auto simp: at_def)
  note p = put_entry_one [OF d(1) k, of "\<lambda>v. v\<lparr>loc := l\<rparr>"]
  have "partition_holds rget srv (M tbl part) ?db tbl part gs"
    if "key_ok tbl part" "partition_holds rget srv (M tbl part) db tbl part gs" for tbl part gs
  proof (rule partition_holds_mono [OF that(2)])
    show "map_of (ddict ?db) (dkey tbl part g) = None" if "map_of (ddict db) (dkey tbl part g) = None" for g
      using that k by (auto simp: p)
  qed (simp_all add: group_holds_relocate [OF d(1) assms(2) that(1) _ assms(3)])
  moreover have "\<exists>tbl part g. key_ok tbl part \<and> x = dkey tbl part g" if "map_of (ddict ?db) x = Some (y, v)" for x y v
    using that d(5) k by (auto simp: p split: if_splits)
  moreover have "unlinked ?db = []" using put_entry_unlinked [OF d(1) k] d(4) by simp
  ultimately show ?thesis using assms(1) d(1,2) unfolding data_inv_def by (simp add: put_entry_ok) blast
qed

lemma queue_fields [simp]:
  "at (db\<lparr>EvictQueue := q, FreeQueue := fq\<rparr>) a l = at db a l"
  "stored rget srv M (db\<lparr>EvictQueue := q, FreeQueue := fq\<rparr>) a = stored rget srv M db a"
  "data_inv rget srv M es (db\<lparr>EvictQueue := q, FreeQueue := fq\<rparr>) = data_inv rget srv M es db"
proof -
  let ?db = "db\<lparr>EvictQueue := q, FreeQueue := fq\<rparr>"
  show "at ?db a l = at db a l" "stored rget srv M ?db a = stored rget srv M db a" by (simp_all add: at_def stored_def)
  have "partition_holds rget srv m ?db tbl part gs = partition_holds rget srv m db tbl part gs" for m tbl part gs
    by (rule partition_holds_cong) (simp_all add: mcount_def)
  moreover have "db_ok ?db = db_ok db" "meta_ok ?db = meta_ok db" by (simp_all add: db_ok_def entries_def meta_ok_def)
  ultimately show "data_inv rget srv M es ?db = data_inv rget srv M es db" by (simp add: data_inv_def)
qed

lemma mark_inv:
  assumes "tier_inv rget srv M es w" and "step rget rwrite srv M w Mark w'"
  shows "tier_inv rget srv M (es @ [Mark]) w'"
  using assms(2)
proof (rule MarkE)
  fix a db s ms
  assume w: "w = (s, a # ms)" "w' = (s\<lparr>tdb := db\<rparr>, ms)" and l: "set_location LOCATION_PERSISTED a (tdb s) = Inr db"
  let ?jobs = "bio_batch_tiering s" and ?db = "put_entry (tdb s) a (\<lambda>v. v\<lparr>loc := LOCATION_PERSISTED\<rparr>)"
  have t: "log_inv M es" "data_inv rget srv M es (tdb s)" "queue_inv rget srv M (tdb s) ?jobs (a # ms)"
    using assms(1) by (simp_all add: tier_inv_def w)
  have ok: "db_ok (tdb s)" using t(2) by (simp add: data_inv_def)
  have db: "db = ?db" using l by (auto simp: set_location_def bindr_eq_Inr)
  from t(3) obtain xs ys where xs: "qholds (EvictQueue (tdb s)) xs" "distinct xs" "\<forall>b \<in> set xs. at (tdb s) b LOCATION_REDIS_ONLY"
    and ys: "qholds (FreeQueue (tdb s)) ys" "distinct ys"
      "\<forall>b \<in> set ys. at (tdb s) b LOCATION_FLUSH \<or> at (tdb s) b LOCATION_PERSISTED"
    and q: "distinct (concat ?jobs @ a # ms)" "\<forall>b. at (tdb s) b LOCATION_FLUSH \<longleftrightarrow> b \<in> set (concat ?jobs @ a # ms)"
      "\<forall>b \<in> set (a # ms). stored rget srv M (tdb s) b"
    by (rule queue_invE)
  have a: "at (tdb s) a LOCATION_FLUSH" "stored rget srv M (tdb s) a" using q(2,3) by simp_all
  note at = at_relocate [OF ok a(1), of LOCATION_PERSISTED]
  have "a \<notin> set xs" using xs(3) at_unique [OF ok a(1)] by blast
  then have "\<forall>b \<in> set xs. at ?db b LOCATION_REDIS_ONLY" using xs(3) at by auto
  moreover have "\<forall>b \<in> set ys. at ?db b LOCATION_FLUSH \<or> at ?db b LOCATION_PERSISTED" using ys(3) at by auto
  moreover have "\<forall>b. at ?db b LOCATION_FLUSH \<longleftrightarrow> b \<in> set (concat ?jobs @ ms)" using q(1,2) at by auto
  moreover have "\<forall>b \<in> set ms. stored rget srv M ?db b" using q(3) stored_relocate [OF ok a(1)] by auto
  ultimately have "queue_inv rget srv M ?db ?jobs ms"
    using xs(1,2) ys(1,2) q(1) by (intro queue_invI [of _ xs ys]) simp_all
  with t(1) data_inv_relocate [OF t(2) a(1), of LOCATION_PERSISTED] a(2) show ?thesis
    by (simp add: tier_inv_def w db log_inv_def data_inv_def)
qed

section \<open>Tiering keeps the invariant\<close>

lemma dequeue_qholds:
  assumes "qholds q (x # xs)" and "h x = Some (Some l)"
  shows "\<exists>q'. dequeue h q = Inr (Some x, q') \<and> qholds q' xs"
  using unlink_qholds [OF assms(1)] assms(2) by (auto simp: dequeue_def entry_val_def)

lemma qholds_empty: "qholds q xs \<Longrightarrow> isEmpty q \<longleftrightarrow> xs = []"
proof (cases xs)
  case (Cons x ys)
  assume "qholds q xs"
  then show ?thesis using unlink_qholds [of q x ys] Cons by (auto simp: isEmpty_def)
qed (simp add: isEmpty_def qholds_def)

lemma at_heap: "db_ok db \<Longrightarrow> at db a l \<Longrightarrow> db_heap db a = Some (Some l)"
  unfolding at_def using entry_heap(1) by blast

lemma choose_victim:
  assumes "qholds (EvictQueue db) xs" and "\<forall>b \<in> set xs. at db b LOCATION_REDIS_ONLY" and "db_ok db"
    and "chooseBestKeyFromQueue2 (db_heap db) (EvictQueue db) (FreeQueue db) = Inr (a, h, q, fq)"
  shows "\<exists>xs' r. xs = a # xs' \<and> qholds q xs' \<and> enqueue (FreeQueue db) (Some a) = Inr (r, fq)"
proof (cases xs)
  case Nil
  then have "dequeue (db_heap db) (EvictQueue db) = Inr (None, EvictQueue db)"
    using assms(1) by (simp add: dequeue_def qholds_def)
  with assms(4) show ?thesis by (simp add: chooseBestKeyFromQueue2_def)
next
  case (Cons b ys)
  then have h: "db_heap db b = Some (Some LOCATION_REDIS_ONLY)" using assms(2,3) by (simp add: at_heap)
  then obtain q' where q': "dequeue (db_heap db) (EvictQueue db) = Inr (Some b, q')" "qholds q' ys"
    using dequeue_qholds [of _ _ _ "db_heap db", OF assms(1) [unfolded Cons] h] by blast
  have "chooseBestKeyFromQueue2 (db_heap db) (EvictQueue db) (FreeQueue db) =
      bindr (enqueue (FreeQueue db) (Some b)) (\<lambda>(_, fq). Inr (b, (db_heap db)(b := Some (Some LOCATION_FLUSH)), q', fq))"
    by (simp add: chooseBestKeyFromQueue2_def q'(1) entry_val_def h)
  with assms(4) have "a = b" "q = q'" "\<exists>r. enqueue (FreeQueue db) (Some a) = Inr (r, fq)"
    by (cases "enqueue (FreeQueue db) (Some b)"; auto)+
  with Cons q'(2) show ?thesis by simp
qed

lemma evict_one_inv:
  assumes "data_inv rget srv M es db" and "queue_inv rget srv M db (jobs @ [ev]) ms" and "evict_one db = Inr (a, n, db')"
  shows "data_inv rget srv M es db' \<and> queue_inv rget srv M db' (jobs @ [ev @ [a]]) ms"
proof -
  let ?db = "put_entry db a (\<lambda>v. v\<lparr>loc := LOCATION_FLUSH\<rparr>)"
  have ok: "db_ok db" using assms(1) by (simp add: data_inv_def)
  obtain h q fq where c: "chooseBestKeyFromQueue2 (db_heap db) (EvictQueue db) (FreeQueue db) = Inr (a, h, q, fq)"
    "db' = ?db\<lparr>EvictQueue := q, FreeQueue := fq\<rparr>"
    using assms(3) by (auto simp: evict_one_def bindr_eq_Inr Let_def)
  from assms(2) obtain xs ys where xs: "qholds (EvictQueue db) xs" "distinct xs" "\<forall>b \<in> set xs. at db b LOCATION_REDIS_ONLY"
    and ys: "qholds (FreeQueue db) ys" "distinct ys" "\<forall>b \<in> set ys. at db b LOCATION_FLUSH \<or> at db b LOCATION_PERSISTED"
    and j: "distinct (concat (jobs @ [ev]) @ ms)" "\<forall>b. at db b LOCATION_FLUSH \<longleftrightarrow> b \<in> set (concat (jobs @ [ev]) @ ms)"
      "\<forall>b \<in> set ms. stored rget srv M db b"
    by (rule queue_invE)
  obtain xs' r where x: "xs = a # xs'" "qholds q xs'" "enqueue (FreeQueue db) (Some a) = Inr (r, fq)"
    using choose_victim [OF xs(1,3) ok c(1)] by blast
  obtain k where fq: "qholds fq (take k ys @ [a])" using enqueue_qholds [OF ys(1) x(3)] by blast
  have a: "at db a LOCATION_REDIS_ONLY" using xs(3) x(1) by simp
  note at = at_relocate [OF ok a, of LOCATION_FLUSH]
  have new: "a \<notin> set ys" "a \<notin> set (concat (jobs @ [ev]) @ ms)"
    using ys(3) j(2) at_unique [OF ok a] by blast+
  have "\<forall>b \<in> set xs'. at ?db b LOCATION_REDIS_ONLY" using xs(2,3) x(1) at by auto
  moreover have "distinct (take k ys @ [a])" "\<forall>b \<in> set (take k ys @ [a]). at ?db b LOCATION_FLUSH \<or> at ?db b LOCATION_PERSISTED"
    using ys(2,3) new(1) at by (auto dest: in_set_takeD)
  moreover have "distinct (concat (jobs @ [ev @ [a]]) @ ms)" using j(1) new(2) by auto
  moreover have "\<forall>b. at ?db b LOCATION_FLUSH \<longleftrightarrow> b \<in> set (concat (jobs @ [ev @ [a]]) @ ms)" using j(2) at by auto
  moreover have "\<forall>b \<in> set ms. stored rget srv M ?db b" using j(3) stored_relocate [OF ok a] by auto
  ultimately have "queue_inv rget srv M db' (jobs @ [ev @ [a]]) ms"
    using xs(2) x(1,2) fq unfolding c(2) by (intro queue_invI [of _ xs' "take k ys @ [a]"]) simp_all
  with data_inv_relocate [OF assms(1) a, of LOCATION_FLUSH] show ?thesis by (simp add: c(2))
qed

lemma batch_loop_inv:
  assumes "batch_loop budget db ev = Some (Inr (ev', db'))"
    and "data_inv rget srv M es db" and "queue_inv rget srv M db (jobs @ [ev]) ms"
  shows "data_inv rget srv M es db' \<and> queue_inv rget srv M db' (jobs @ [ev']) ms"
proof -
  let ?P = "\<lambda>_ db ev y. \<forall>ev' db'. y = Some (Inr (ev', db')) \<longrightarrow> data_inv rget srv M es db \<longrightarrow>
    queue_inv rget srv M db (jobs @ [ev]) ms \<longrightarrow> data_inv rget srv M es db' \<and> queue_inv rget srv M db' (jobs @ [ev']) ms"
  obtain xs where "qholds (EvictQueue db) xs" using assms(3) unfolding queue_inv_def by blast
  then have "?P budget db ev (batch_loop budget db ev)"
  proof (rule batch_loop_induct [where P = ?P])
    fix budget n :: int and db db' :: "'a redisDb" and ev a y
    assume e: "evict_one db = Inr (a, n, db')" and IH: "?P (c_int (budget - n)) db' (ev @ [a]) y"
    show "?P budget db ev y" using IH evict_one_inv [OF _ _ e] by blast
  qed auto
  with assms show ?thesis by blast
qed

lemma tier_step_inv:
  assumes "tier_inv rget srv M es w" and "step rget rwrite srv M w Tier w'"
  shows "tier_inv rget srv M (es @ [Tier]) w'"
  using assms(2)
proof (rule TierE)
  fix s s' ms
  assume w: "w = (s, ms)" "w' = (s', ms)" and b: "batchTiering srv s = Some (Inr s')"
  obtain ev db where l: "batch_loop (batch_tiering_size srv) (tdb s) [] = Some (Inr (ev, db))"
    "s' = s\<lparr>tdb := db, bio_batch_tiering := bio_batch_tiering s @ [ev]\<rparr>"
    using b by (auto simp: batchTiering_def dbPersistBatch_def bindr_eq_Inr)
  have t: "log_inv M es" "data_inv rget srv M es (tdb s)" "queue_inv rget srv M (tdb s) (bio_batch_tiering s) ms"
    using assms(1) by (simp_all add: tier_inv_def w)
  have "queue_inv rget srv M (tdb s) (bio_batch_tiering s @ [[]]) ms"
    using queue_inv_snoc_Nil t(3) by blast
  from batch_loop_inv [OF l(1) t(2) this] t(1) show ?thesis
    by (simp add: tier_inv_def w l(2) log_inv_def data_inv_def)
qed

section \<open>The background thread keeps the invariant\<close>

text \<open>What waits in a job can be flushed.\<close>

lemma group_of_entry:
  assumes "data_inv rget srv M es db" and "map_of (ddict db) k = Some (a, v)"
  obtains tbl part g gs where "key_ok tbl part" and "k = dkey tbl part g" and "g < length gs"
    and "partition_holds rget srv (M tbl part) db tbl part gs" and "concat gs = rows_of es tbl part" and "[] \<notin> set gs"
proof -
  obtain tbl part g where k: "key_ok tbl part" "k = dkey tbl part g" using assms unfolding data_inv_def by blast
  then obtain gs where gs: "partition_holds rget srv (M tbl part) db tbl part gs" "concat gs = rows_of es tbl part" "[] \<notin> set gs"
    using assms(1) unfolding data_inv_def by blast
  have "g < length gs"
  proof (rule ccontr)
    assume "\<not> g < length gs"
    then have "map_of (ddict db) (dkey tbl part g) = None" using gs(1) unfolding partition_holds_def by simp
    with assms(2) k(2) show False by simp
  qed
  with k gs that show thesis by blast
qed

lemma group_clean:
  assumes "log_inv M es" and "concat gs = rows_of es tbl part" and "g < length gs" and "[] \<notin> set gs"
  shows "int (M tbl part) \<le> MAX_COLUMN_NUMBER" and "int g < INT_MAX"
    and "\<forall>c < M tbl part. list_all clean (column (gs ! g) c) \<and> int (length (column (gs ! g) c)) < INT_MAX"
proof -
  have l: "\<forall>row \<in> set (concat gs). length row = M tbl part \<and> list_all clean row" "int (length (concat gs)) + 1 < INT_MAX"
    "concat gs \<noteq> [] \<longrightarrow> int (M tbl part) \<le> MAX_COLUMN_NUMBER"
    using assms(1,2) by (simp_all add: log_inv_def)
  have g: "gs ! g \<in> set gs" using assms(3) by simp
  then have g: "gs ! g \<in> set gs" "set (gs ! g) \<subseteq> set (concat gs)" by auto
  then have "gs ! g \<noteq> []" using assms(4) by metis
  then have "concat gs \<noteq> []" using g by (metis set_empty subset_empty)
  then show "int (M tbl part) \<le> MAX_COLUMN_NUMBER" using l(3) by blast
  have n: "length gs \<le> length (concat gs)" by (rule length_concat [OF assms(4)])
  with assms(3) l(2) show "int g < INT_MAX" by linarith
  have "length (gs ! g) \<le> length (concat gs)"
    using assms(3) by (simp add: length_concat_member)
  then show "\<forall>c < M tbl part. list_all clean (column (gs ! g) c) \<and> int (length (column (gs ! g) c)) < INT_MAX"
    using l(1,2) g(2) by (auto simp: column_def list_all_iff)
qed

lemma entry_flushable:
  assumes "log_inv M es" and "data_inv rget srv M es db" and "at db a l"
  shows "\<exists>tbl part g cols. flushable srv db a tbl part g (M tbl part) cols"
proof -
  obtain k v where k: "map_of (ddict db) k = Some (a, v)" using assms(3) by (auto simp: at_def)
  obtain tbl part g gs where g: "key_ok tbl part" "k = dkey tbl part g" "g < length gs"
    "partition_holds rget srv (M tbl part) db tbl part gs" "concat gs = rows_of es tbl part" "[] \<notin> set gs"
    by (rule group_of_entry [OF assms(2) k])
  have "group_holds rget (cvsize srv) (M tbl part) (column (gs ! g)) db (dkey tbl part g)"
    using g(3,4) by (simp add: partition_holds_def)
  then obtain r where "val v = HashObj (OBJ_ENCODING_REL r)" "rel_holds (cvsize srv) (M tbl part) (column (gs ! g)) r"
    using k g(2) by (auto simp: group_holds_def)
  with g(1,2) k group_clean [OF assms(1) g(5,3,6)] show ?thesis unfolding flushable_def by blast
qed

lemma store_changed:
  assumes "data_inv rget srv M es db"
    and "\<And>tbl part g cols. key_ok tbl part \<Longrightarrow>
      \<forall>a v. map_of (ddict db) (dkey tbl part g) = Some (a, v) \<longrightarrow> loc v = LOCATION_PERSISTED \<Longrightarrow>
      store_holds rget (cvsize srv) (M tbl part) cols (persistent_store db) (dkey tbl part g) \<Longrightarrow>
      store_holds rget (cvsize srv) (M tbl part) cols st (dkey tbl part g)"
  shows "data_inv rget srv M es (db\<lparr>persistent_store := st\<rparr>)"
proof -
  let ?db = "db\<lparr>persistent_store := st\<rparr>"
  have "group_holds rget (cvsize srv) (M tbl part) cols ?db (dkey tbl part g)"
    if "key_ok tbl part" "group_holds rget (cvsize srv) (M tbl part) cols db (dkey tbl part g)" for tbl part g cols
    using that assms(2) [OF that(1), of g cols] by (auto simp: group_holds_def split: option.splits)
  then have "partition_holds rget srv (M tbl part) ?db tbl part gs"
    if "key_ok tbl part" "partition_holds rget srv (M tbl part) db tbl part gs" for tbl part gs
    using that by (intro partition_holds_mono [OF that(2)]) simp_all
  moreover have "db_ok ?db = db_ok db" "meta_ok ?db = meta_ok db" by (simp_all add: db_ok_def entries_def meta_ok_def)
  ultimately show ?thesis using assms(1) unfolding data_inv_def by simp blast
qed

lemma flush_inv:
  assumes "tier_inv rget srv M es w" and "step rget rwrite srv M w Flush w'" and "kv_laws rget rwrite"
    and "0 < columnvector_size srv"
  shows "tier_inv rget srv M (es @ [Flush]) w'"
  using assms(2)
proof (rule FlushE)
  fix s db jobs evicted puts
  assume w: "w = (s, [])" "w' = (s\<lparr>tdb := db, bio_batch_tiering := jobs\<rparr>, evicted)"
    and j: "bio_batch_tiering s = evicted # jobs" and b: "batch_puts (tdb s) evicted = Inr puts"
    and r: "rocks_write rwrite puts (tdb s) = Inr db"
  have t: "log_inv M es" "data_inv rget srv M es (tdb s)" "queue_inv rget srv M (tdb s) (evicted # jobs) []"
    using assms(1) j by (simp_all add: tier_inv_def w)
  have ok: "db_ok (tdb s)" using t(2) by (simp add: data_inv_def)
  obtain st where st: "rwrite (persistent_store (tdb s)) puts = Some st" "db = (tdb s)\<lparr>persistent_store := st\<rparr>"
    using r by (auto simp: rocks_write_def split: option.splits)
  from t(3) obtain xs ys where xs: "qholds (EvictQueue (tdb s)) xs" "distinct xs" "\<forall>b \<in> set xs. at (tdb s) b LOCATION_REDIS_ONLY"
    and ys: "qholds (FreeQueue (tdb s)) ys" "distinct ys"
      "\<forall>b \<in> set ys. at (tdb s) b LOCATION_FLUSH \<or> at (tdb s) b LOCATION_PERSISTED"
    and q: "distinct (concat (evicted # jobs) @ [])" "\<forall>b. at (tdb s) b LOCATION_FLUSH \<longleftrightarrow> b \<in> set (concat (evicted # jobs) @ [])"
    by (rule queue_invE)
  have f: "\<forall>a \<in> set evicted. \<exists>tbl part g m cols. flushable srv (tdb s) a tbl part g m cols"
    using q(2) entry_flushable [OF t(1,2)] by (simp add: ball_Un) meson
  note eff = batch_write_effect [OF ok assms(4,3) f b st(1)]
  have "data_inv rget srv M es db"
    unfolding st(2)
  proof (rule store_changed [OF t(2)])
    fix tbl part g cols
    assume k: "key_ok tbl part" and l: "\<forall>a v. map_of (ddict (tdb s)) (dkey tbl part g) = Some (a, v) \<longrightarrow> loc v = LOCATION_PERSISTED"
      and h: "store_holds rget (cvsize srv) (M tbl part) cols (persistent_store (tdb s)) (dkey tbl part g)"
    have "a \<notin> set evicted" if "map_of (ddict (tdb s)) (dkey tbl part g) = Some (a, v)" for a v
    proof
      assume "a \<in> set evicted"
      then have "at (tdb s) a LOCATION_FLUSH" using q(2) by simp
      moreover have "at (tdb s) a LOCATION_PERSISTED" using that l by (auto simp: at_def)
      ultimately show False using at_unique [OF ok] by blast
    qed
    with eff(2) [OF _ _ h] k show "store_holds rget (cvsize srv) (M tbl part) cols st (dkey tbl part g)"
      by (auto simp: key_ok_def)
  qed
  moreover have "stored rget srv M db a" if "a \<in> set evicted" for a
  proof -
    have "at (tdb s) a LOCATION_FLUSH" using that q(2) by simp
    then obtain tbl part g cols where fl: "flushable srv (tdb s) a tbl part g (M tbl part) cols"
      using entry_flushable [OF t(1,2)] by blast
    then obtain v r where "key_ok tbl part" "map_of (ddict (tdb s)) (dkey tbl part g) = Some (a, v)"
      "val v = HashObj (OBJ_ENCODING_REL r)" "rel_holds (cvsize srv) (M tbl part) cols r" unfolding flushable_def by blast
    with eff(1) [OF that fl] show ?thesis unfolding stored_def
      by (intro exI [of _ tbl] exI [of _ part] exI [of _ g] exI [of _ v] exI [of _ r] exI [of _ cols]) (simp add: st(2))
  qed
  moreover have "at db a l = at (tdb s) a l" for a l by (simp add: at_def st(2))
  ultimately have "queue_inv rget srv M db jobs evicted"
    using xs ys q by (intro queue_invI [of _ xs ys]) (auto simp: st(2))
  with t(1) \<open>data_inv rget srv M es db\<close> show ?thesis by (simp add: tier_inv_def w log_inv_def data_inv_def)
qed

section \<open>Clearing keeps the invariant\<close>

lemma data_inv_clear:
  assumes "data_inv rget srv M es db" and "map_of (ddict db) key = Some (a, v)" and "loc v = LOCATION_PERSISTED"
  shows "data_inv rget srv M es (db\<lparr>ddict := AList.delete key (ddict db)\<rparr>)"
proof -
  let ?db = "db\<lparr>ddict := AList.delete key (ddict db)\<rparr>"
  have d: "db_ok db" "meta_ok db" "expires db = []" "unlinked db = []"
    "\<forall>k a v. map_of (ddict db) k = Some (a, v) \<longrightarrow> (\<exists>tbl part g. key_ok tbl part \<and> k = dkey tbl part g)"
    using assms(1) unfolding data_inv_def by blast+
  have m: "map_of (ddict ?db) k = (if k = key then None else map_of (ddict db) k)" for k by (simp add: delete_conv')
  have "partition_holds rget srv (M tbl part) ?db tbl part gs"
    if "partition_holds rget srv (M tbl part) db tbl part gs" for tbl part gs
  proof (rule partition_holds_mono [OF that])
    fix g cols assume g: "group_holds rget (cvsize srv) (M tbl part) cols db (dkey tbl part g)"
    show "group_holds rget (cvsize srv) (M tbl part) cols ?db (dkey tbl part g)"
    proof (cases "dkey tbl part g = key")
      case True
      then show ?thesis using g assms(2,3) m [of key] by (simp add: group_holds_def)
    next
      case False
      then show ?thesis using g group_holds_cong [of ?db "dkey tbl part g" db] m by simp
    qed
  qed (simp_all add: delete_conv')
  moreover have "db_ok ?db"
  proof -
    have "db_ok (db\<lparr>expires := AList.delete key (expires db), ddict := AList.delete key (ddict db)\<rparr>)"
      using db_ok_delete [OF d(1)] by simp
    moreover have "db\<lparr>expires := AList.delete key (expires db), ddict := AList.delete key (ddict db)\<rparr> = ?db"
      using d(3) by simp
    ultimately show ?thesis by simp
  qed
  moreover have "meta_ok ?db" using d(2) by (simp add: meta_ok_def)
  moreover have "\<exists>tbl part g. key_ok tbl part \<and> x = dkey tbl part g" if "map_of (ddict ?db) x = Some (y, w)" for x y w
    using that d(5) unfolding m by (auto split: if_splits)
  ultimately show ?thesis using assms(1) unfolding data_inv_def by simp blast
qed

text \<open>What one turn of clearing does: nothing while the oldest entry is being flushed, else it drops the entry.\<close>

lemma clear_one_cases:
  assumes "db_ok (tdb s)" and "qholds (FreeQueue (tdb s)) (a # ys)" and "map_of (ddict (tdb s)) key = Some (a, v)"
    and "loc v \<noteq> LOCATION_REDIS_ONLY"
  shows "if loc v = LOCATION_PERSISTED
    then \<exists>q. qholds q ys \<and>
      clear_one s = Inr (s\<lparr>tdb := (tdb s)\<lparr>FreeQueue := q, ddict := AList.delete key (ddict (tdb s))\<rparr>\<rparr>)
    else clear_one s = Inr s"
proof -
  have h: "db_heap (tdb s) a = Some (Some (loc v))" by (rule entry_heap(1) [OF assms(1,3)])
  obtain q where q: "unlink_rear (FreeQueue (tdb s)) = Inr q" "qholds q ys"
    "buf_get (FreeQueue (tdb s)) (rear (FreeQueue (tdb s))) = Inr (Some a)"
    using unlink_qholds [OF assms(2)] by blast
  have "db_ok ((tdb s)\<lparr>FreeQueue := q\<rparr>)" using assms(1) by (simp add: db_ok_def entries_def)
  then have e: "entry_of ((tdb s)\<lparr>FreeQueue := q\<rparr>) a = Inr (key, v)" using entry_of_iff assms(3) by fastforce
  show ?thesis
    using h q assms(3,4) e
    by (simp add: clear_one_def chooseClearKeyFromQueue_def dequeueForClear_def entry_val_def dbClear_def) auto
qed

lemma clear_inv:
  assumes "tier_inv rget srv M es w" and "step rget rwrite srv M w Clear w'"
  shows "tier_inv rget srv M (es @ [Clear]) w'"
  using assms(2)
proof (rule ClearE)
  fix s s' ms
  assume w: "w = (s, ms)" "w' = (s', ms)" and ne: "\<not> isEmpty (FreeQueue (tdb s))" and c: "clear_one s = Inr s'"
  let ?jobs = "bio_batch_tiering s" and ?db = "tdb s"
  have t: "log_inv M es" "data_inv rget srv M es ?db" "queue_inv rget srv M ?db ?jobs ms"
    using assms(1) by (simp_all add: tier_inv_def w)
  have ok: "db_ok ?db" using t(2) by (simp add: data_inv_def)
  from t(3) obtain xs ys where xs: "qholds (EvictQueue ?db) xs" "distinct xs" "\<forall>b \<in> set xs. at ?db b LOCATION_REDIS_ONLY"
    and ys: "qholds (FreeQueue ?db) ys" "distinct ys" "\<forall>b \<in> set ys. at ?db b LOCATION_FLUSH \<or> at ?db b LOCATION_PERSISTED"
    and q: "distinct (concat ?jobs @ ms)" "\<forall>b. at ?db b LOCATION_FLUSH \<longleftrightarrow> b \<in> set (concat ?jobs @ ms)"
      "\<forall>b \<in> set ms. stored rget srv M ?db b"
    by (rule queue_invE)
  obtain a ys' where y: "ys = a # ys'" using ne ys(1) qholds_empty by (cases ys) auto
  obtain key v where k: "map_of (ddict ?db) key = Some (a, v)" "loc v \<noteq> LOCATION_REDIS_ONLY"
    using ys(3) y by (auto simp: at_def)
  note cases = clear_one_cases [OF ok ys(1) [unfolded y] k]
  show ?thesis
  proof (cases "loc v = LOCATION_PERSISTED")
    case False
    then have "s' = s" using cases c by simp
    with t show ?thesis by (simp add: tier_inv_def w log_inv_def data_inv_def)
  next
    case True
    then obtain fq where fq: "qholds fq ys'" "s' = s\<lparr>tdb := ?db\<lparr>FreeQueue := fq, ddict := AList.delete key (ddict ?db)\<rparr>\<rparr>"
      using cases c by auto
    let ?d1 = "?db\<lparr>ddict := AList.delete key (ddict ?db)\<rparr>"
    have d': "tdb s' = ?d1\<lparr>EvictQueue := EvictQueue ?d1, FreeQueue := fq\<rparr>" by (simp add: fq(2))
    have a: "at ?db a LOCATION_PERSISTED" using k(1) True by (auto simp: at_def)
    have at: "at ?d1 b l" if b: "at ?db b l" "b \<noteq> a" for b l
    proof -
      obtain k' v' where "map_of (ddict ?db) k' = Some (b, v')" "loc v' = l" using b(1) by (auto simp: at_def)
      then show ?thesis using b(2) k(1) unfolding at_def by (intro exI [of _ k'] exI [of _ v']) (auto simp: delete_conv')
    qed
    have st: "stored rget srv M ?d1 b" if b: "stored rget srv M ?db b" "b \<noteq> a" for b
    proof -
      obtain tbl part g u r cols where "key_ok tbl part" "map_of (ddict ?db) (dkey tbl part g) = Some (b, u)"
        "val u = HashObj (OBJ_ENCODING_REL r)" "rel_holds (cvsize srv) (M tbl part) cols r"
        "store_holds rget (cvsize srv) (M tbl part) cols (persistent_store ?db) (dkey tbl part g)"
        using b(1) unfolding stored_def by blast
      then show ?thesis using b(2) k(1) unfolding stored_def
        by (intro exI [of _ tbl] exI [of _ part] exI [of _ g] exI [of _ u] exI [of _ r] exI [of _ cols]) (auto simp: delete_conv')
    qed
    have na: "a \<notin> set xs" "a \<notin> set (concat ?jobs @ ms)" using xs(3) q(2) at_unique [OF ok a] by blast+
    have at': "at (tdb s') b l" if "at ?db b l" "b \<noteq> a" for b l unfolding d' queue_fields using at that by blast
    have "\<forall>b \<in> set xs. at (tdb s') b LOCATION_REDIS_ONLY" using xs(3) na(1) at' by metis
    moreover have "\<forall>b \<in> set ys'. at (tdb s') b LOCATION_FLUSH \<or> at (tdb s') b LOCATION_PERSISTED"
      using ys(2,3) y at' by (metis distinct.simps(2) list.set_intros(2))
    moreover have "at ?db b l" if "at (tdb s') b l" for b l
      using that unfolding d' queue_fields by (auto simp: at_def delete_conv' split: if_splits)
    then have "\<forall>b. at (tdb s') b LOCATION_FLUSH \<longleftrightarrow> b \<in> set (concat ?jobs @ ms)" using q(2) na(2) at' by metis
    moreover have "\<forall>b \<in> set ms. stored rget srv M (tdb s') b"
      unfolding d' queue_fields using q(3) na(2) st by (metis UnCI set_append)
    moreover have "EvictQueue (tdb s') = EvictQueue ?db" "FreeQueue (tdb s') = fq" by (simp_all add: fq(2))
    ultimately have "queue_inv rget srv M (tdb s') ?jobs ms"
      using xs(1,2) ys(2) q(1) fq(1) y by (intro queue_invI [of _ xs ys']) simp_all
    moreover have "data_inv rget srv M es (tdb s')" unfolding d' queue_fields by (rule data_inv_clear [OF t(2) k(1) True])
    moreover have "bio_batch_tiering s' = ?jobs" by (simp add: fq(2))
    ultimately show ?thesis using t(1) by (simp add: tier_inv_def w log_inv_def data_inv_def)
  qed
qed

end
