(* ===== verification/Reach.thy ===== *)
theory Reach
  imports Interleave
begin

text \<open>
  What holds in every reachable state of the tiering (\<open>Interleave\<close>): the invariant, that the steps
  of the main thread and of the background thread do not fault, and that what was handed over for
  flushing leaves memory.
\<close>

section \<open>Reachable states\<close>

text \<open>A server whose sizes are set.\<close>

definition sizes_set :: "server \<Rightarrow> bool" where
  "sizes_set srv \<longleftrightarrow> 0 < columnvector_size srv \<and> 0 < rowgroup_size srv"

lemma step_inv:
  assumes "tier_inv rget srv M es w" and "event_ok M es e" and "step rget rwrite srv M w e w'"
    and "kv_laws rget rwrite" and "sizes_set srv"
  shows "tier_inv rget srv M (es @ [e]) w'"
proof (cases e)
  case (Write tbl part rows)
  then show ?thesis using write_inv [OF assms(1)] assms(2,3,5) by (simp add: sizes_set_def)
next
  case Tier
  then show ?thesis using tier_step_inv assms(1,3) by blast
next
  case Flush
  then show ?thesis using flush_inv [OF assms(1)] assms(3-5) by (simp add: sizes_set_def)
next
  case Mark
  then show ?thesis using mark_inv assms(1,3) by blast
next
  case Clear
  then show ?thesis using clear_inv assms(1,3) by blast
qed

lemma run_inv:
  assumes "run rget rwrite srv M st es w" and "kv_laws rget rwrite" and "sizes_set srv"
  shows "tier_inv rget srv M es w"
  using assms(1)
proof (induction rule: run.induct)
  case Init
  then show ?case by (rule tier_inv_initial)
next
  case (Step es w e w')
  then show ?case using step_inv assms(2,3) by blast
qed

text \<open>What the invariant says of a partition.\<close>

lemma tier_inv_partition:
  assumes "tier_inv rget srv M es w" and "key_ok tbl part"
  obtains gs where "partition_holds rget srv (M tbl part) (tdb (fst w)) tbl part gs" and "concat gs = rows_of es tbl part"
    and "sizes_ok gs"
proof -
  obtain gs where gs: "partition_holds rget srv (M tbl part) (tdb (fst w)) tbl part gs" "concat gs = rows_of es tbl part"
    "[] \<notin> set gs"
    using assms unfolding tier_inv_def data_inv_def by blast
  have "int (length (rows_of es tbl part)) + 1 < INT_MAX" using assms(1) by (simp add: tier_inv_def log_inv_def)
  then have "int (length (concat gs)) + 1 < INT_MAX" by (simp add: gs(2))
  then have "sizes_ok gs"
    using length_concat [OF gs(3)] length_concat_member [of _ gs] by (fastforce simp: sizes_ok_def list_all_length)
  with gs that show ?thesis by blast
qed

section \<open>Tiering does not fault\<close>

lemma row_count_read:
  assumes "key_ok tbl part" and "meta_ok db" and "int g < INT_MAX"
    and "mcount db (meta_key_text tbl part) (rg_field g) = Some (int n)" and "int n \<le> INT_MAX"
  shows "getRowCount db (dkey tbl part g) = Inr (int n)"
proof -
  have g: "is_int (int g + 1)" using assms(3) by (simp add: is_int_def)
  have "length (print_int (int g + 1)) \<le> 10"
    using assms(3) print_nat_length_le [of "nat (int g + 1)" 9] by (simp add: print_int_def)
  then have "length (data_key_text tbl part (int g + 1)) + 1 < MAX_TMPBUF_SIZE"
    using assms(1) by (simp add: key_ok_def data_key_text_def)
  then have "toMetaKey (Some (dkey tbl part g)) = Inr (Some (meta_key_text tbl part, int g + 1))"
    using parsing_data_key [of tbl "int g + 1" part] g assms(1)
    by (simp add: toMetaKey_def key_ok_def dkey_def meta_key_text_def partition_text_def)
  moreover have "c_int (int n) = int n" using assms(5) by (simp add: c_int_id is_int_def)
  ultimately show ?thesis
    using mcount_read(2) [OF assms(2), of "meta_key_text tbl part" "createStringObjectFromLongLong (int g + 1)" "int n"] assms(4)
    by (simp add: getRowCount_def rg_object [OF g] lookupSDSKeyForMetadict_def)
qed

text \<open>Distinct addresses of the dictionary are at most as many as its entries.\<close>

lemma addresses_bound:
  assumes "distinct ys" and "\<forall>a \<in> set ys. \<exists>l. at db a l"
  shows "length ys \<le> length (ddict db)"
proof -
  have "set ys \<subseteq> (fst \<circ> snd) ` set (ddict db)" using assms(2) by (force simp: at_def dest: map_of_SomeD)
  then have "card (set ys) \<le> length (ddict db)"
    by (meson card_image_le card_length card_mono finite_imageI finite_set le_trans)
  then show ?thesis using distinct_card [OF assms(1)] by simp
qed

lemma evict_one_progress:
  assumes "log_inv M es" and "data_inv rget srv M es db" and "queue_inv rget srv M db jobs ms"
    and "\<not> isEmpty (EvictQueue db)" and "Suc (length (ddict db)) < QUEUE_MAX"
  shows "\<exists>a n db'. evict_one db = Inr (a, n, db') \<and> length (ddict db') = length (ddict db)"
proof -
  have ok: "db_ok db" "meta_ok db" using assms(2) by (simp_all add: data_inv_def)
  from assms(3) obtain xs ys where xs: "qholds (EvictQueue db) xs" "\<forall>b \<in> set xs. at db b LOCATION_REDIS_ONLY"
    and ys: "qholds (FreeQueue db) ys" "distinct ys" "\<forall>b \<in> set ys. at db b LOCATION_FLUSH \<or> at db b LOCATION_PERSISTED"
    by (rule queue_invE)
  obtain a xs' where x: "xs = a # xs'" using assms(4) xs(1) qholds_empty by (cases xs) auto
  then have at: "at db a LOCATION_REDIS_ONLY" using xs(2) by simp
  note h = at_heap [OF ok(1) at]
  obtain q where q: "dequeue (db_heap db) (EvictQueue db) = Inr (Some a, q)"
    using dequeue_qholds [of _ _ _ "db_heap db", OF xs(1) [unfolded x] h] by blast
  have "length ys \<le> length (ddict db)" using addresses_bound [OF ys(2)] ys(3) by blast
  with assms(5) obtain r fq where fq: "enqueue (FreeQueue db) (Some a) = Inr (r, fq)"
    using enqueue_some [OF ys(1), of a] by auto
  let ?db = "(put_entry db a (\<lambda>v. v\<lparr>loc := LOCATION_FLUSH\<rparr>))\<lparr>EvictQueue := q, FreeQueue := fq\<rparr>"
  obtain k v where k: "map_of (ddict db) k = Some (a, v)" using at by (auto simp: at_def)
  obtain tbl part g gs where g: "key_ok tbl part" "k = dkey tbl part g" "g < length gs"
    "partition_holds rget srv (M tbl part) db tbl part gs" "concat gs = rows_of es tbl part" "[] \<notin> set gs"
    by (rule group_of_entry [OF assms(2) k])
  have "int (length (concat gs)) + 1 < INT_MAX" using assms(1) by (simp add: log_inv_def g(5))
  then have "int g < INT_MAX" "int (length (gs ! g)) \<le> INT_MAX"
    using length_concat [OF g(6)] length_concat_member [OF g(3)] g(3) by linarith+
  moreover have "mcount ?db = mcount db" "meta_ok ?db = meta_ok db"
    by (simp_all add: mcount_def meta_ok_def fun_eq_iff)
  ultimately have "getRowCount ?db k = Inr (int (length (gs ! g)))"
    using row_count_read [OF g(1), of ?db g "length (gs ! g)"] ok(2) g(2-4) by (simp add: partition_holds_def)
  moreover have "db_ok ?db" using ok(1) put_entry_ok [of db a] by (simp add: db_ok_def entries_def)
  then have "entry_of ?db a = Inr (k, v\<lparr>loc := LOCATION_FLUSH\<rparr>)"
    by (subst entry_of_iff) (simp_all add: put_entry_find k)
  moreover have "length (ddict ?db) = length (ddict db)" by (simp add: put_entry_def)
  ultimately show ?thesis
    using q fq h by (simp add: evict_one_def chooseBestKeyFromQueue2_def entry_val_def)
qed

lemma batch_loop_progress:
  assumes "log_inv M es" and "data_inv rget srv M es db" and "queue_inv rget srv M db (jobs @ [ev]) ms"
    and "Suc (length (ddict db)) < QUEUE_MAX"
  shows "\<exists>ev' db'. batch_loop budget db ev = Some (Inr (ev', db'))"
proof -
  let ?ok = "\<lambda>db ev. data_inv rget srv M es db \<and> queue_inv rget srv M db (jobs @ [ev]) ms \<and> Suc (length (ddict db)) < QUEUE_MAX"
  let ?P = "\<lambda>_ db ev y. ?ok db ev \<longrightarrow> (\<exists>ev' db'. y = Some (Inr (ev', db')))"
  obtain xs where "qholds (EvictQueue db) xs" using assms(3) unfolding queue_inv_def by blast
  then have "?P budget db ev (batch_loop budget db ev)"
  proof (rule batch_loop_induct [where P = ?P])
    fix budget :: int and db :: "'a redisDb" and ev e
    assume "\<not> isEmpty (EvictQueue db)" and "evict_one db = Inl e"
    then show "?P budget db ev (Some (Inl e))" using evict_one_progress [OF assms(1)] by fastforce
  next
    fix budget n :: int and db db' :: "'a redisDb" and ev a y
    assume ne: "\<not> isEmpty (EvictQueue db)" and e: "evict_one db = Inr (a, n, db')"
      and IH: "?P (c_int (budget - n)) db' (ev @ [a]) y"
    show "?P budget db ev y"
    proof
      assume ok: "?ok db ev"
      then have "length (ddict db') = length (ddict db)" using evict_one_progress [OF assms(1) _ _ ne] e by fastforce
      with ok have "?ok db' (ev @ [a])" using evict_one_inv [OF _ _ e] by auto
      with IH show "\<exists>ev' db'. y = Some (Inr (ev', db'))" by blast
    qed
  qed auto
  with assms show ?thesis by blast
qed

lemma tier_enabled:
  assumes "tier_inv rget srv M es (s, ms)" and "Suc (length (ddict (tdb s))) < QUEUE_MAX"
  shows "\<exists>s'. batchTiering srv s = Some (Inr s')"
proof -
  have "queue_inv rget srv M (tdb s) (bio_batch_tiering s @ [[]]) ms"
    using queue_inv_snoc_Nil assms(1) unfolding tier_inv_def by (simp only: fst_conv snd_conv) blast
  then obtain ev db where "batch_loop (batch_tiering_size srv) (tdb s) [] = Some (Inr (ev, db))"
    using batch_loop_progress assms unfolding tier_inv_def by (metis fst_conv)
  then show ?thesis by (simp add: batchTiering_def)
qed

lemma flush_enabled:
  assumes "tier_inv rget srv M es (s, [])" and "sizes_set srv" and "bio_batch_tiering s = evicted # jobs"
    and "\<forall>puts. rwrite (persistent_store (tdb s)) puts \<noteq> None"
  shows "\<exists>puts db. step rget rwrite srv M (s, []) Flush (s\<lparr>tdb := db, bio_batch_tiering := jobs\<rparr>, evicted) \<and>
    batch_puts (tdb s) evicted = Inr puts \<and> rocks_write rwrite puts (tdb s) = Inr db \<and> ddict db = ddict (tdb s) \<and>
    FreeQueue db = FreeQueue (tdb s)"
proof -
  have t: "log_inv M es" "data_inv rget srv M es (tdb s)" "queue_inv rget srv M (tdb s) (evicted # jobs) []"
    using assms(1,3) by (simp_all add: tier_inv_def)
  have "db_ok (tdb s)" using t(2) by (simp add: data_inv_def)
  moreover have "\<forall>a \<in> set evicted. \<exists>tbl part g m cols. flushable srv (tdb s) a tbl part g m cols"
    using t(3) entry_flushable [OF t(1,2)] unfolding queue_inv_def by (metis UnCI concat.simps(2) set_append)
  ultimately obtain puts where puts: "batch_puts (tdb s) evicted = Inr puts"
    using batch_puts_ok [of "tdb s" srv evicted] assms(2) by (auto simp: sizes_set_def)
  obtain st where "rwrite (persistent_store (tdb s)) puts = Some st" using assms(4) by auto
  then have "rocks_write rwrite puts (tdb s) = Inr ((tdb s)\<lparr>persistent_store := st\<rparr>)" by (simp add: rocks_write_def)
  from step.Flush [OF assms(3) puts this] puts this show ?thesis by (intro exI conjI) (assumption, assumption, assumption, simp_all)
qed

lemma mark_enabled:
  assumes "tier_inv rget srv M es (s, a # ms)"
  shows "\<exists>db. step rget rwrite srv M (s, a # ms) Mark (s\<lparr>tdb := db\<rparr>, ms) \<and> set_location LOCATION_PERSISTED a (tdb s) = Inr db \<and>
    map (fst \<circ> snd) (ddict db) = map (fst \<circ> snd) (ddict (tdb s)) \<and> FreeQueue db = FreeQueue (tdb s)"
proof -
  have "db_ok (tdb s)" "at (tdb s) a LOCATION_FLUSH"
    using assms unfolding tier_inv_def data_inv_def queue_inv_def by simp_all
  then obtain k v where "entry_of (tdb s) a = Inr (k, v)" using entry_of_iff by (fastforce simp: at_def)
  then have "set_location LOCATION_PERSISTED a (tdb s) = Inr (put_entry (tdb s) a (\<lambda>v. v\<lparr>loc := LOCATION_PERSISTED\<rparr>))"
    by (simp add: set_location_def)
  from step.Mark [OF this] this show ?thesis
    by (intro exI conjI) (assumption, assumption, simp_all add: put_entry_def comp_def case_prod_unfold)
qed

lemma clear_enabled:
  assumes "tier_inv rget srv M es (s, ms)" and "\<not> isEmpty (FreeQueue (tdb s))"
  shows "\<exists>s'. clear_one s = Inr s'"
proof -
  have ok: "db_ok (tdb s)" and q: "queue_inv rget srv M (tdb s) (bio_batch_tiering s) ms"
    using assms(1) by (simp_all add: tier_inv_def data_inv_def)
  from q obtain ys where ys: "qholds (FreeQueue (tdb s)) ys" "\<forall>b \<in> set ys. at (tdb s) b LOCATION_FLUSH \<or> at (tdb s) b LOCATION_PERSISTED"
    by (rule queue_invE)
  obtain a ys' where y: "ys = a # ys'" using assms(2) ys(1) qholds_empty by (cases ys) auto
  obtain key v where "map_of (ddict (tdb s)) key = Some (a, v)" "loc v \<noteq> LOCATION_REDIS_ONLY"
    using ys(2) y by (auto simp: at_def)
  from clear_one_cases [OF ok ys(1) [unfolded y] this] show ?thesis by (auto split: if_splits)
qed

lemma mark_all_run:
  assumes "kv_laws rget rwrite" and "sizes_set srv"
  shows "run rget rwrite srv M st es (s, ms) \<Longrightarrow>
    \<exists>db. mark_all ms (tdb s) = Inr db \<and> run rget rwrite srv M st (es @ replicate (length ms) Mark) (s\<lparr>tdb := db\<rparr>, [])"
proof (induction ms arbitrary: es s)
  case (Cons a ms)
  obtain db where st: "step rget rwrite srv M (s, a # ms) Mark (s\<lparr>tdb := db\<rparr>, ms)"
    and db: "set_location LOCATION_PERSISTED a (tdb s) = Inr db"
    using mark_enabled [OF run_inv [OF Cons.prems assms]] by blast
  have "run rget rwrite srv M st (es @ [Mark]) (s\<lparr>tdb := db\<rparr>, ms)" using run.Step [OF Cons.prems _ st] by simp
  from Cons.IH [OF this] db show ?case by auto
qed simp

text \<open>The job of the background thread is a flush followed by its marks.\<close>

lemma batch_job_run:
  assumes "run rget rwrite srv M st es (s, [])" and "kv_laws rget rwrite" and "sizes_set srv"
    and "bio_batch_tiering s = evicted # jobs" and "\<forall>puts. rwrite (persistent_store (tdb s)) puts \<noteq> None"
  shows "\<exists>s'. process_batch_tiering rwrite s = Inr s' \<and> run rget rwrite srv M st (es @ Flush # replicate (length evicted) Mark) (s', [])"
proof -
  obtain puts db where st: "step rget rwrite srv M (s, []) Flush (s\<lparr>tdb := db, bio_batch_tiering := jobs\<rparr>, evicted)"
    and p: "batch_puts (tdb s) evicted = Inr puts" "rocks_write rwrite puts (tdb s) = Inr db"
    using flush_enabled [OF run_inv [OF assms(1-3)] assms(3,4), of rwrite] assms(5) by blast
  let ?s = "s\<lparr>tdb := db, bio_batch_tiering := jobs\<rparr>"
  have "run rget rwrite srv M st (es @ [Flush]) (?s, evicted)" using run.Step [OF assms(1) _ st] by simp
  from mark_all_run [OF assms(2,3) this] obtain db' where
    d: "mark_all evicted db = Inr db'" "run rget rwrite srv M st (es @ Flush # replicate (length evicted) Mark) (?s\<lparr>tdb := db'\<rparr>, [])"
    by auto
  have "process_batch_tiering rwrite s = Inr (?s\<lparr>tdb := db'\<rparr>)"
    by (simp add: process_batch_tiering_def prepareBatchWriteToRocksDB_def assms(4) p d(1))
  with d(2) show ?thesis by blast
qed

section \<open>What was handed over leaves memory\<close>

definition addresses :: "'ps redisDb \<Rightarrow> nat set" where
  "addresses db = set (map (fst \<circ> snd) (ddict db))"

lemma addresses_delete:
  assumes "db_ok db" and "map_of (ddict db) key = Some (a, v)"
  shows "addresses (db\<lparr>FreeQueue := q, ddict := AList.delete key (ddict db)\<rparr>) = addresses db - {a}"
proof -
  have d: "distinct (map (fst \<circ> snd) (ddict db))" "distinct (map fst (ddict db))"
    using assms(1) by (simp_all add: db_ok_def entries_def al_ok_def)
  have "(key, a, v) \<in> set (ddict db)" using assms(2) by (rule map_of_SomeD)
  then have same: "fst x = key \<longleftrightarrow> fst (snd x) = a" if x: "x \<in> set (ddict db)" for x
    using x inj_onD [OF conjunct2 [OF d(1) [unfolded distinct_map]], of x "(key, a, v)"]
      inj_onD [OF conjunct2 [OF d(2) [unfolded distinct_map]], of x "(key, a, v)"] by (cases x) auto
  have "set (AList.delete key (ddict db)) = {x \<in> set (ddict db). fst x \<noteq> key}" by (auto simp: AList.delete_eq)
  also have "\<dots> = {x \<in> set (ddict db). fst (snd x) \<noteq> a}" by (rule Collect_cong) (metis same)
  finally show ?thesis by (auto simp: addresses_def)
qed

text \<open>A store that accepts every batch.\<close>

definition accepts :: "'ps rocks_write \<Rightarrow> bool" where
  "accepts rwrite \<longleftrightarrow> (\<forall>st puts. rwrite st puts \<noteq> None)"

text \<open>The background thread finishes its jobs: every step of it leaves less to do.\<close>

lemma background_drains:
  assumes "run rget rwrite srv M st es w" and "kv_laws rget rwrite" and "sizes_set srv" and "accepts rwrite"
  shows "\<exists>es' w'. set es' \<subseteq> {Flush, Mark} \<and> run rget rwrite srv M st (es @ es') w' \<and>
    bio_batch_tiering (fst w') = [] \<and> snd w' = [] \<and> addresses (tdb (fst w')) = addresses (tdb (fst w)) \<and>
    FreeQueue (tdb (fst w')) = FreeQueue (tdb (fst w))"
  using assms(1)
proof (induction "length (concat (bio_batch_tiering (fst w))) + length (bio_batch_tiering (fst w)) + length (snd w)"
    arbitrary: es w rule: less_induct)
  case less
  obtain s ms where w: "w = (s, ms)" by (cases w)
  have inv: "tier_inv rget srv M es (s, ms)" using run_inv [OF less.prems assms(2,3)] by (simp add: w)
  have continue: ?case
    if st: "step rget rwrite srv M w e w1" and e: "e \<in> {Flush, Mark}"
      and less1: "length (concat (bio_batch_tiering (fst w1))) + length (bio_batch_tiering (fst w1)) + length (snd w1) <
        length (concat (bio_batch_tiering (fst w))) + length (bio_batch_tiering (fst w)) + length (snd w)"
      and same: "addresses (tdb (fst w1)) = addresses (tdb (fst w))" "FreeQueue (tdb (fst w1)) = FreeQueue (tdb (fst w))" for e w1
  proof -
    have "event_ok M es e" using e by auto
    then have "run rget rwrite srv M st (es @ [e]) w1" using run.Step [OF less.prems _ st] by blast
    from less.hyps [OF less1 this] obtain es' w' where "set es' \<subseteq> {Flush, Mark}" "run rget rwrite srv M st (es @ e # es') w'"
      "bio_batch_tiering (fst w') = []" "snd w' = []" "addresses (tdb (fst w')) = addresses (tdb (fst w))"
      "FreeQueue (tdb (fst w')) = FreeQueue (tdb (fst w))" by (auto simp: same)
    then show ?case using e by (intro exI [of _ "e # es'"] exI [of _ w']) auto
  qed
  show ?case
  proof (cases ms)
    case (Cons a ms')
    obtain db where "step rget rwrite srv M (s, a # ms') Mark (s\<lparr>tdb := db\<rparr>, ms')"
      "map (fst \<circ> snd) (ddict db) = map (fst \<circ> snd) (ddict (tdb s))" "FreeQueue db = FreeQueue (tdb s)"
      using mark_enabled [OF inv [unfolded Cons]] by blast
    then show ?thesis by (intro continue [of Mark "(s\<lparr>tdb := db\<rparr>, ms')"]) (simp_all add: w Cons addresses_def del: set_map)
  next
    case Nil
    show ?thesis
    proof (cases "bio_batch_tiering s")
      case (Cons evicted jobs)
      obtain db where "step rget rwrite srv M (s, []) Flush (s\<lparr>tdb := db, bio_batch_tiering := jobs\<rparr>, evicted)"
        "ddict db = ddict (tdb s)" "FreeQueue db = FreeQueue (tdb s)"
        using flush_enabled [OF inv [unfolded Nil] assms(3) Cons] assms(4) unfolding accepts_def by blast
      then show ?thesis
        by (intro continue [of Flush "(s\<lparr>tdb := db, bio_batch_tiering := jobs\<rparr>, evicted)"]) (simp_all add: w Nil Cons addresses_def)
    qed (use less.prems in \<open>auto simp: w Nil intro!: exI [of _ "[]"]\<close>)
  qed
qed

text \<open>With no job left the main thread clears the free queue, one entry per step.\<close>

lemma clear_persisted:
  assumes "tier_inv rget srv M es (s, [])" and "bio_batch_tiering s = []" and "qholds (FreeQueue (tdb s)) (a # ys)"
  shows "\<exists>s'. step rget rwrite srv M (s, []) Clear (s', []) \<and> bio_batch_tiering s' = [] \<and> qholds (FreeQueue (tdb s')) ys \<and>
    addresses (tdb s') = addresses (tdb s) - {a}"
proof -
  have t: "data_inv rget srv M es (tdb s)" "queue_inv rget srv M (tdb s) [] []" using assms(1,2) by (simp_all add: tier_inv_def)
  have ok: "db_ok (tdb s)" using t(1) by (simp add: data_inv_def)
  obtain zs where zs: "qholds (FreeQueue (tdb s)) zs" "\<forall>b \<in> set zs. at (tdb s) b LOCATION_FLUSH \<or> at (tdb s) b LOCATION_PERSISTED"
    and nf: "\<forall>b. \<not> at (tdb s) b LOCATION_FLUSH"
    using t(2) by (rule queue_invE) simp
  have "zs = a # ys" using zs(1) assms(3) by (rule qholds_unique)
  then have "at (tdb s) a LOCATION_PERSISTED" using zs(2) nf by auto
  then obtain key v where k: "map_of (ddict (tdb s)) key = Some (a, v)" "loc v = LOCATION_PERSISTED" by (auto simp: at_def)
  then obtain q where q: "qholds q ys"
    "clear_one s = Inr (s\<lparr>tdb := (tdb s)\<lparr>FreeQueue := q, ddict := AList.delete key (ddict (tdb s))\<rparr>\<rparr>)" (is "_ = Inr ?s'")
    using clear_one_cases [OF ok assms(3)] by fastforce
  have "\<not> isEmpty (FreeQueue (tdb s))" using assms(3) qholds_empty by auto
  from step.Clear [OF this q(2)] have "step rget rwrite srv M (s, []) Clear (?s', [])" .
  moreover have "addresses (tdb ?s') = addresses (tdb s) - {a}" using addresses_delete [OF ok k(1)] by simp
  ultimately show ?thesis using q(1) assms(2) by (intro exI [of _ ?s']) simp
qed

lemma clearing_drains:
  assumes "kv_laws rget rwrite" and "sizes_set srv"
  shows "run rget rwrite srv M st es (s, []) \<Longrightarrow> bio_batch_tiering s = [] \<Longrightarrow> qholds (FreeQueue (tdb s)) ys \<Longrightarrow>
    \<exists>s'. run rget rwrite srv M st (es @ replicate (length ys) Clear) (s', []) \<and> isEmpty (FreeQueue (tdb s')) \<and>
      addresses (tdb s') = addresses (tdb s) - set ys"
proof (induction ys arbitrary: es s)
  case Nil
  then show ?case using qholds_empty by auto
next
  case (Cons a ys)
  obtain s1 where s1: "step rget rwrite srv M (s, []) Clear (s1, [])" "bio_batch_tiering s1 = []"
    "qholds (FreeQueue (tdb s1)) ys" "addresses (tdb s1) = addresses (tdb s) - {a}"
    using clear_persisted [OF run_inv [OF Cons.prems(1) assms] Cons.prems(2,3)] by blast
  have "run rget rwrite srv M st (es @ [Clear]) (s1, [])" using run.Step [OF Cons.prems(1) _ s1(1)] by simp
  from Cons.IH [OF this s1(2,3)] obtain s' where
    "run rget rwrite srv M st ((es @ [Clear]) @ replicate (length ys) Clear) (s', [])" "isEmpty (FreeQueue (tdb s'))"
    "addresses (tdb s') = addresses (tdb s1) - set ys" by blast
  then show ?case using s1(4) by (intro exI [of _ s']) auto
qed

text \<open>
  C5. Row groups that wait in the free queue leave memory: from every reachable state, when the store
  accepts the batches, the background thread finishes its jobs and the main thread clears the free
  queue, after which the dictionary holds the entries it held before except those of the free queue.
\<close>

theorem free_queue_drains:
  assumes "run rget rwrite srv M st es w" and "kv_laws rget rwrite" and "sizes_set srv" and "accepts rwrite"
    and "qholds (FreeQueue (tdb (fst w))) ys"
  shows "\<exists>es' w'. set es' \<subseteq> {Flush, Mark, Clear} \<and> run rget rwrite srv M st (es @ es') w' \<and>
    isEmpty (FreeQueue (tdb (fst w'))) \<and> addresses (tdb (fst w')) = addresses (tdb (fst w)) - set ys"
proof -
  obtain es' w1 where 1: "set es' \<subseteq> {Flush, Mark}" "run rget rwrite srv M st (es @ es') w1"
    "bio_batch_tiering (fst w1) = []" "snd w1 = []" "addresses (tdb (fst w1)) = addresses (tdb (fst w))"
    "FreeQueue (tdb (fst w1)) = FreeQueue (tdb (fst w))"
    using background_drains [OF assms(1-4)] by blast
  have "run rget rwrite srv M st (es @ es') (fst w1, [])" using 1(2,4) by (metis prod.collapse)
  from clearing_drains [OF assms(2,3) this 1(3), of ys] assms(5) 1(6)
  obtain s' where "run rget rwrite srv M st ((es @ es') @ replicate (length ys) Clear) (s', [])"
    "isEmpty (FreeQueue (tdb s'))" "addresses (tdb s') = addresses (tdb (fst w1)) - set ys" by auto
  then show ?thesis using 1(1,5)
    by (intro exI [of _ "es' @ replicate (length ys) Clear"] exI [of _ "(s', [])"]) auto
qed


section \<open>The functions of the code are sequences of steps\<close>

lemma tier_run:
  "run rget rwrite srv M st es (s, ms) \<Longrightarrow> batchTiering srv s = Some (Inr s') \<Longrightarrow> run rget rwrite srv M st (es @ [Tier]) (s', ms)"
  using run.Step [of rget rwrite srv M st es "(s, ms)" Tier] step.Tier by fastforce

lemma free_turn_run:
  assumes "run rget rwrite srv M st es (s, ms)" and "free_turn srv s = Some (Inr s')"
  shows "\<exists>e \<in> {Tier, Clear}. run rget rwrite srv M st (es @ [e]) (s', ms)"
proof (cases "isEmpty (FreeQueue (tdb s))")
  case True
  then show ?thesis using assms tier_run by (fastforce simp: free_turn_def)
next
  case False
  then have "step rget rwrite srv M (s, ms) Clear (s', ms)" using assms(2) by (simp add: free_turn_def step.Clear)
  then show ?thesis using run.Step [OF assms(1)] by auto
qed

lemma free_loop_run:
  "run rget rwrite srv M st es (s, ms) \<Longrightarrow> free_loop srv limit inuse rs s = Some (Inr s') \<Longrightarrow>
   \<exists>es'. set es' \<subseteq> {Tier, Clear} \<and> run rget rwrite srv M st (es @ es') (s', ms)"
proof (induction srv limit inuse rs s arbitrary: es rule: free_loop.induct)
  case (1 srv limit inuse rs s)
  show ?case
  proof (cases "inuse \<le> limit")
    case True
    then show ?thesis using 1(2,3) by (auto intro: exI [of _ "[]"])
  next
    case False
    then obtain s1 where s1: "free_turn srv s = Some (Inr s1)"
      "(case rs of [] \<Rightarrow> Some (Inr s1) | r # rs \<Rightarrow> free_loop srv limit r rs s1) = Some (Inr s')"
      using 1(3) by (auto split: option.splits sum.splits)
    obtain e where e: "e \<in> {Tier, Clear}" "run rget rwrite srv M st (es @ [e]) (s1, ms)"
      using free_turn_run [OF 1(2) s1(1)] by blast
    show ?thesis
    proof (cases rs)
      case Nil
      then show ?thesis using s1(2) e by (intro exI [of _ "[e]"]) auto
    next
      case (Cons r rs')
      then obtain es' where "set es' \<subseteq> {Tier, Clear}" "run rget rwrite srv M st ((es @ [e]) @ es') (s', ms)"
        using 1(1) [OF False s1(1) _ Cons e(2)] s1(2) by auto
      then show ?thesis using e(1) by (intro exI [of _ "e # es'"]) auto
    qed
  qed
qed


section \<open>A sample\<close>

lemma single_entry:
  assumes "distinct (map fst xs)" and "map_of xs k = Some v" and "\<forall>k'. k' \<noteq> k \<longrightarrow> map_of xs k' = None"
  shows "xs = [(k, v)]"
proof -
  have "x = (k, v)" if "x \<in> set xs" for x
    using map_of_is_SomeI [OF assms(1), of "fst x" "snd x"] that assms(2,3) by (cases "fst x = k") (auto simp: prod_eq_iff)
  moreover have "(k, v) \<in> set xs" using assms(2) by (rule map_of_SomeD)
  ultimately have "set xs = {(k, v)}" by blast
  moreover from this have "length xs = 1" using assms(1) distinct_card [of xs] by (simp add: distinct_map)
  ultimately show ?thesis by (cases xs) auto
qed

text \<open>A server of small row groups, one table of two columns, and a row that is written and handed over.\<close>

definition tier_server :: server where
  "tier_server = small_server\<lparr>batch_tiering_size := 1\<rparr>"

definition sample_schema :: schema where
  "sample_schema tbl part = 2"

abbreviation sample_write :: event where
  "sample_write \<equiv> Write 1 ''2'' [[''a'', ''b'']]"

lemma sample_sizes: "sizes_set tier_server" "accepts al_write"
  by (simp_all add: sizes_set_def tier_server_def small_server_def accepts_def al_write_def)

lemma sample_event: "event_ok sample_schema [] sample_write" "write_ok tier_server 1 ''2'' 2 [[''a'', ''b'']] []"
proof -
  show "write_ok tier_server 1 ''2'' 2 [[''a'', ''b'']] []"
    using sample_write_ok by (simp add: write_ok_def tier_server_def)
  then show "event_ok sample_schema [] sample_write"
    by (simp add: write_ok_def sample_schema_def clean_def)
qed

lemma sample_written:
  "\<exists>s a. run al_get al_write tier_server sample_schema [] [sample_write] (s, []) \<and> qholds (EvictQueue (tdb s)) [a] \<and>
     qholds (FreeQueue (tdb s)) [] \<and> addresses (tdb s) = {a} \<and> length (ddict (tdb s)) = 1"
proof -
  let ?db = "initServer_db [] :: (string \<times> string) list redisDb"
  have inv: "tier_inv al_get tier_server sample_schema [] (initial [])" by (rule tier_inv_initial)
  then have d: "data_inv al_get tier_server sample_schema [] ?db" by (simp add: tier_inv_def initial_def)
  then have ok: "db_ok ?db" "meta_ok ?db" by (simp_all add: data_inv_def)
  have h: "partition_holds al_get tier_server 2 ?db 1 ''2'' []"
    by (simp add: partition_holds_def initServer_db_def mcount_def)
  have q: "qok (EvictQueue ?db) []" "queue_room (EvictQueue ?db)" "qholds (FreeQueue ?db) []"
    using qok_create [of DEFAULT_ARRAY_QUEUE_SIZE] qok_create [of DEFAULT_FREE_QUEUE_SIZE]
    by (simp_all add: initServer_db_def queue_room_def createArrayQueue_def inc_def qok_def)
  note ce = evict_queued_ok(1) [OF q(1,2)]
  from fpWrite_ok [OF sample_event(2) ok h ce] obtain db key cs where
    db: "fpWriteCommand al_get tier_server [] (command_key 1 ''2'' # [] # print_int (int 2) # [] # concat [[''a'', ''b'']])
      createSharedObjects ?db = Inr (ReplyOk, createSharedObjects, db)" "db_ok db"
    "appended key (meta_key_text 1 ''2'') cs ?db db" "evict_queued key ?db db" by metis
  obtain a v where a: "map_of (ddict db) key = Some (a, v)" "enqueue (EvictQueue ?db) (Some a) = Inr (1, EvictQueue db)"
    using db(4) by (auto simp: evict_queued_def initServer_db_def)
  obtain n where "qholds (EvictQueue db) (take n [] @ [a])" using enqueue_qholds [OF _ a(2)] q(1) unfolding qok_def by blast
  then have "qholds (EvictQueue db) [a]" by simp
  moreover have "FreeQueue db = FreeQueue ?db" using db(3) by (simp add: appended_def)
  moreover have "ddict db = [(key, a, v)]"
    using db(2,3) a(1) by (intro single_entry) (auto simp: appended_def initServer_db_def db_ok_def al_ok_def)
  moreover have "run al_get al_write tier_server sample_schema [] [sample_write] ((fst (initial []))\<lparr>tdb := db\<rparr>, [])"
  proof (rule run.Step [of _ _ _ _ _ "[]", simplified])
    show "run al_get al_write tier_server sample_schema [] [] (initial [])" by (rule run.Init)
    show "event_ok sample_schema [] sample_write" by (rule sample_event)
    show "step al_get al_write tier_server sample_schema (initial []) sample_write ((fst (initial []))\<lparr>tdb := db\<rparr>, [])"
      using step.Write [of al_get tier_server "[]" 1 "''2''" "[]" sample_schema "[]" "[[''a'', ''b'']]" createSharedObjects
        "fst (initial [])" createSharedObjects db al_write "[]"] db(1) ce by (simp add: sample_schema_def initial_def)
  qed
  ultimately show ?thesis using q(3) by (intro exI [of _ "(fst (initial []))\<lparr>tdb := db\<rparr>"] exI [of _ a]) (simp add: addresses_def)
qed

lemma sample_tiered:
  "\<exists>s a. run al_get al_write tier_server sample_schema [] [sample_write, Tier] (s, []) \<and> qholds (FreeQueue (tdb s)) [a] \<and>
     addresses (tdb s) = {a} \<and> length (ddict (tdb s)) = 1"
proof -
  obtain s a where s: "run al_get al_write tier_server sample_schema [] [sample_write] (s, [])" "qholds (EvictQueue (tdb s)) [a]"
    "qholds (FreeQueue (tdb s)) []" "addresses (tdb s) = {a}" "length (ddict (tdb s)) = 1"
    using sample_written by blast
  note inv = run_inv [OF s(1) al_kv_laws sample_sizes(1)]
  have t: "log_inv sample_schema [sample_write]" "data_inv al_get tier_server sample_schema [sample_write] (tdb s)"
    "queue_inv al_get tier_server sample_schema (tdb s) (bio_batch_tiering s) []"
    using inv by (simp_all add: tier_inv_def)
  have ok: "db_ok (tdb s)" using t(2) by (simp add: data_inv_def)
  have ne: "\<not> isEmpty (EvictQueue (tdb s))" using qholds_empty [OF s(2)] by simp
  obtain b n db where e: "evict_one (tdb s) = Inr (b, n, db)" "length (ddict db) = 1"
    using evict_one_progress [OF t ne] s(5) by auto
  have xs: "[a] = b # []" "qholds (EvictQueue db) []" using evict_one_shrinks [OF s(2) e(1)] by auto
  obtain h q fq where c: "chooseBestKeyFromQueue2 (db_heap (tdb s)) (EvictQueue (tdb s)) (FreeQueue (tdb s)) = Inr (b, h, q, fq)"
    "db = (put_entry (tdb s) b (\<lambda>v. v\<lparr>loc := LOCATION_FLUSH\<rparr>))\<lparr>EvictQueue := q, FreeQueue := fq\<rparr>"
    using e(1) by (auto simp: evict_one_def bindr_eq_Inr Let_def)
  obtain zs where "qholds (EvictQueue (tdb s)) zs" "\<forall>b \<in> set zs. at (tdb s) b LOCATION_REDIS_ONLY"
    using t(3) by (rule queue_invE)
  then obtain r where "enqueue (FreeQueue (tdb s)) (Some b) = Inr (r, fq)" using choose_victim [OF _ _ ok c(1)] by blast
  from enqueue_qholds [OF s(3) this] have fq: "qholds (FreeQueue db) [a]" using xs(1) by (simp add: c(2))
  have "map (fst \<circ> snd) (ddict db) = map (fst \<circ> snd) (ddict (tdb s))"
    by (simp add: c(2) put_entry_def comp_def case_prod_unfold)
  then have ad: "addresses db = {a}" using s(4) by (simp add: addresses_def del: set_map)
  have "isEmpty (EvictQueue db)" using qholds_empty [OF xs(2)] by simp
  then have "batch_loop (batch_tiering_size tier_server) (tdb s) [] = Some (Inr ([b], db))"
    using ne e(1) by (subst batch_loop.simps) (simp add: tier_server_def batch_loop.simps)
  then have "batchTiering tier_server s = Some (Inr (dbPersistBatch [b] (s\<lparr>tdb := db\<rparr>)))" by (simp add: batchTiering_def)
  from tier_run [OF s(1) this] fq ad e(2) show ?thesis
    by (intro exI [of _ "dbPersistBatch [b] (s\<lparr>tdb := db\<rparr>)"] exI [of _ a]) (simp add: dbPersistBatch_def)
qed

theorem free_queue_drains_witness:
  "\<exists>es w. run al_get al_write tier_server sample_schema [] (sample_write # Tier # es) w \<and> set es \<subseteq> {Flush, Mark, Clear} \<and>
     ddict (tdb (fst w)) = []"
proof -
  obtain s a where s: "run al_get al_write tier_server sample_schema [] [sample_write, Tier] (s, [])" "qholds (FreeQueue (tdb s)) [a]"
    "addresses (tdb s) = {a}" using sample_tiered by blast
  have "qholds (FreeQueue (tdb (fst (s, [])))) [a]" using s(2) by simp
  from free_queue_drains [OF s(1) al_kv_laws sample_sizes this] s(3) obtain es w where
    "set es \<subseteq> {Flush, Mark, Clear}" "run al_get al_write tier_server sample_schema [] ([sample_write, Tier] @ es) w"
    "addresses (tdb (fst w)) = {}" by auto
  then show ?thesis by (intro exI [of _ es] exI [of _ w]) (simp add: addresses_def)
qed



end
