(* ===== verification/Glob.thy ===== *)
theory Glob
  imports CLib
begin

text \<open>
  Glob matching of \<open>src/src/util.c\<close> (\<open>stringmatchlen\<close>, \<open>stringmatch\<close>). The matcher walks
  two pointers; the text pointer may move one place past the terminating NUL, where the next read
  is outside the buffer. The model keeps that as a fault. It is compared with a declarative
  semantics of parsed patterns.
\<close>

section \<open>Definitions\<close>

text \<open>
  The text pointer: the unread text, or nothing once it has moved past the terminating NUL
  (\<open>stringLen\<close> is negative). \<open>gread\<close> is \<open>string[0]\<close>, \<open>gadv\<close> is \<open>string++\<close>.
\<close>

definition gread :: "string option \<Rightarrow> char res" where
  "gread s = (case s of None \<Rightarrow> Inl OutOfBounds | Some [] \<Rightarrow> Inr NUL | Some (c # _) \<Rightarrow> Inr c)"

definition gadv :: "string option \<Rightarrow> string option res" where
  "gadv s = (case s of None \<Rightarrow> Inl OutOfBounds | Some [] \<Rightarrow> Inr None | Some (_ # t) \<Rightarrow> Inr (Some t))"

definition char_eq :: "bool \<Rightarrow> char \<Rightarrow> char \<Rightarrow> bool" where
  "char_eq nocase a b \<longleftrightarrow> (if nocase then tolower a = tolower b else a = b)"

text \<open>The range test of a class: bounds in either order, folded after they are ordered.\<close>

definition in_range :: "bool \<Rightarrow> char \<Rightarrow> char \<Rightarrow> char \<Rightarrow> bool" where
  "in_range nocase a b x \<longleftrightarrow>
     (let lo = (if schar a > schar b then b else a);
          hi = (if schar a > schar b then a else b);
          fold = (if nocase then tolower else (\<lambda>c. c))
      in schar (fold lo) \<le> schar (fold x) \<and> schar (fold x) \<le> schar (fold hi))"

text \<open>
  The loop over a class, after the opening bracket and the caret: the match flag and the pattern
  after the closing bracket. A pattern that ends in the class closes it; one that ends in a
  backslash is read past its end.
\<close>

fun glob_class :: "bool \<Rightarrow> string \<Rightarrow> string option \<Rightarrow> bool \<Rightarrow> (bool \<times> string) res" where
  "glob_class nocase [] s m = Inr (m, [])"
| "glob_class nocase (c # p) s m =
     (if c = CHR 0x5C then
        (case p of
           [] \<Rightarrow> Inl OutOfBounds
         | d # q \<Rightarrow> bindr (gread s) (\<lambda>x. glob_class nocase q s (m \<or> d = x)))
      else if c = CHR '']'' then Inr (m, p)
      else if 2 \<le> length p \<and> hd p = CHR ''-'' then
        bindr (gread s) (\<lambda>x. glob_class nocase (drop 2 p) s (m \<or> in_range nocase c (p ! 1) x))
      else bindr (gread s) (\<lambda>x. glob_class nocase p s (m \<or> char_eq nocase c x)))"

text \<open>
  One turn of the switch on a pattern character other than the star: nothing when the text does
  not match, else the pattern and the text after the item.
\<close>

definition glob_literal :: "bool \<Rightarrow> char \<Rightarrow> string \<Rightarrow> string option \<Rightarrow> (string \<times> string option) option res" where
  "glob_literal nocase c p s =
     bindr (gread s) (\<lambda>x.
       if char_eq nocase c x then bindr (gadv s) (\<lambda>s'. Inr (Some (p, s'))) else Inr None)"

definition glob_item :: "bool \<Rightarrow> char \<Rightarrow> string \<Rightarrow> string option \<Rightarrow> (string \<times> string option) option res" where
  "glob_item nocase c p s =
     (if c = CHR ''?'' then
        (if s = Some [] then Inr None else bindr (gadv s) (\<lambda>s'. Inr (Some (p, s'))))
      else if c = CHR ''['' then
        (let neg = (p \<noteq> [] \<and> hd p = CHR ''^'');
             q = (if neg then tl p else p)
         in bindr (glob_class nocase q s False) (\<lambda>(m, rest).
              if m = neg then Inr None
              else bindr (gadv s) (\<lambda>s'. Inr (Some (rest, s')))))
      else if c = CHR 0x5C \<and> p \<noteq> [] then glob_literal nocase (hd p) (tl p) s
      else glob_literal nocase c p s)"

lemma glob_class_length: "glob_class nocase p s m = Inr (b, r) \<Longrightarrow> length r \<le> length p"
proof (induction nocase p s m arbitrary: b r rule: glob_class.induct)
  case (2 nocase c p s m)
  show ?case
  proof (cases "c = CHR 0x5C")
    case True
    with 2 show ?thesis by (fastforce simp: bindr_eq_Inr split: list.splits)
  next
    case F: False
    show ?thesis
    proof (cases "c = CHR '']''")
      case True
      with 2 F show ?thesis by simp
    next
      case False
      with 2 F show ?thesis by (fastforce simp: bindr_eq_Inr split: if_splits)
    qed
  qed
qed simp

lemma glob_item_length: "glob_item nocase c p s = Inr (Some (p', s')) \<Longrightarrow> length p' \<le> length p"
  by (fastforce simp: glob_item_def glob_literal_def bindr_eq_Inr Let_def split: if_splits prod.splits
      dest: glob_class_length)

definition gleft :: "string option \<Rightarrow> nat" where
  "gleft s = (case s of None \<Rightarrow> 0 | Some t \<Rightarrow> Suc (length t))"

lemma gadv_less: "gadv s = Inr s' \<Longrightarrow> gleft s' < gleft s"
  by (auto simp: gadv_def gleft_def split: option.splits list.splits)

lemma length_dropWhile_less_Suc: "length (dropWhile P xs) < Suc (length xs)"
  by (simp add: le_imp_less_Suc length_dropWhile_le)

text \<open>
  The matcher and the loop that tries the rest of the pattern at every place of the text.
\<close>

function smatch :: "bool \<Rightarrow> string \<Rightarrow> string option \<Rightarrow> bool res"
  and star_loop :: "bool \<Rightarrow> string \<Rightarrow> string option \<Rightarrow> bool res" where
  "smatch nocase [] s = Inr (s = Some [])"
| "smatch nocase (c # p) s =
     (if c = CHR ''*'' then
        (let p' = dropWhile (\<lambda>x. x = CHR ''*'') p
         in if p' = [] then Inr True else star_loop nocase p' s)
      else
        bindr (glob_item nocase c p s) (\<lambda>r.
          case r of
            None \<Rightarrow> Inr False
          | Some (p', s') \<Rightarrow>
              if s' = Some [] then Inr (dropWhile (\<lambda>x. x = CHR ''*'') p' = [])
              else smatch nocase p' s'))"
| "star_loop nocase p s =
     (if s = Some [] then Inr False
      else
        bindr (smatch nocase p s) (\<lambda>b.
          if b then Inr True else bindr (gadv s) (\<lambda>s'. star_loop nocase p s')))"
  by pat_completeness auto
termination
  by (relation "inv_image (less_than <*lex*> less_than <*lex*> less_than)
      (\<lambda>x. case x of Inl (_, p, s) \<Rightarrow> (length p, gleft s, 0 :: nat)
                   | Inr (_, p, s) \<Rightarrow> (length p, gleft s, 1))")
    (auto simp: gadv_less length_dropWhile_less_Suc dest: glob_item_length)

declare smatch.simps(2) [simp del] star_loop.simps [simp del]

definition stringmatchlen :: "string \<Rightarrow> string \<Rightarrow> bool \<Rightarrow> bool res" where
  "stringmatchlen pattern str nocase = smatch nocase pattern (Some str)"

definition stringmatch :: "string \<Rightarrow> string \<Rightarrow> bool \<Rightarrow> bool res" where
  "stringmatch pattern str nocase = stringmatchlen (cstr pattern) (cstr str) nocase"

section \<open>Meaning of a pattern\<close>

datatype citem = IExact char | IRange char char | IFold char

datatype gtok = GStar | GAny | GChar char | GSet bool "citem list"

fun cparse :: "string \<Rightarrow> (citem list \<times> string) option" where
  "cparse [] = Some ([], [])"
| "cparse (c # p) =
     (if c = CHR 0x5C then
        (case p of
           [] \<Rightarrow> None
         | d # q \<Rightarrow> map_option (apfst ((#) (IExact d))) (cparse q))
      else if c = CHR '']'' then Some ([], p)
      else if 2 \<le> length p \<and> hd p = CHR ''-'' then
        map_option (apfst ((#) (IRange c (p ! 1)))) (cparse (drop 2 p))
      else map_option (apfst ((#) (IFold c))) (cparse p))"

lemma cparse_length: "cparse p = Some (is, r) \<Longrightarrow> length r \<le> length p"
proof (induction p arbitrary: "is" r rule: cparse.induct)
  case (2 c p)
  show ?case
  proof (cases "c = CHR 0x5C \<or> c = CHR '']''")
    case True
    with 2 show ?thesis by (fastforce split: list.splits)
  next
    case False
    with 2 show ?thesis by (fastforce split: if_splits)
  qed
qed simp

text \<open>The tokens of a pattern; nothing when a class ends in a backslash.\<close>

function gparse :: "string \<Rightarrow> gtok list option" where
  "gparse [] = Some []"
| "gparse (c # p) =
     (if c = CHR ''*'' then map_option ((#) GStar) (gparse p)
      else if c = CHR ''?'' then map_option ((#) GAny) (gparse p)
      else if c = CHR ''['' then
        (let neg = (p \<noteq> [] \<and> hd p = CHR ''^'')
         in case cparse (if neg then tl p else p) of
              None \<Rightarrow> None
            | Some (is, r) \<Rightarrow> map_option ((#) (GSet neg is)) (gparse r))
      else if c = CHR 0x5C \<and> p \<noteq> [] then map_option ((#) (GChar (hd p))) (gparse (tl p))
      else map_option ((#) (GChar c)) (gparse p))"
  by pat_completeness auto
termination
  by (relation "measure length") (auto dest!: cparse_length split: if_splits)

declare gparse.simps(2) [simp del]

fun in_item :: "bool \<Rightarrow> char \<Rightarrow> citem \<Rightarrow> bool" where
  "in_item nocase x (IExact d) \<longleftrightarrow> d = x"
| "in_item nocase x (IRange a b) \<longleftrightarrow> in_range nocase a b x"
| "in_item nocase x (IFold c) \<longleftrightarrow> char_eq nocase c x"

text \<open>Which character a token stands for; the star is not one of them.\<close>

fun gaccept :: "bool \<Rightarrow> gtok \<Rightarrow> char \<Rightarrow> bool" where
  "gaccept nocase GStar x \<longleftrightarrow> False"
| "gaccept nocase GAny x \<longleftrightarrow> True"
| "gaccept nocase (GChar c) x \<longleftrightarrow> char_eq nocase c x"
| "gaccept nocase (GSet neg is) x \<longleftrightarrow> (neg \<longleftrightarrow> \<not> list_ex (in_item nocase x) is)"

text \<open>The language of a token list: the star stands for any text, the others for one character.\<close>

fun glang :: "bool \<Rightarrow> gtok list \<Rightarrow> string \<Rightarrow> bool" where
  "glang nocase [] s \<longleftrightarrow> s = []"
| "glang nocase (GStar # ts) s \<longleftrightarrow> (\<exists>k \<le> length s. glang nocase ts (drop k s))"
| "glang nocase (t # ts) s \<longleftrightarrow> s \<noteq> [] \<and> gaccept nocase t (hd s) \<and> glang nocase ts (tl s)"

text \<open>
  No token but the last accepts the terminating NUL: then the text pointer never passes it.
\<close>

fun gsafe :: "bool \<Rightarrow> gtok list \<Rightarrow> bool" where
  "gsafe nocase [] \<longleftrightarrow> True"
| "gsafe nocase (t # ts) \<longleftrightarrow> (t = GAny \<or> ts = [] \<or> \<not> gaccept nocase t NUL) \<and> gsafe nocase ts"

section \<open>The matcher decides the language\<close>

lemma glob_class_parse:
  assumes "gread s = Inr x"
  shows "glob_class nocase p s m =
    (case cparse p of
       None \<Rightarrow> Inl OutOfBounds
     | Some (is, r) \<Rightarrow> Inr (m \<or> list_ex (in_item nocase x) is, r))"
  using assms
proof (induction nocase p s m rule: glob_class.induct)
  case (2 nocase c p s m)
  show ?case
  proof (cases "c = CHR 0x5C")
    case True
    show ?thesis
    proof (cases p)
      case Nil
      with True show ?thesis by simp
    next
      case (Cons d q)
      with True 2 show ?thesis by (auto split: option.splits)
    qed
  next
    case F: False
    show ?thesis
    proof (cases "c = CHR '']''")
      case True
      with F show ?thesis by simp
    next
      case False
      with F 2 show ?thesis by (auto split: option.splits)
    qed
  qed
qed simp

text \<open>One turn of the switch, read as the first token of the pattern.\<close>

lemma glob_item_Some:
  assumes "gparse (c # p) = Some ts" and "c \<noteq> CHR ''*''"
  obtains t us p' where "ts = t # us" and "gparse p' = Some us" and "t \<noteq> GStar"
    and "length p' \<le> length p"
    and "\<And>x y. glob_item nocase c p (Some (x # y)) =
      Inr (if gaccept nocase t x then Some (p', Some y) else None)"
    and "glob_item nocase c p (Some []) =
      Inr (if gaccept nocase t NUL \<and> t \<noteq> GAny then Some (p', None) else None)"
proof -
  let ?neg = "p \<noteq> [] \<and> hd p = CHR ''^''"
  consider (any) "c = CHR ''?''" | (set) "c = CHR ''[''" | (esc) "c = CHR 0x5C" "p \<noteq> []"
    | (lit) "c \<noteq> CHR ''?''" "c \<noteq> CHR ''[''" "c = CHR 0x5C \<longrightarrow> p = []" by blast
  then show thesis
  proof cases
    case any
    with assms show thesis
      by (intro that [of GAny "the (gparse p)" p]) (auto simp: gparse.simps glob_item_def gadv_def)
  next
    case set
    with assms obtain "is" r us where c: "cparse (if ?neg then tl p else p) = Some (is, r)"
      "gparse r = Some us" "ts = GSet ?neg is # us"
      by (auto simp: gparse.simps Let_def split: option.splits prod.splits)
    have "length r \<le> length p" using cparse_length [OF c(1)] by (auto split: if_splits)
    with c set show thesis
      by (intro that [of "GSet ?neg is" us r])
        (auto simp: glob_item_def gadv_def gread_def glob_class_parse Let_def)
  next
    case esc
    with assms show thesis
      by (intro that [of "GChar (hd p)" "the (gparse (tl p))" "tl p"])
        (auto simp: gparse.simps glob_item_def glob_literal_def gadv_def gread_def)
  next
    case lit
    with assms show thesis
      by (intro that [of "GChar c" "the (gparse p)" p])
        (auto simp: gparse.simps glob_item_def glob_literal_def gadv_def gread_def)
  qed
qed

lemma glang_token:
  "t \<noteq> GStar \<Longrightarrow> glang nocase (t # ts) s \<longleftrightarrow> s \<noteq> [] \<and> gaccept nocase t (hd s) \<and> glang nocase ts (tl s)"
  by (cases t) auto

lemma glang_Nil: "glang nocase ts [] \<longleftrightarrow> list_all (\<lambda>t. t = GStar) ts"
proof (induction ts)
  case (Cons t ts)
  then show ?case by (cases "t = GStar") (auto simp: glang_token)
qed simp

lemma gparse_stars:
  "gparse p = Some ts \<Longrightarrow> dropWhile (\<lambda>x. x = CHR ''*'') p = [] \<longleftrightarrow> list_all (\<lambda>t. t = GStar) ts"
proof (induction p arbitrary: ts)
  case (Cons c p)
  show ?case
  proof (cases "c = CHR ''*''")
    case True
    with Cons.prems obtain us where "gparse p = Some us" "ts = GStar # us" by (auto simp: gparse.simps)
    with True show ?thesis using Cons.IH [of us] by simp
  next
    case False
    obtain t us where "ts = t # us" "t \<noteq> GStar" by (rule glob_item_Some [OF Cons.prems False]) blast
    with False show ?thesis by simp
  qed
qed simp

lemma glang_star_star: "glang nocase (GStar # GStar # ts) s \<longleftrightarrow> glang nocase (GStar # ts) s"
proof
  assume "glang nocase (GStar # GStar # ts) s"
  then obtain k j where "k \<le> length s" "j \<le> length s - k" "glang nocase ts (drop (j + k) s)"
    by (auto simp: add.commute)
  then show "glang nocase (GStar # ts) s" by (auto intro!: exI [of _ "j + k"])
next
  assume "glang nocase (GStar # ts) s"
  then show "glang nocase (GStar # GStar # ts) s"
    by (metis drop_0 glang.simps(2) le0)
qed

text \<open>Runs of stars count as one; what follows the run does not start with a star.\<close>

lemma gparse_drop_stars:
  assumes "gparse p = Some ts" and "gsafe nocase ts"
  obtains us where "gparse (dropWhile (\<lambda>x. x = CHR ''*'') p) = Some us" and "gsafe nocase us"
    and "\<And>s. glang nocase (GStar # ts) s \<longleftrightarrow> glang nocase (GStar # us) s"
  using assms
proof (induction p arbitrary: ts thesis)
  case (Cons c p)
  show ?case
  proof (cases "c = CHR ''*''")
    case True
    with Cons.prems obtain vs where v: "gparse p = Some vs" "ts = GStar # vs" "gsafe nocase vs"
      by (auto simp: gparse.simps)
    obtain us where "gparse (dropWhile (\<lambda>x. x = CHR ''*'') p) = Some us" "gsafe nocase us"
      "\<And>s. glang nocase (GStar # vs) s \<longleftrightarrow> glang nocase (GStar # us) s"
      using Cons.IH v by blast
    with True v(2) show ?thesis
      by (intro Cons.prems(1) [of us]) (auto simp: glang_star_star simp del: glang.simps)
  next
    case False
    with Cons.prems show ?thesis by simp
  qed
qed simp


lemma glang_star_split:
  assumes "us = t # vs" and "t \<noteq> GStar"
  shows "glang nocase (GStar # us) s \<longleftrightarrow> (\<exists>k < length s. glang nocase us (drop k s))"
  using assms by (auto simp: glang_token le_less)

lemma drop_Suc_ex: "(\<exists>k < length (x # y). P (drop k (x # y))) \<longleftrightarrow> P (x # y) \<or> (\<exists>k < length y. P (drop k y))"
  by (metis Suc_less_eq drop0 drop_Suc_Cons length_Cons less_Suc_eq_0_disj)

lemma smatch_glang:
  "s = Some t \<Longrightarrow> gparse p = Some ts \<Longrightarrow> gsafe nocase ts \<Longrightarrow>
     smatch nocase p s = Inr (glang nocase ts t)"
  "s = Some t \<Longrightarrow> gparse p = Some ts \<Longrightarrow> gsafe nocase ts \<Longrightarrow>
     star_loop nocase p s = Inr (\<exists>k < length t. glang nocase ts (drop k t))"
proof (induction nocase p s and nocase p s arbitrary: t ts and t ts rule: smatch_star_loop.induct)
  case (1 nocase s)
  then show ?case by simp
next
  case (2 nocase c p s)
  show ?case
  proof (cases "c = CHR ''*''")
    case True
    with "2.prems" obtain vs where v: "gparse p = Some vs" "ts = GStar # vs" "gsafe nocase vs"
      by (auto simp: gparse.simps)
    obtain us where u: "gparse (dropWhile (\<lambda>x. x = CHR ''*'') p) = Some us" "gsafe nocase us"
      "\<And>s. glang nocase (GStar # vs) s \<longleftrightarrow> glang nocase (GStar # us) s"
      using gparse_drop_stars [OF v(1,3)] by blast
    show ?thesis
    proof (cases "dropWhile (\<lambda>x. x = CHR ''*'') p = []")
      case T: True
      with u(1) have "us = []" by simp
      then have "glang nocase ts t" unfolding v(2) u(3) by auto
      with T True show ?thesis by (simp add: smatch.simps)
    next
      case F: False
      then obtain d q where d: "dropWhile (\<lambda>x. x = CHR ''*'') p = d # q" "d \<noteq> CHR ''*''"
        by (metis (full_types) hd_dropWhile list.exhaust_sel)
      obtain a b where ab: "us = a # b" "a \<noteq> GStar"
        by (rule glob_item_Some [OF u(1) [unfolded d(1)] d(2)]) blast
      show ?thesis
        using "2.IH"(1) [OF True refl F "2.prems"(1) u(1,2)] True F
        unfolding v(2) u(3) glang_star_split [OF ab]
        by (simp add: smatch.simps Let_def del: dropWhile_eq_Nil_conv)
    qed
  next
    case False
    obtain a us p' where i: "ts = a # us" "gparse p' = Some us" "a \<noteq> GStar"
      "\<And>x y. glob_item nocase c p (Some (x # y)) =
        Inr (if gaccept nocase a x then Some (p', Some y) else None)"
      "glob_item nocase c p (Some []) =
        Inr (if gaccept nocase a NUL \<and> a \<noteq> GAny then Some (p', None) else None)"
      by (rule glob_item_Some [OF "2.prems"(2) False]) blast
    have safe: "gsafe nocase us" "a = GAny \<or> us = [] \<or> \<not> gaccept nocase a NUL"
      using "2.prems"(3) i(1) by simp_all
    show ?thesis
    proof (cases t)
      case Nil
      have "p' = []" if "us = []" using i(2) that
        by (cases p') (auto simp: gparse.simps Let_def split: if_splits option.splits)
      with Nil i False safe(2) "2.prems"(1) show ?thesis
        by (auto simp: smatch.simps glang_token)
    next
      case (Cons x y)
      have "smatch nocase p' (Some y) = Inr (glang nocase us y)" if "gaccept nocase a x" "y \<noteq> []"
        using "2.IH"(2) [OF False, of "Some (p', Some y)" "(p', Some y)" p' "Some y"] that i safe(1)
          "2.prems"(1) Cons by simp
      with Cons i False "2.prems"(1) gparse_stars [OF i(2)] show ?thesis
        by (auto simp: smatch.simps(2) glang_token glang_Nil)
    qed
  qed
next
  case (3 nocase p s)
  show ?case
  proof (cases t)
    case Nil
    with "3.prems" show ?thesis by (simp add: star_loop.simps)
  next
    case (Cons x y)
    have m: "smatch nocase p s = Inr (glang nocase ts (x # y))"
      using "3.IH"(1) [OF _ "3.prems"] "3.prems"(1) Cons by simp
    have g: "gadv s = Inr (Some y)" using "3.prems"(1) Cons by (simp add: gadv_def)
    have l: "star_loop nocase p (Some y) = Inr (\<exists>k < length y. glang nocase ts (drop k y))"
      if "\<not> glang nocase ts (x # y)"
      using "3.IH"(2) [OF _ m that g refl "3.prems"(2,3)] "3.prems"(1) Cons by simp
    show ?thesis
      using m g l "3.prems"(1) unfolding Cons drop_Suc_ex by (simp add: star_loop.simps)
  qed
qed

section \<open>Properties\<close>

text \<open>
  C34. On a pattern that parses and whose tokens, the last apart, do not accept the terminating
  NUL, the matcher returns without leaving its buffers and decides membership in the language
  of the pattern.
\<close>

theorem stringmatchlen_decides:
  assumes "gparse pattern = Some ts" and "gsafe nocase ts"
  shows "stringmatchlen pattern str nocase = Inr (glang nocase ts str)"
  unfolding stringmatchlen_def using assms by (simp add: smatch_glang(1))

theorem stringmatchlen_decides_witness:
  "stringmatchlen ''a[0-9]*d'' ''a7bcd'' False = Inr True \<and>
   stringmatchlen ''u*:?'' ''USER:1'' True = Inr True"
proof -
  have g: "gparse ''a[0-9]*d'' =
      Some [GChar CHR ''a'', GSet False [IRange CHR ''0'' CHR ''9''], GStar, GChar CHR ''d'']"
    "gparse ''u*:?'' = Some [GChar CHR ''u'', GStar, GChar CHR '':'', GAny]" by code_simp+
  have s: "gsafe False [GChar CHR ''a'', GSet False [IRange CHR ''0'' CHR ''9''], GStar, GChar CHR ''d'']"
    "gsafe True [GChar CHR ''u'', GStar, GChar CHR '':'', GAny]" by code_simp+
  have l: "glang False [GChar CHR ''a'', GSet False [IRange CHR ''0'' CHR ''9''], GStar, GChar CHR ''d'']
      ''a7bcd''" "glang True [GChar CHR ''u'', GStar, GChar CHR '':'', GAny] ''USER:1''" by code_simp+
  show ?thesis
    unfolding stringmatchlen_decides [OF g(1) s(1)] stringmatchlen_decides [OF g(2) s(2)]
    using l by simp
qed

text \<open>
  The condition on classes is needed: a negated class accepts the terminating NUL of an
  empty text, after which the matcher reports a match that is none, or reads past the buffer. A
  class that ends in a backslash is read past its end on every text that reaches it.
\<close>

theorem stringmatchlen_overread:
  "stringmatchlen ''[^a]*'' [] nocase = Inr True \<and>
   stringmatchlen ''[^a]b'' [] nocase = Inl OutOfBounds \<and>
   stringmatchlen (CHR ''['' # [CHR 0x5C]) s nocase = Inl OutOfBounds"
proof (intro conjI)
  have "stringmatchlen ''[^a]*'' [] True = Inr True" "stringmatchlen ''[^a]*'' [] False = Inr True"
    by code_simp+
  then show "stringmatchlen ''[^a]*'' [] nocase = Inr True" by (cases nocase) simp_all
  have "stringmatchlen ''[^a]b'' [] True = Inl OutOfBounds"
    "stringmatchlen ''[^a]b'' [] False = Inl OutOfBounds" by code_simp+
  then show "stringmatchlen ''[^a]b'' [] nocase = Inl OutOfBounds" by (cases nocase) simp_all
  show "stringmatchlen (CHR ''['' # [CHR 0x5C]) s nocase = Inl OutOfBounds"
    by (simp add: stringmatchlen_def smatch.simps glob_item_def)
qed

end
