(* ===== verification/PartFilter.thy ===== *)
theory PartFilter
  imports Glob Store
begin

text \<open>
  Partition filters and the command \<open>METAKEYS\<close> (\<open>src/src/addb_relational.c\<close>, \<open>addb_relational.h\<close>,
  \<open>addb_table.c\<close>). A filter is a statement in postfix form: conditions separated by colons, the
  operands and the operator of a condition separated by stars. It is parsed with a stack into a
  tree and evaluated on the column values that the meta key of a partition names.
\<close>

section \<open>Definitions\<close>

subsection \<open>Operators\<close>

datatype optype =
    CONDITION_OP_TYPE_AND | CONDITION_OP_TYPE_OR | CONDITION_OP_TYPE_NOT
  | CONDITION_OP_TYPE_EQ | CONDITION_OP_TYPE_LT | CONDITION_OP_TYPE_LTE | CONDITION_OP_TYPE_GT | CONDITION_OP_TYPE_GTE
  | CONDITION_OP_TYPE_IS_NULL | CONDITION_OP_TYPE_IS_NOT_NULL
  | CONDITION_OP_TYPE_STRING_CONTAINS | CONDITION_OP_TYPE_STRING_ENDS_WITH | CONDITION_OP_TYPE_STRING_STARTS_WITH

text \<open>Nothing is the code -1.\<close>

definition getOperatorType :: "string \<Rightarrow> optype option" where
  "getOperatorType operator =
     (if operator = ''And'' then Some CONDITION_OP_TYPE_AND
      else if operator = ''Or'' then Some CONDITION_OP_TYPE_OR
      else if operator = ''Not'' then Some CONDITION_OP_TYPE_NOT
      else if operator = ''EqualTo'' then Some CONDITION_OP_TYPE_EQ
      else if operator = ''LessThan'' then Some CONDITION_OP_TYPE_LT
      else if operator = ''LessThanOrEqual'' then Some CONDITION_OP_TYPE_LTE
      else if operator = ''GreaterThan'' then Some CONDITION_OP_TYPE_GT
      else if operator = ''GreaterThanOrEqual'' then Some CONDITION_OP_TYPE_GTE
      else if operator = ''IsNull'' then Some CONDITION_OP_TYPE_IS_NULL
      else if operator = ''IsNotNull'' then Some CONDITION_OP_TYPE_IS_NOT_NULL
      else if operator = ''StringContains'' then Some CONDITION_OP_TYPE_STRING_CONTAINS
      else if operator = ''StringEndsWith'' then Some CONDITION_OP_TYPE_STRING_ENDS_WITH
      else if operator = ''StringStartsWith'' then Some CONDITION_OP_TYPE_STRING_STARTS_WITH
      else None)"

fun getOperatorStr :: "optype \<Rightarrow> string" where
  "getOperatorStr CONDITION_OP_TYPE_AND = ''And''"
| "getOperatorStr CONDITION_OP_TYPE_OR = ''Or''"
| "getOperatorStr CONDITION_OP_TYPE_NOT = ''Not''"
| "getOperatorStr CONDITION_OP_TYPE_EQ = ''EqualTo''"
| "getOperatorStr CONDITION_OP_TYPE_LT = ''LessThan''"
| "getOperatorStr CONDITION_OP_TYPE_LTE = ''LessThanOrEqual''"
| "getOperatorStr CONDITION_OP_TYPE_GT = ''GreaterThan''"
| "getOperatorStr CONDITION_OP_TYPE_GTE = ''GreaterThanOrEqual''"
| "getOperatorStr CONDITION_OP_TYPE_IS_NULL = ''IsNull''"
| "getOperatorStr CONDITION_OP_TYPE_IS_NOT_NULL = ''IsNotNull''"
| "getOperatorStr CONDITION_OP_TYPE_STRING_CONTAINS = ''StringContains''"
| "getOperatorStr CONDITION_OP_TYPE_STRING_ENDS_WITH = ''StringEndsWith''"
| "getOperatorStr CONDITION_OP_TYPE_STRING_STARTS_WITH = ''StringStartsWith''"

definition getOperatorOperandCount :: "optype \<Rightarrow> int" where
  "getOperatorOperandCount op =
     (if op \<in> {CONDITION_OP_TYPE_NOT, CONDITION_OP_TYPE_IS_NULL, CONDITION_OP_TYPE_IS_NOT_NULL} then 1 else 2)"

subsection \<open>Conditions\<close>

text \<open>The tagged union of a child, and the condition with its null pointers.\<close>

datatype child = ChildCond condition | ChildLong int | ChildSds string
  and condition = Condition (cop: optype) (opCount: int) (isLeaf: bool) (cfirst: "child option") (csecond: "child option")

text \<open>
  The stack holds pointers to children and to conditions; reading one as the other is a fault.
\<close>

datatype item = ItemChild child | ItemCond condition

definition as_child :: "item option \<Rightarrow> child res" where
  "as_child x = bindr (deref x) (\<lambda>i. case i of ItemChild c \<Rightarrow> Inr c | ItemCond _ \<Rightarrow> Inl BadCast)"

definition as_cond :: "item option \<Rightarrow> condition res" where
  "as_cond x = bindr (deref x) (\<lambda>i. case i of ItemCond c \<Rightarrow> Inr c | ItemChild _ \<Rightarrow> Inl BadCast)"

text \<open>
  The date pattern \<open>^[0-9]{4}-(0[1-9]|1[0-2])-(0[1-9]|[12][0-9]|3[01])$\<close>, as \<open>regexec\<close> decides it.
\<close>

definition between :: "char \<Rightarrow> char \<Rightarrow> char \<Rightarrow> bool" where
  "between lo hi c \<longleftrightarrow> (of_char lo :: nat) \<le> of_char c \<and> (of_char c :: nat) \<le> of_char hi"

definition date_pattern :: "string \<Rightarrow> bool" where
  "date_pattern s \<longleftrightarrow>
     (case s of
        [y1, y2, y3, y4, d1, m1, m2, d2, t1, t2] \<Rightarrow>
          list_all (between CHR ''0'' CHR ''9'') [y1, y2, y3, y4] \<and> d1 = CHR ''-'' \<and>
          (m1 = CHR ''0'' \<and> between CHR ''1'' CHR ''9'' m2 \<or> m1 = CHR ''1'' \<and> between CHR ''0'' CHR ''2'' m2) \<and>
          d2 = CHR ''-'' \<and>
          (t1 = CHR ''0'' \<and> between CHR ''1'' CHR ''9'' t2 \<or>
           between CHR ''1'' CHR ''2'' t1 \<and> between CHR ''0'' CHR ''9'' t2 \<or>
           t1 = CHR ''3'' \<and> between CHR ''0'' CHR ''1'' t2)
      | _ \<Rightarrow> False)"

definition dateStrToInteger :: "string \<Rightarrow> int option" where
  "dateStrToInteger dateStr =
     (if \<not> date_pattern dateStr then None
      else
        case sdssplit dateStr ''-'' of
          None \<Rightarrow> None
        | Some tokens \<Rightarrow> if length tokens \<noteq> 3 then None else string2l (sdsjoinsds tokens []))"

text \<open>A date or a number, when the text is one.\<close>

definition token_long :: "string \<Rightarrow> int option" where
  "token_long token = (case dateStrToInteger token of Some l \<Rightarrow> Some l | None \<Rightarrow> string2l token)"

definition operand :: "string \<Rightarrow> child" where
  "operand token = (case token_long token of Some l \<Rightarrow> ChildLong l | None \<Rightarrow> ChildSds token)"

subsection \<open>Parsing\<close>

text \<open>A copy with its terminator to a buffer on the stack, whose size is not tested.\<close>

definition copy_tmp :: "string \<Rightarrow> 'a res \<Rightarrow> 'a res" where
  "copy_tmp s r = (if length s + 1 \<le> MAX_TMPBUF_SIZE then r else Inl OutOfBounds)"

lemma strtok_r_rest: "save \<noteq> [] \<Longrightarrow> length (snd (strtok_r delim save)) < length save"
  using strtok_r_shorter [of delim save] by (cases "strtok_r delim save") (auto simp: strtok_r_def Let_def split: if_splits)

lemma strtok_r_rest_le: "length (snd (strtok_r delim save)) \<le> length save"
  using strtok_r_rest [of save delim] by (cases "save = []") (simp_all add: strtok_r_def)

lemma strtok_r_measure:
  "(case fst (strtok_r delim save) of None \<Rightarrow> 0 | Some _ \<Rightarrow> Suc (length (snd (strtok_r delim save)))) < Suc (length save)"
  using strtok_r_rest [of save delim] by (cases "save = []") (auto simp: strtok_r_def split: option.splits)

function push_operands ::
  "string option \<Rightarrow> string \<Rightarrow> item stack \<Rightarrow> int \<Rightarrow> (string option \<times> item stack \<times> int) res" where
  "push_operands token save s leafOperandCount =
     (if save = [] then Inr (token, s, leafOperandCount)
      else
        bindr (deref token) (\<lambda>t.
          bindr (stackPush s (Some (ItemChild (operand t)))) (\<lambda>(_, s).
            push_operands (fst (strtok_r ''*'' save)) (snd (strtok_r ''*'' save)) s (leafOperandCount + 1))))"
  by pat_completeness auto
termination
  by (relation "measure (\<lambda>(_, save, _, _). length save)") (auto simp: strtok_r_rest)

declare push_operands.simps [simp del]

text \<open>
  The children of a leaf and of an inner condition, from the stack. The pair is the return code,
  nothing for \<open>C_ERR\<close>, and the stack.
\<close>

definition leaf_condition :: "optype \<Rightarrow> int \<Rightarrow> item stack \<Rightarrow> (condition option \<times> item stack) res" where
  "leaf_condition op n s =
     bindr (stackPop s) (\<lambda>(x, s).
       bindr (as_child x) (\<lambda>first.
         case first of
           ChildLong _ \<Rightarrow>
             if n = 2 then
               bindr (stackPop s) (\<lambda>(y, s).
                 bindr (as_child y) (\<lambda>second. Inr (Some (Condition op n True (Some first) (Some second)), s)))
             else Inr (Some (Condition op n True (Some first) None), s)
         | _ \<Rightarrow> Inr (None, s)))"

definition inner_condition :: "optype \<Rightarrow> int \<Rightarrow> item stack \<Rightarrow> (condition option \<times> item stack) res" where
  "inner_condition op n s =
     bindr (stackPop s) (\<lambda>(x, s).
       bindr (as_cond x) (\<lambda>first.
         if n = 2 then
           bindr (stackPop s) (\<lambda>(y, s).
             bindr (as_cond y) (\<lambda>second.
               Inr (Some (Condition op n False (Some (ChildCond first)) (Some (ChildCond second))), s)))
         else Inr (Some (Condition op n False (Some (ChildCond first)) None), s)))"

definition createCondition :: "string \<Rightarrow> item stack \<Rightarrow> (condition option \<times> item stack) res" where
  "createCondition rawConditionStr s =
     copy_tmp rawConditionStr
       (bindr (push_operands (fst (strtok_r ''*'' rawConditionStr)) (snd (strtok_r ''*'' rawConditionStr)) s 0)
          (\<lambda>(token, s, leafOperandCount).
             bindr (deref token) (\<lambda>token.
               case getOperatorType token of
                 None \<Rightarrow> Inl ServerPanic
               | Some op \<Rightarrow>
                   let n = getOperatorOperandCount op
                   in if leafOperandCount > 0 then
                        (if leafOperandCount \<noteq> n then Inr (None, s) else leaf_condition op n s)
                      else
                        (if n > c_int (int (stackCount s)) then Inr (None, s) else inner_condition op n s))))"

function push_conditions :: "string option \<Rightarrow> string \<Rightarrow> item stack \<Rightarrow> item stack option res" where
  "push_conditions token save s =
     (case token of
        None \<Rightarrow> Inr (Some s)
      | Some t \<Rightarrow>
          bindr (createCondition t s) (\<lambda>(cond, s).
            case cond of
              None \<Rightarrow> Inr None
            | Some cond \<Rightarrow>
                bindr (stackPush s (Some (ItemCond cond))) (\<lambda>(_, s).
                  push_conditions (fst (strtok_r '':'' save)) (snd (strtok_r '':'' save)) s)))"
  by pat_completeness auto
termination
  by (relation "measure (\<lambda>(token, save, _). case token of None \<Rightarrow> 0 | Some _ \<Rightarrow> Suc (length save))")
    (simp_all add: strtok_r_measure)

declare push_conditions.simps [simp del]

definition parseStatement :: "string \<Rightarrow> condition option res" where
  "parseStatement rawStatementStr =
     copy_tmp rawStatementStr
       (let copyStr = cstr rawStatementStr
        in bindr (push_conditions (fst (strtok_r '':'' copyStr)) (snd (strtok_r '':'' copyStr)) stackInit) (\<lambda>r.
             case r of
               None \<Rightarrow> Inr None
             | Some s \<Rightarrow>
                 if stackCount s \<noteq> 1 then Inr None
                 else bindr (stackPop s) (\<lambda>(x, s). bindr (as_cond x) (\<lambda>root. Inr (Some root)))))"

subsection \<open>Evaluation\<close>

text \<open>The value of a partition column: the tag and the member of the struct that it selects.\<close>

datatype partition_value = PartitionLong int | PartitionSds string

record partition_parameter =
  columnId :: int
  pvalue :: partition_value

function add_partitions ::
  "string option \<Rightarrow> string \<Rightarrow> partition_parameter vector \<Rightarrow> (bool \<times> partition_parameter vector) res" where
  "add_partitions token save v =
     (if save = [] then Inr (True, v)
      else
        bindr (deref token) (\<lambda>t.
          case strtok_r '':'' save of
            (None, _) \<Rightarrow> Inr (False, v)
          | (Some u, save') \<Rightarrow>
              bindr (vectorAdd v (Some \<lparr>columnId = atoi t,
                  pvalue = (case token_long u of Some l \<Rightarrow> PartitionLong l | None \<Rightarrow> PartitionSds u)\<rparr>)) (\<lambda>(_, v).
                add_partitions (fst (strtok_r '':'' save')) (snd (strtok_r '':'' save')) v)))"
  by pat_completeness auto
termination
  by (relation "measure (\<lambda>(_, save, _). length save)")
    (auto intro!: le_less_trans [OF strtok_r_rest_le] dest: strtok_r_shorter [OF sym])

declare add_partitions.simps [simp del]

text \<open>The flag is the return code: true for \<open>C_OK\<close>.\<close>

definition parsePartitions ::
  "string \<Rightarrow> partition_parameter vector \<Rightarrow> (bool \<times> partition_parameter vector) res" where
  "parsePartitions part v =
     assertr (length part + 1 < MAX_TMPBUF_SIZE)
       (add_partitions (fst (strtok_r '':'' part)) (snd (strtok_r '':'' part)) v)"

definition convertLikeStatementToGlobPattern :: "optype \<Rightarrow> string \<Rightarrow> string option" where
  "convertLikeStatementToGlobPattern op likeStatement =
     (if op = CONDITION_OP_TYPE_STRING_CONTAINS then Some (''*'' @ likeStatement @ ''*'')
      else if op = CONDITION_OP_TYPE_STRING_ENDS_WITH then Some (''*'' @ likeStatement)
      else if op = CONDITION_OP_TYPE_STRING_STARTS_WITH then Some (likeStatement @ ''*'')
      else None)"

definition like_ops :: "optype set" where
  "like_ops = {CONDITION_OP_TYPE_STRING_CONTAINS, CONDITION_OP_TYPE_STRING_ENDS_WITH, CONDITION_OP_TYPE_STRING_STARTS_WITH}"

definition leaf_ops :: "optype set" where
  "leaf_ops = {CONDITION_OP_TYPE_EQ, CONDITION_OP_TYPE_LT, CONDITION_OP_TYPE_LTE, CONDITION_OP_TYPE_GT,
     CONDITION_OP_TYPE_GTE, CONDITION_OP_TYPE_IS_NULL, CONDITION_OP_TYPE_IS_NOT_NULL} \<union> like_ops"

text \<open>
  The body of the loop over the columns: nothing goes on with the next column. The comparison of
  two values of the same kind comes after the tests on the kinds.
\<close>

definition compare_longs :: "optype \<Rightarrow> int \<Rightarrow> int \<Rightarrow> bool res" where
  "compare_longs op param second =
     (if op = CONDITION_OP_TYPE_EQ then Inr (second = param)
      else if op \<in> like_ops then Inr False
      else if op = CONDITION_OP_TYPE_LT then Inr (param < second)
      else if op = CONDITION_OP_TYPE_LTE then Inr (param \<le> second)
      else if op = CONDITION_OP_TYPE_GT then Inr (param > second)
      else if op = CONDITION_OP_TYPE_GTE then Inr (param \<ge> second)
      else Inl ServerPanic)"

definition compare_texts :: "optype \<Rightarrow> string \<Rightarrow> string \<Rightarrow> bool res" where
  "compare_texts op param second =
     (if op = CONDITION_OP_TYPE_EQ then Inr (sdscmp second param = 0)
      else if op \<in> like_ops then
        bindr (deref (convertLikeStatementToGlobPattern op second)) (\<lambda>converted. stringmatch converted param False)
      else Inr False)"

definition leaf_column :: "optype \<Rightarrow> child option \<Rightarrow> child option \<Rightarrow> partition_parameter \<Rightarrow> bool option res" where
  "leaf_column op first second param =
     (case first of
        Some (ChildLong l) \<Rightarrow>
          if l \<noteq> columnId param then Inr None
          else if op = CONDITION_OP_TYPE_IS_NULL then Inr (Some False)
          else if op = CONDITION_OP_TYPE_IS_NOT_NULL then Inr (Some True)
          else
            (case second of
               Some (ChildLong r) \<Rightarrow>
                 (case pvalue param of
                    PartitionLong p \<Rightarrow> bindr (compare_longs op p r) (\<lambda>b. Inr (Some b))
                  | PartitionSds _ \<Rightarrow> Inr None)
             | Some (ChildSds r) \<Rightarrow>
                 (case pvalue param of
                    PartitionSds p \<Rightarrow> bindr (compare_texts op p r) (\<lambda>b. Inr (Some b))
                  | PartitionLong _ \<Rightarrow> Inr None)
             | _ \<Rightarrow> Inr (Some False))
      | _ \<Rightarrow> Inr (Some False))"

fun leaf_columns ::
  "optype \<Rightarrow> child option \<Rightarrow> child option \<Rightarrow> partition_parameter vector \<Rightarrow> nat list \<Rightarrow> bool res" where
  "leaf_columns op first second partitions [] = Inr True"
| "leaf_columns op first second partitions (i # is) =
     bindr (vectorGet partitions i) (\<lambda>x.
       bindr (deref x) (\<lambda>param.
         bindr (leaf_column op first second param) (\<lambda>r.
           case r of None \<Rightarrow> leaf_columns op first second partitions is | Some b \<Rightarrow> Inr b)))"

definition evaluateLeafOperator ::
  "optype \<Rightarrow> child option \<Rightarrow> child option \<Rightarrow> partition_parameter vector \<Rightarrow> bool res" where
  "evaluateLeafOperator op first second partitions =
     (if op \<notin> leaf_ops then Inr False else leaf_columns op first second partitions [0..<vectorCount partitions])"

text \<open>The second condition is evaluated only when the first does not decide.\<close>

function evaluate_condition :: "condition \<Rightarrow> partition_parameter vector \<Rightarrow> bool res"
  and evaluateNonleafOperator :: "optype \<Rightarrow> child option \<Rightarrow> child option \<Rightarrow> partition_parameter vector \<Rightarrow> bool res" where
  "evaluate_condition (Condition op n leaf first second) partitions =
     (if leaf then evaluateLeafOperator op first second partitions
      else evaluateNonleafOperator op first second partitions)"
| "evaluateNonleafOperator op first second partitions =
     (case first of
        Some (ChildCond c) \<Rightarrow>
          if op = CONDITION_OP_TYPE_NOT then bindr (evaluate_condition c partitions) (\<lambda>b. Inr (\<not> b))
          else
            (case second of
               Some (ChildCond d) \<Rightarrow>
                 if op = CONDITION_OP_TYPE_OR then
                   bindr (evaluate_condition c partitions) (\<lambda>b. if b then Inr True else evaluate_condition d partitions)
                 else if op = CONDITION_OP_TYPE_AND then
                   bindr (evaluate_condition c partitions) (\<lambda>b. if b then evaluate_condition d partitions else Inr False)
                 else Inr False
             | _ \<Rightarrow> Inr False)
      | _ \<Rightarrow> Inr False)"
  by pat_completeness auto
termination
  by (relation "measure (\<lambda>x. case x of Inl (c, _) \<Rightarrow> size c
      | Inr (_, f, s, _) \<Rightarrow> size_option size f + size_option size s)") auto

declare evaluateNonleafOperator.simps [simp del]

definition evaluateCondition :: "condition \<Rightarrow> string \<Rightarrow> bool res" where
  "evaluateCondition root metakey =
     bindr (parseMetaKeyInfo (Some metakey)) (\<lambda>r.
       bindr (deref r) (\<lambda>metaKeyInfo.
         bindr (parsePartitions (mpartition metaKeyInfo) vectorInit) (\<lambda>(rc, partitions).
           if \<not> rc then Inr False else evaluate_condition root partitions)))"

text \<open>What \<open>freeConditions\<close> releases, in order. The test for the second child reads the tag of the first.\<close>

datatype released = FreeSds string | FreeChild | FreeCondition

definition then_free :: "released list res \<Rightarrow> released list res \<Rightarrow> released list res" where
  "then_free a b = bindr a (\<lambda>fs. bindr b (\<lambda>gs. Inr (fs @ gs)))"

fun freeConditions :: "condition \<Rightarrow> released list res" where
  "freeConditions (Condition op n leaf first second) =
     then_free
       (case first of
          None \<Rightarrow> Inr []
        | Some (ChildCond c) \<Rightarrow> then_free (freeConditions c) (Inr [FreeChild])
        | Some (ChildSds t) \<Rightarrow> Inr [FreeSds t, FreeChild]
        | Some (ChildLong _) \<Rightarrow> Inr [FreeChild])
       (then_free
          (case second of
             None \<Rightarrow> Inr []
           | Some (ChildCond c) \<Rightarrow> then_free (freeConditions c) (Inr [FreeChild])
           | Some d \<Rightarrow>
               bindr (deref first) (\<lambda>f.
                 case (f, d) of
                   (ChildSds _, ChildSds t) \<Rightarrow> Inr [FreeSds t, FreeChild]
                 | (ChildSds _, ChildLong _) \<Rightarrow> Inl BadCast
                 | _ \<Rightarrow> Inr [FreeChild]))
          (Inr [FreeCondition]))"

subsection \<open>METAKEYS\<close>

fun add_matching :: "bool \<Rightarrow> string \<Rightarrow> string list \<Rightarrow> string vector \<Rightarrow> string vector res" where
  "add_matching allkeys pattern [] v = Inr v"
| "add_matching allkeys pattern (k # ks) v =
     bindr (if allkeys then Inr True else stringmatchlen pattern k False) (\<lambda>b.
       bindr (if b then bindr (vectorAdd v (Some k)) (\<lambda>(_, v). Inr v) else Inr v) (\<lambda>v.
         add_matching allkeys pattern ks v))"

fun add_satisfying :: "condition \<Rightarrow> string vector \<Rightarrow> nat list \<Rightarrow> string vector \<Rightarrow> string vector res" where
  "add_satisfying root metakeys [] v = Inr v"
| "add_satisfying root metakeys (i # is) v =
     bindr (vectorGet metakeys i) (\<lambda>x.
       bindr (deref x) (\<lambda>k.
         bindr (evaluateCondition root k) (\<lambda>b.
           bindr (if b then bindr (vectorAdd v (Some k)) (\<lambda>(_, v). Inr v) else Inr v) (\<lambda>v.
             add_satisfying root metakeys is v))))"

fun reply_keys :: "string vector \<Rightarrow> nat list \<Rightarrow> string list res" where
  "reply_keys metakeys [] = Inr []"
| "reply_keys metakeys (i # is) =
     bindr (vectorGet metakeys i) (\<lambda>x.
       bindr (deref x) (\<lambda>k. bindr (reply_keys metakeys is) (\<lambda>ks. Inr (k # ks))))"

definition addReplyMetakeysResults :: "string vector \<Rightarrow> reply res" where
  "addReplyMetakeysResults metakeys =
     bindr (reply_keys metakeys [0..<vectorCount metakeys]) (\<lambda>ks. Inr (ReplyBulks ks))"

text \<open>Nothing is the error reply for a statement that does not parse.\<close>

function apply_statements :: "string option \<Rightarrow> string \<Rightarrow> string vector \<Rightarrow> string vector option res" where
  "apply_statements token save metakeys =
     (case token of
        None \<Rightarrow> Inr (Some metakeys)
      | Some t \<Rightarrow>
          bindr (parseStatement t) (\<lambda>r.
            case r of
              None \<Rightarrow> Inr None
            | Some root \<Rightarrow>
                bindr (add_satisfying root metakeys [0..<vectorCount metakeys] vectorInit) (\<lambda>v.
                  bindr (freeConditions root) (\<lambda>_.
                    apply_statements (fst (strtok_r ''$'' save)) (snd (strtok_r ''$'' save)) v))))"
  by pat_completeness auto
termination
  by (relation "measure (\<lambda>(token, save, _). case token of None \<Rightarrow> 0 | Some _ \<Rightarrow> Suc (length save))")
    (simp_all add: strtok_r_measure)

declare apply_statements.simps [simp del]

text \<open>
  The keys of the metadata in the order of the dictionary; the statements are the optional second
  argument. \<open>validateStatements\<close> accepts everything.
\<close>

definition metakeysCommand :: "'ps redisDb \<Rightarrow> string \<Rightarrow> string option \<Rightarrow> reply res" where
  "metakeysCommand db pattern rawStatementsStr =
     bindr (add_matching (cstr pattern = ''*'') pattern (map fst (Metadict db)) (vectorTypeInit (int STL_TYPE_SDS))) (\<lambda>metakeys.
       case rawStatementsStr of
         None \<Rightarrow> addReplyMetakeysResults metakeys
       | Some raw \<Rightarrow>
           bindr (apply_statements (fst (strtok_r ''$'' (cstr raw))) (snd (strtok_r ''$'' (cstr raw))) metakeys) (\<lambda>r.
             case r of None \<Rightarrow> Inr ReplyError | Some metakeys \<Rightarrow> addReplyMetakeysResults metakeys))"

section \<open>Parsing builds well-typed conditions\<close>

text \<open>
  A condition is well typed when the number of its children is that of its operator, the first
  child of a leaf is a column id and its second a value, and the children of an inner condition are
  well-typed conditions.
\<close>

fun cond_ok :: "condition \<Rightarrow> bool" where
  "cond_ok (Condition op n leaf first second) \<longleftrightarrow>
     n = getOperatorOperandCount op \<and>
     (case first of
        Some (ChildLong _) \<Rightarrow>
          leaf \<and> (case second of None \<Rightarrow> n \<noteq> 2 | Some (ChildCond _) \<Rightarrow> False | Some _ \<Rightarrow> n = 2)
      | Some (ChildCond c) \<Rightarrow>
          \<not> leaf \<and> cond_ok c \<and>
          (case second of None \<Rightarrow> n \<noteq> 2 | Some (ChildCond d) \<Rightarrow> n = 2 \<and> cond_ok d | _ \<Rightarrow> False)
      | _ \<Rightarrow> False)"

abbreviation conds :: "condition list \<Rightarrow> item option list" where
  "conds cs \<equiv> map (\<lambda>c. Some (ItemCond c)) cs"

abbreviation children :: "child list \<Rightarrow> item option list" where
  "children ds \<equiv> map (\<lambda>d. Some (ItemChild d)) ds"

text \<open>A value: a child that is not a condition.\<close>

fun is_value :: "child \<Rightarrow> bool" where
  "is_value (ChildCond _) \<longleftrightarrow> False"
| "is_value _ \<longleftrightarrow> True"

lemma operandCount_cases: "getOperatorOperandCount op = 1 \<or> getOperatorOperandCount op = 2"
  by (simp add: getOperatorOperandCount_def)

lemma cond_ok_induct [consumes 1, case_names Leaf One Two]:
  assumes "cond_ok c"
    and "\<And>op col second. (case second of None \<Rightarrow> getOperatorOperandCount op = 1 | Some d \<Rightarrow> getOperatorOperandCount op = 2 \<and> is_value d) \<Longrightarrow>
      P (Condition op (getOperatorOperandCount op) True (Some (ChildLong col)) second)"
    and "\<And>op c. getOperatorOperandCount op = 1 \<Longrightarrow> cond_ok c \<Longrightarrow> P c \<Longrightarrow> P (Condition op 1 False (Some (ChildCond c)) None)"
    and "\<And>op c d. getOperatorOperandCount op = 2 \<Longrightarrow> cond_ok c \<Longrightarrow> P c \<Longrightarrow> cond_ok d \<Longrightarrow> P d \<Longrightarrow>
      P (Condition op 2 False (Some (ChildCond c)) (Some (ChildCond d)))"
  shows "P c"
  using assms(1)
proof (induction c rule: cond_ok.induct)
  case (1 op n leaf first second)
  consider (leaf) l where "first = Some (ChildLong l)" "leaf"
      "case second of None \<Rightarrow> getOperatorOperandCount op = 1 | Some d \<Rightarrow> getOperatorOperandCount op = 2 \<and> is_value d"
    | (one) c where "first = Some (ChildCond c)" "\<not> leaf" "cond_ok c" "second = None" "getOperatorOperandCount op = 1"
    | (two) c d where "first = Some (ChildCond c)" "\<not> leaf" "cond_ok c" "second = Some (ChildCond d)" "cond_ok d"
        "getOperatorOperandCount op = 2"
    using 1(3) operandCount_cases [of op] by (auto split: option.splits child.splits)
  then show ?case
  proof cases
    case leaf
    then show ?thesis using assms(2) 1(3) by simp
  next
    case one
    then show ?thesis using assms(3) [OF one(5,3) 1(1) [OF one(1) refl one(3)]] 1(3) by simp
  next
    case two
    then show ?thesis
      using assms(4) [OF two(6,3) 1(1) [OF two(1) refl two(3)] two(5) 1(2) [OF two(1) refl two(4) refl two(5)]] 1(3) by simp
  qed
qed

lemma operand_value [simp]: "is_value (operand t)"
  by (simp add: operand_def split: option.splits)

lemma strtok_r_fst: "snd (strtok_r delim s) \<noteq> [] \<Longrightarrow> fst (strtok_r delim s) \<noteq> None"
  by (auto simp: strtok_r_def Let_def split: if_splits)

lemma push_operands_ok:
  "sok s xs \<Longrightarrow> (save \<noteq> [] \<longrightarrow> token \<noteq> None) \<Longrightarrow>
   \<exists>token' s' ds. push_operands token save s n = Inr (token', s', n + int (length ds)) \<and>
     sok s' (xs @ children ds) \<and> list_all is_value ds"
proof (induction token save s n arbitrary: xs rule: push_operands.induct)
  case (1 token save s n)
  show ?case
  proof (cases "save = []")
    case True
    then show ?thesis using 1(2) by (intro exI [of _ token] exI [of _ s] exI [of _ "[]"]) (simp add: push_operands.simps)
  next
    case False
    then obtain t where t: "token = Some t" using 1(3) by auto
    obtain s1 where s1: "stackPush s (Some (ItemChild (operand t))) = Inr (True, s1)"
      "sok s1 (xs @ [Some (ItemChild (operand t))])"
      using cstack.holds_push [OF 1(2)] by blast
    have "deref token = Inr t" by (simp add: t)
    from 1(1) [OF False this s1(1) refl s1(2)] strtok_r_fst obtain token' s' ds where
      "push_operands (fst (strtok_r ''*'' save)) (snd (strtok_r ''*'' save)) s1 (n + 1) =
         Inr (token', s', n + 1 + int (length ds))"
      "sok s' ((xs @ [Some (ItemChild (operand t))]) @ children ds)" "list_all is_value ds" by blast
    then show ?thesis using False t s1(1)
      by (intro exI [of _ token'] exI [of _ s'] exI [of _ "operand t # ds"]) (simp add: push_operands.simps [of "Some t" save])
  qed
qed

text \<open>
  What a call of \<open>createCondition\<close> on a stack of well-typed conditions may do: stop at an unknown
  or missing operator, refuse, or build a well-typed condition from conditions of the stack.
\<close>

definition created :: "condition list \<Rightarrow> (condition option \<times> item stack) res \<Rightarrow> bool" where
  "created cs r \<longleftrightarrow>
     r \<in> {Inl ServerPanic, Inl NullDeref} \<or> (\<exists>s. r = Inr (None, s)) \<or>
     (\<exists>c s cs'. r = Inr (Some c, s) \<and> cond_ok c \<and> sok s (conds cs') \<and> list_all cond_ok cs' \<and> length cs' \<le> length cs)"

lemma createdI:
  "cond_ok c \<Longrightarrow> sok s (conds cs') \<Longrightarrow> list_all cond_ok cs' \<Longrightarrow> length cs' \<le> length cs \<Longrightarrow> created cs (Inr (Some c, s))"
  by (auto simp: created_def)

lemma created_simps [simp]:
  "created cs (Inl ServerPanic)" "created cs (Inl NullDeref)" "created cs (Inr (None, s))"
  by (auto simp: created_def)

lemma snoc2: "length xs = 2 \<Longrightarrow> \<exists>x y. xs = [x, y]"
  by (metis One_nat_def Suc_1 length_0_conv length_Suc_conv)

lemma as_simps [simp]:
  "as_child (Some (ItemChild d)) = Inr d" "as_cond (Some (ItemCond c)) = Inr c"
  by (simp_all add: as_child_def as_cond_def)

lemma leaf_condition_ok:
  assumes "sok s (conds cs @ children ds)" and "list_all cond_ok cs" and "list_all is_value ds"
    and "int (length ds) = getOperatorOperandCount op"
  shows "created cs (leaf_condition op (getOperatorOperandCount op) s)"
proof (cases "getOperatorOperandCount op = 2")
  case True
  then obtain d e where ds: "ds = [d, e]" using snoc2 [of ds] assms(4) by auto
  obtain s' s'' where p: "stackPop s = Inr (Some (ItemChild e), s')" "stackPop s' = Inr (Some (ItemChild d), s'')"
    "sok s'' (conds cs)"
    using cstack.pop_two [of s "conds cs" "Some (ItemChild d)" "Some (ItemChild e)"] assms(1) ds by auto
  have "is_value d" using assms(3) ds by simp
  then show ?thesis using p assms(2) True
    by (cases e; cases d) (auto simp: leaf_condition_def intro!: createdI)
next
  case False
  then have n: "getOperatorOperandCount op = 1" using operandCount_cases [of op] by simp
  then obtain d where ds: "ds = [d]" using assms(4) by (cases ds) auto
  obtain s' where "stackPop s = Inr (Some (ItemChild d), s')" "sok s' (conds cs)"
    using cstack.pop_snoc [of s "conds cs" "Some (ItemChild d)"] assms(1) ds by auto
  then show ?thesis using assms(2) n by (cases d) (auto simp: leaf_condition_def intro!: createdI)
qed

lemma inner_condition_ok:
  assumes "sok s (conds cs)" and "list_all cond_ok cs" and "getOperatorOperandCount op \<le> int (length cs)"
  shows "created cs (inner_condition op (getOperatorOperandCount op) s)"
proof (cases "getOperatorOperandCount op = 2")
  case True
  then obtain cs' d c where cs: "cs = cs' @ [d, c]"
    using assms(3) by (cases cs rule: rev_cases; cases "butlast cs" rule: rev_cases) auto
  obtain s' s'' where "stackPop s = Inr (Some (ItemCond c), s')" "stackPop s' = Inr (Some (ItemCond d), s'')"
    "sok s'' (conds cs')"
    using cstack.pop_two [of s "conds cs'" "Some (ItemCond d)" "Some (ItemCond c)"] assms(1) cs by auto
  then show ?thesis using assms(2) cs True by (auto simp: inner_condition_def intro!: createdI)
next
  case False
  then have n: "getOperatorOperandCount op = 1" using operandCount_cases [of op] by simp
  then obtain cs' c where cs: "cs = cs' @ [c]" using assms(3) by (cases cs rule: rev_cases) auto
  obtain s' where "stackPop s = Inr (Some (ItemCond c), s')" "sok s' (conds cs')"
    using cstack.pop_snoc [of s "conds cs'" "Some (ItemCond c)"] assms(1) cs by auto
  then show ?thesis using assms(2) cs n by (auto simp: inner_condition_def intro!: createdI)
qed

lemma createCondition_ok:
  assumes "sok s (conds cs)" and "list_all cond_ok cs" and "int (length cs) \<le> INT_MAX" and "length raw < MAX_TMPBUF_SIZE"
  shows "created cs (createCondition raw s)"
proof -
  let ?t = "strtok_r ''*'' raw"
  from push_operands_ok [OF assms(1), of "snd ?t" "fst ?t" 0] strtok_r_fst [of "''*''" raw]
  obtain token s' ds where p: "push_operands (fst ?t) (snd ?t) s 0 = Inr (token, s', int (length ds))"
    "sok s' (conds cs @ children ds)" "list_all is_value ds" by fastforce
  show ?thesis
  proof (cases token)
    case None
    with p(1) assms(4) show ?thesis by (simp add: createCondition_def copy_tmp_def)
  next
    case (Some t)
    show ?thesis
    proof (cases "getOperatorType t")
      case None
      with p(1) Some assms(4) show ?thesis by (simp add: createCondition_def copy_tmp_def)
    next
      case op: (Some op)
      note c = createCondition_def copy_tmp_def Let_def
      show ?thesis
      proof (cases "ds = []")
        case True
        then have "c_int (int (stackCount s')) = int (length cs)"
          using cstack.holds_cnt [OF p(2)] assms(3) by (simp add: c_int_id is_int_def)
        then show ?thesis
          using inner_condition_ok [of s' cs op] p True Some op assms(2,4) by (auto simp: c)
      next
        case False
        then show ?thesis using leaf_condition_ok [OF p(2) assms(2) p(3), of op] p(1) Some op assms(4) by (auto simp: c)
      qed
    qed
  qed
qed

lemma strtok_r_length:
  "fst (strtok_r delim s) = Some t \<Longrightarrow> length t + length (snd (strtok_r delim s)) \<le> length s"
proof -
  assume a: "fst (strtok_r delim s) = Some t"
  define s' where "s' = dropWhile (\<lambda>c. c \<in> set delim) s"
  have "length t + length (snd (strtok_r delim s)) \<le> length (takeWhile (\<lambda>c. c \<notin> set delim) s' @ dropWhile (\<lambda>c. c \<notin> set delim) s')"
    using a unfolding length_append by (auto simp: strtok_r_def s'_def Let_def split: if_splits)
  also have "\<dots> = length s'" by (simp only: takeWhile_dropWhile_id)
  also have "\<dots> \<le> length s" by (simp add: s'_def length_dropWhile_le)
  finally show ?thesis .
qed

definition parsed :: "item stack option res \<Rightarrow> bool" where
  "parsed r \<longleftrightarrow> r \<in> {Inl ServerPanic, Inl NullDeref, Inr None} \<or> (\<exists>s cs. r = Inr (Some s) \<and> sok s (conds cs) \<and> list_all cond_ok cs)"

lemma push_conditions_ok:
  "sok s (conds cs) \<Longrightarrow> list_all cond_ok cs \<Longrightarrow> length cs + length save \<le> n \<Longrightarrow> int n < INT_MAX \<Longrightarrow>
   (\<forall>t. token = Some t \<longrightarrow> length t < MAX_TMPBUF_SIZE) \<Longrightarrow> length save < MAX_TMPBUF_SIZE \<Longrightarrow>
   parsed (push_conditions token save s)"
proof (induction token save s arbitrary: cs rule: push_conditions.induct)
  case (1 token save s)
  show ?case
  proof (cases token)
    case None
    then show ?thesis using 1(2,3) by (auto simp: push_conditions.simps parsed_def)
  next
    case (Some t)
    have "created cs (createCondition t s)"
      using createCondition_ok [OF 1(2,3)] 1(4-6) Some by auto
    then consider "createCondition t s \<in> {Inl ServerPanic, Inl NullDeref}" | s' where "createCondition t s = Inr (None, s')"
      | c s' cs' where "createCondition t s = Inr (Some c, s')" "cond_ok c" "sok s' (conds cs')" "list_all cond_ok cs'"
        "length cs' \<le> length cs"
      unfolding created_def by blast
    then show ?thesis
    proof cases
      case (3 c s' cs')
      obtain s1 where s1: "stackPush s' (Some (ItemCond c)) = Inr (True, s1)" "sok s1 (conds (cs' @ [c]))"
        using cstack.holds_push [OF 3(3), of "Some (ItemCond c)"] by auto
      let ?u = "strtok_r '':'' save"
      have step: "push_conditions token save s = push_conditions (fst ?u) (snd ?u) s1"
        using 3(1) s1(1) Some by (simp add: push_conditions.simps [of "Some t"])
      show ?thesis
      proof (cases "save = []")
        case True
        then have "fst ?u = None" by (simp add: strtok_r_def)
        then show ?thesis using s1(2) 3(2,4) unfolding step push_conditions.simps [of "fst ?u"] by (auto simp: parsed_def simp del: map_append)
      next
        case False
        have "parsed (push_conditions (fst ?u) (snd ?u) s1)"
        proof (rule 1(1) [OF Some 3(1) refl refl s1(1) refl s1(2)])
          show "list_all cond_ok (cs' @ [c])" using 3(2,4) by simp
          show "length (cs' @ [c]) + length (snd ?u) \<le> n" using 3(5) 1(4) strtok_r_rest [OF False, of "'':''"] by simp
          show "\<forall>t. fst ?u = Some t \<longrightarrow> length t < MAX_TMPBUF_SIZE" using strtok_r_length [of "'':''" save] 1(7) by fastforce
          show "length (snd ?u) < MAX_TMPBUF_SIZE" using strtok_r_rest_le [of "'':''" save] 1(7) by simp
        qed (rule 1(5))
        then show ?thesis unfolding step .
      qed
    qed (auto simp: push_conditions.simps Some parsed_def)
  qed
qed

lemma cstr_length: "length (cstr s) \<le> length s"
  by (simp add: cstr_def length_takeWhile_le)

lemma parseStatement_cases:
  assumes "length raw < MAX_TMPBUF_SIZE"
  shows "parseStatement raw \<in> {Inl ServerPanic, Inl NullDeref, Inr None} \<or> (\<exists>c. parseStatement raw = Inr (Some c) \<and> cond_ok c)"
proof -
  let ?t = "strtok_r '':'' (cstr raw)"
  have "parsed (push_conditions (fst ?t) (snd ?t) stackInit)"
  proof (rule push_conditions_ok [of _ "[]"])
    show "sok stackInit (conds [])" using cstack.holds_emp by simp
    show "length [] + length (snd ?t) \<le> 200"
      using strtok_r_rest_le [of "'':''" "cstr raw"] cstr_length [of raw] assms by simp
    show "length (snd ?t) < MAX_TMPBUF_SIZE"
      using strtok_r_rest_le [of "'':''" "cstr raw"] cstr_length [of raw] assms by simp
    show "\<forall>t. fst ?t = Some t \<longrightarrow> length t < MAX_TMPBUF_SIZE"
      using strtok_r_length [of "'':''" "cstr raw"] cstr_length [of raw] assms by fastforce
  qed simp_all
  then show ?thesis
  proof (cases "push_conditions (fst ?t) (snd ?t) stackInit")
    case (Inr r)
    show ?thesis
    proof (cases r)
      case None
      then show ?thesis using Inr assms by (simp add: parseStatement_def copy_tmp_def)
    next
      case (Some s)
      obtain cs where cs: "sok s (conds cs)" "list_all cond_ok cs"
        using \<open>parsed _\<close> Inr Some by (auto simp: parsed_def)
      show ?thesis
      proof (cases "length cs = 1")
        case True
        then obtain c where c: "cs = [c]" by (cases cs) auto
        obtain s' where "stackPop s = Inr (Some (ItemCond c), s')"
          using cstack.pop_snoc [of s "[]" "Some (ItemCond c)"] cs(1) c by auto
        then show ?thesis using Inr Some cs c assms cstack.holds_cnt [OF cs(1)] by (simp add: parseStatement_def copy_tmp_def)
      next
        case False
        then show ?thesis using Inr Some assms cstack.holds_cnt [OF cs(1)] by (simp add: parseStatement_def copy_tmp_def)
      qed
    qed
  qed (use assms in \<open>auto simp: parseStatement_def copy_tmp_def parsed_def\<close>)
qed

end
