(* ===== verification/FilterSem.thy ===== *)
theory FilterSem
  imports PartFilter "HOL-Library.Sublist"
begin

text \<open>
  What partition filters mean (\<open>PartFilter\<close>). A well-typed condition is evaluated without a fault
  other than a read past the end of a glob pattern or text, and on plain texts the evaluation
  decides a declarative meaning; a statement printed from a condition parses to that condition; and
  \<open>METAKEYS\<close> selects the partitions that satisfy all statements.
\<close>

section \<open>Well-typed conditions are evaluated\<close>

text \<open>A result whose only possible fault is a read outside a text.\<close>

definition reads :: "'a res \<Rightarrow> bool" where
  "reads r \<longleftrightarrow> (\<forall>e. r = Inl e \<longrightarrow> e = OutOfBounds)"

lemma reads_simps [simp]: "reads (Inr x)" "reads (Inl OutOfBounds)"
  by (simp_all add: reads_def)

lemma reads_bindr: "reads m \<Longrightarrow> (\<And>x. m = Inr x \<Longrightarrow> reads (f x)) \<Longrightarrow> reads (bindr m f)"
  by (cases m) (auto simp: reads_def)

lemma reads_If: "(b \<Longrightarrow> reads x) \<Longrightarrow> (\<not> b \<Longrightarrow> reads y) \<Longrightarrow> reads (if b then x else y)"
  by simp

lemma reads_gread [simp]: "reads (gread s)" "reads (gadv s)"
  by (auto simp: gread_def gadv_def split: option.splits list.splits)

lemma reads_glob_class: "reads (glob_class nocase p s m)"
  by (induction nocase p s m rule: glob_class.induct) (auto intro!: reads_bindr split: list.splits)

lemma reads_glob_item: "reads (glob_item nocase c p s)"
  by (auto simp: glob_item_def glob_literal_def Let_def intro!: reads_bindr reads_glob_class reads_If)

lemma reads_smatch: "reads (smatch nocase p s)" "reads (star_loop nocase p s)"
proof (induction nocase p s and nocase p s rule: smatch_star_loop.induct)
  case (2 nocase c p s)
  then show ?case
    by (auto simp: smatch.simps Let_def intro!: reads_bindr reads_glob_item split: option.splits)
next
  case (3 nocase p s)
  then show ?case by (subst star_loop.simps) (auto intro!: reads_bindr)
qed simp

lemma compare_longs_ok:
  "op \<in> leaf_ops \<Longrightarrow> getOperatorOperandCount op = 2 \<Longrightarrow> \<exists>b. compare_longs op p r = Inr b"
  by (auto simp: compare_longs_def leaf_ops_def like_ops_def getOperatorOperandCount_def)

lemma compare_texts_reads: "reads (compare_texts op p r)"
  by (auto simp: compare_texts_def like_ops_def convertLikeStatementToGlobPattern_def stringmatch_def stringmatchlen_def reads_smatch)

lemma leaf_column_reads:
  assumes "op \<in> leaf_ops" and "getOperatorOperandCount op = 2 \<or> second = None"
  shows "reads (leaf_column op first second param)"
proof -
  have "reads (compare_longs op p r)" if "getOperatorOperandCount op = 2" for p r
    using compare_longs_ok [OF assms(1) that, of p r] by auto
  then show ?thesis
    using assms(2) compare_texts_reads
    by (auto simp: leaf_column_def intro!: reads_bindr split: option.splits child.splits partition_value.splits)
qed

lemma leaf_columns_reads:
  assumes "vok v (map Some ps)" and "\<And>param. reads (leaf_column op first second param)"
  shows "\<forall>i \<in> set is. i < length ps \<Longrightarrow> reads (leaf_columns op first second v is)"
proof (induction "is")
  case (Cons i "is")
  then have "vectorGet v i = Inr (Some (ps ! i))" using vok_get [OF assms(1)] by simp
  with Cons assms(2) show ?case by (auto intro!: reads_bindr split: option.splits)
qed simp

lemma evaluate_condition_reads:
  "cond_ok c \<Longrightarrow> vok v (map Some ps) \<Longrightarrow> reads (evaluate_condition c v)"
proof (induction rule: cond_ok_induct)
  case (Leaf op col second)
  then have "getOperatorOperandCount op = 2 \<or> second = None" by (auto split: option.splits)
  then show ?case
    using leaf_columns_reads [OF Leaf(2) leaf_column_reads [of op second "Some (ChildLong col)"], of "[0..<length ps]"] vok_count [OF Leaf(2)]
    by (auto simp: evaluateLeafOperator_def vectorCount_def)
qed (auto simp: evaluateNonleafOperator.simps intro!: reads_bindr)

text \<open>
  Releasing a condition: every node is released once, and no text, because the test for the second
  child reads the tag of the first, which is a column id.
\<close>

fun nodes :: "condition \<Rightarrow> nat" where
  "nodes (Condition op n leaf first second) =
     1 + (case first of Some (ChildCond c) \<Rightarrow> nodes c | _ \<Rightarrow> 0) + (case second of Some (ChildCond c) \<Rightarrow> nodes c | _ \<Rightarrow> 0)"

lemma freeConditions_ok:
  "cond_ok c \<Longrightarrow> \<exists>fs. freeConditions c = Inr fs \<and> (\<forall>t. FreeSds t \<notin> set fs) \<and> length (filter ((=) FreeCondition) fs) = nodes c"
proof (induction rule: cond_ok_induct)
  case (Leaf op col second)
  then show ?case by (auto simp: then_free_def split: option.splits child.splits)
qed (auto simp: then_free_def)

section \<open>The meaning of a condition\<close>

subsection \<open>Patterns without special characters\<close>

definition plain_glob :: "string \<Rightarrow> bool" where
  "plain_glob r \<longleftrightarrow> (\<forall>c \<in> set r. c \<notin> {CHR ''*'', CHR ''?'', CHR ''['', CHR 0x5C, NUL})"

lemma plain_glob_Cons [simp]:
  "plain_glob (c # r) \<longleftrightarrow> c \<notin> {CHR ''*'', CHR ''?'', CHR ''['', CHR 0x5C, NUL} \<and> plain_glob r" "plain_glob []"
  by (auto simp: plain_glob_def)

lemma gparse_plain:
  "plain_glob r \<Longrightarrow> gparse (r @ q) = map_option ((@) (map GChar r)) (gparse q)"
proof (induction r)
  case Nil
  then show ?case by (cases "gparse q") auto
next
  case (Cons c r)
  then show ?case by (cases "gparse q") (auto simp: gparse.simps)
qed

lemma glang_chars: "glang False (map GChar r @ ts) s \<longleftrightarrow> (\<exists>s'. s = r @ s' \<and> glang False ts s')"
proof (induction r arbitrary: s)
  case (Cons c r)
  then show ?case by (cases s) (auto simp: char_eq_def)
qed simp

lemma glang_star: "glang False (GStar # ts) s \<longleftrightarrow> (\<exists>p q. s = p @ q \<and> glang False ts q)"
  by (metis (no_types, opaque_lifting) append_eq_conv_conj append_take_drop_id glang.simps(2) le_add1 length_append)

lemma gsafe_chars: "plain_glob r \<Longrightarrow> gsafe False (map GChar r @ ts) \<longleftrightarrow> gsafe False ts"
  by (induction r) (auto simp: char_eq_def)

lemma gsafe_star [simp]: "gsafe False (GStar # ts) \<longleftrightarrow> gsafe False ts"
  by simp

lemma smatch_tokens:
  assumes "gparse p = Some ts" and "gsafe False ts"
  shows "smatch False p (Some s) = Inr (glang False ts s)"
  using smatch_glang(1) [OF refl assms] .

text \<open>The three kinds of \<open>LIKE\<close>.\<close>

definition like_holds :: "optype \<Rightarrow> string \<Rightarrow> string \<Rightarrow> bool" where
  "like_holds op text r \<longleftrightarrow>
     (if op = CONDITION_OP_TYPE_STRING_CONTAINS then sublist r text
      else if op = CONDITION_OP_TYPE_STRING_ENDS_WITH then suffix r text
      else prefix r text)"

lemma smatch_like:
  assumes "plain_glob r"
  shows "smatch False (CHR ''*'' # r @ ''*'') (Some s) = Inr (sublist r s)"
    and "smatch False (CHR ''*'' # r) (Some s) = Inr (suffix r s)"
    and "smatch False (r @ ''*'') (Some s) = Inr (prefix r s)"
proof -
  have g: "gparse ''*'' = Some [GStar]" "gparse r = Some (map GChar r)" "gparse (r @ ''*'') = Some (map GChar r @ [GStar])"
    using gparse_plain [OF assms, of "[]"] gparse_plain [OF assms, of "''*''"] by (simp_all add: gparse.simps)
  have s: "gsafe False (map GChar r)" "gsafe False (map GChar r @ [GStar])"
    using gsafe_chars [OF assms, of "[]"] gsafe_chars [OF assms, of "[GStar]"] by simp_all
  have c: "glang False (map GChar r) s \<longleftrightarrow> s = r" for s using glang_chars [of r "[]" s] by auto
  have d: "glang False (map GChar r @ [GStar]) s \<longleftrightarrow> prefix r s" for s
    using glang_chars [of r "[GStar]" s] by (auto simp: prefix_def)
  show "smatch False (r @ ''*'') (Some s) = Inr (prefix r s)" using smatch_tokens [OF g(3) s(2)] d by simp
  have "gparse (CHR ''*'' # r) = Some (GStar # map GChar r)" "gparse (CHR ''*'' # r @ ''*'') = Some (GStar # map GChar r @ [GStar])"
    using g by (simp_all add: gparse.simps)
  then have "smatch False (CHR ''*'' # r) (Some s) = Inr (glang False (GStar # map GChar r) s)"
    "smatch False (CHR ''*'' # r @ ''*'') (Some s) = Inr (glang False (GStar # map GChar r @ [GStar]) s)"
    using smatch_tokens s by simp_all
  then show "smatch False (CHR ''*'' # r @ ''*'') (Some s) = Inr (sublist r s)"
    "smatch False (CHR ''*'' # r) (Some s) = Inr (suffix r s)"
    unfolding glang_star c d by (auto simp: sublist_def suffix_def prefix_def)
qed

lemma memcmp_eq: "length s = length t \<Longrightarrow> memcmp s t = 0 \<longleftrightarrow> s = t"
  by (induction s t rule: memcmp.induct) auto

lemma sdscmp_eq:
  assumes "int (length s) \<le> INT_MAX" and "int (length t) \<le> INT_MAX"
  shows "sdscmp s t = 0 \<longleftrightarrow> s = t"
proof -
  let ?m = "min (length s) (length t)"
  have c: "c_int (int (length s) - int (length t)) = int (length s) - int (length t)"
    using assms by (simp add: c_int_id is_int_def)
  have "memcmp (take ?m s) (take ?m t) = 0 \<longleftrightarrow> take ?m s = take ?m t" by (rule memcmp_eq) simp
  then show ?thesis using c by (auto simp: sdscmp_def Let_def min_def split: if_splits)
qed

lemma compare_texts_holds:
  assumes "op \<in> like_ops \<longrightarrow> plain_glob r" and "NUL \<notin> set p" and "int (length r) \<le> INT_MAX" and "int (length p) \<le> INT_MAX"
  shows "compare_texts op p r = Inr (if op = CONDITION_OP_TYPE_EQ then p = r else op \<in> like_ops \<and> like_holds op p r)"
proof (cases "op \<in> like_ops")
  case True
  then have r: "plain_glob r" using assms(1) by simp
  then have "NUL \<notin> set r" by (auto simp: plain_glob_def)
  then have "cstr (CHR ''*'' # r) = CHR ''*'' # r" "cstr (r @ ''*'') = r @ ''*''" "cstr (CHR ''*'' # r @ ''*'') = CHR ''*'' # r @ ''*''"
    "cstr p = p" using assms(2) by (auto intro!: cstr_id)
  then show ?thesis using True smatch_like [OF r, of p]
    by (auto simp: compare_texts_def like_ops_def convertLikeStatementToGlobPattern_def stringmatch_def stringmatchlen_def like_holds_def)
next
  case False
  then show ?thesis using sdscmp_eq [OF assms(3,4)] by (auto simp: compare_texts_def)
qed

subsection \<open>Leaves\<close>

text \<open>
  A leaf is decided by the first column of the partition with its id and, for two operands, with a
  value of the kind of its operand. Without such a column it holds.
\<close>

fun value_holds :: "optype \<Rightarrow> partition_value \<Rightarrow> child \<Rightarrow> bool" where
  "value_holds op (PartitionLong p) (ChildLong r) \<longleftrightarrow>
     (case op of
        CONDITION_OP_TYPE_EQ \<Rightarrow> p = r
      | CONDITION_OP_TYPE_LT \<Rightarrow> p < r
      | CONDITION_OP_TYPE_LTE \<Rightarrow> p \<le> r
      | CONDITION_OP_TYPE_GT \<Rightarrow> p > r
      | CONDITION_OP_TYPE_GTE \<Rightarrow> p \<ge> r
      | _ \<Rightarrow> False)"
| "value_holds op (PartitionSds p) (ChildSds r) \<longleftrightarrow>
     (if op = CONDITION_OP_TYPE_EQ then p = r else op \<in> like_ops \<and> like_holds op p r)"
| "value_holds op _ _ \<longleftrightarrow> False"

fun same_kind :: "partition_value \<Rightarrow> child \<Rightarrow> bool" where
  "same_kind (PartitionLong _) (ChildLong _) \<longleftrightarrow> True"
| "same_kind (PartitionSds _) (ChildSds _) \<longleftrightarrow> True"
| "same_kind _ _ \<longleftrightarrow> False"

definition decides :: "int \<Rightarrow> child option \<Rightarrow> partition_parameter \<Rightarrow> bool" where
  "decides col second p \<longleftrightarrow> columnId p = col \<and> (case second of None \<Rightarrow> True | Some d \<Rightarrow> same_kind (pvalue p) d)"

definition leaf_holds :: "optype \<Rightarrow> int \<Rightarrow> child option \<Rightarrow> partition_parameter list \<Rightarrow> bool" where
  "leaf_holds op col second ps \<longleftrightarrow>
     op \<in> leaf_ops \<and>
     (case find (decides col second) ps of
        None \<Rightarrow> True
      | Some p \<Rightarrow> (case second of None \<Rightarrow> op = CONDITION_OP_TYPE_IS_NOT_NULL | Some d \<Rightarrow> value_holds op (pvalue p) d))"

text \<open>Texts as the commands deliver them: short, without NUL, and plain where they are a pattern.\<close>

fun text_ok :: "partition_value \<Rightarrow> bool" where
  "text_ok (PartitionSds t) \<longleftrightarrow> NUL \<notin> set t \<and> int (length t) \<le> INT_MAX"
| "text_ok (PartitionLong _) \<longleftrightarrow> True"

fun operand_ok :: "optype \<Rightarrow> child option \<Rightarrow> bool" where
  "operand_ok op (Some (ChildSds t)) \<longleftrightarrow> int (length t) \<le> INT_MAX \<and> (op \<in> like_ops \<longrightarrow> plain_glob t)"
| "operand_ok op _ \<longleftrightarrow> True"

lemma leaf_ops_split:
  "op \<in> leaf_ops \<Longrightarrow> getOperatorOperandCount op = 2 \<Longrightarrow>
   op \<in> {CONDITION_OP_TYPE_EQ, CONDITION_OP_TYPE_LT, CONDITION_OP_TYPE_LTE, CONDITION_OP_TYPE_GT, CONDITION_OP_TYPE_GTE} \<union> like_ops"
  "op \<in> leaf_ops \<Longrightarrow> getOperatorOperandCount op = 1 \<Longrightarrow> op \<in> {CONDITION_OP_TYPE_IS_NULL, CONDITION_OP_TYPE_IS_NOT_NULL}"
  by (auto simp: leaf_ops_def getOperatorOperandCount_def like_ops_def split: if_splits)

lemma compare_longs_holds:
  assumes "op \<in> leaf_ops" and "getOperatorOperandCount op = 2"
  shows "compare_longs op p r = Inr (value_holds op (PartitionLong p) (ChildLong r))"
  using leaf_ops_split(1) [OF assms] by (auto simp: compare_longs_def like_ops_def)

lemma leaf_column_two:
  assumes "op \<in> leaf_ops" and "getOperatorOperandCount op = 2" and "is_value d" and "operand_ok op (Some d)" and "text_ok (pvalue p)"
  shows "leaf_column op (Some (ChildLong col)) (Some d) p =
    Inr (if decides col (Some d) p then Some (value_holds op (pvalue p) d) else None)"
proof -
  have "op \<noteq> CONDITION_OP_TYPE_IS_NULL" "op \<noteq> CONDITION_OP_TYPE_IS_NOT_NULL"
    using assms(2) by (auto simp: getOperatorOperandCount_def)
  then show ?thesis
    using assms(3-5) compare_longs_holds [OF assms(1,2)] compare_texts_holds [of op]
    by (cases d; cases "pvalue p") (auto simp: leaf_column_def decides_def)
qed

lemma leaf_column_one:
  assumes "op \<in> leaf_ops" and "getOperatorOperandCount op = 1"
  shows "leaf_column op (Some (ChildLong col)) None p =
    Inr (if decides col None p then Some (op = CONDITION_OP_TYPE_IS_NOT_NULL) else None)"
  using leaf_ops_split(2) [OF assms] by (auto simp: leaf_column_def decides_def)

lemma leaf_columns_find:
  assumes "vok v (map Some ps)"
    and "\<And>p. p \<in> set ps \<Longrightarrow> leaf_column op first second p = Inr (if D p then Some (H p) else None)"
  shows "k \<le> length ps \<Longrightarrow> leaf_columns op first second v [k..<length ps] =
    Inr (case find D (drop k ps) of None \<Rightarrow> True | Some p \<Rightarrow> H p)"
proof (induction "length ps - k" arbitrary: k)
  case 0
  then show ?case by simp
next
  case (Suc n)
  then have k: "k < length ps" by simp
  then have "[k..<length ps] = k # [Suc k..<length ps]" "drop k ps = ps ! k # drop (Suc k) ps"
    by (simp_all add: upt_conv_Cons Cons_nth_drop_Suc)
  moreover have "vectorGet v k = Inr (Some (ps ! k))" using vok_get [OF assms(1)] k by simp
  moreover have "leaf_column op first second (ps ! k) = Inr (if D (ps ! k) then Some (H (ps ! k)) else None)"
    using assms(2) k by simp
  ultimately show ?case using Suc.hyps(1) [of "Suc k"] Suc.hyps(2) k by simp
qed

lemma evaluateLeaf_holds:
  assumes "vok v (map Some ps)" and "list_all (\<lambda>p. text_ok (pvalue p)) ps" and "operand_ok op second"
    and "case second of None \<Rightarrow> getOperatorOperandCount op = 1 | Some d \<Rightarrow> getOperatorOperandCount op = 2 \<and> is_value d"
  shows "evaluateLeafOperator op (Some (ChildLong col)) second v = Inr (leaf_holds op col second ps)"
proof (cases "op \<in> leaf_ops")
  case True
  show ?thesis
  proof (cases second)
    case None
    then show ?thesis
      using leaf_columns_find [OF assms(1), of op "Some (ChildLong col)" None "decides col None"
          "\<lambda>_. op = CONDITION_OP_TYPE_IS_NOT_NULL" 0] leaf_column_one [OF True] assms(4) True vok_count [OF assms(1)]
      by (simp add: evaluateLeafOperator_def vectorCount_def leaf_holds_def split: option.splits)
  next
    case (Some d)
    have "leaf_column op (Some (ChildLong col)) (Some d) p =
        Inr (if decides col (Some d) p then Some (value_holds op (pvalue p) d) else None)" if "p \<in> set ps" for p
      using leaf_column_two [OF True] assms(2-4) Some that by (simp add: list_all_iff)
    from leaf_columns_find [OF assms(1) this, of 0] Some True vok_count [OF assms(1)] show ?thesis
      by (simp add: evaluateLeafOperator_def vectorCount_def leaf_holds_def split: option.splits)
  qed
qed (simp add: evaluateLeafOperator_def leaf_holds_def)

subsection \<open>Conditions\<close>

fun sat :: "condition \<Rightarrow> partition_parameter list \<Rightarrow> bool" where
  "sat (Condition op n leaf first second) ps \<longleftrightarrow>
     (case first of
        Some (ChildLong col) \<Rightarrow> leaf_holds op col second ps
      | Some (ChildCond c) \<Rightarrow>
          (case second of
             None \<Rightarrow> op = CONDITION_OP_TYPE_NOT \<and> \<not> sat c ps
           | Some (ChildCond d) \<Rightarrow>
               op = CONDITION_OP_TYPE_AND \<and> sat c ps \<and> sat d ps \<or> op = CONDITION_OP_TYPE_OR \<and> (sat c ps \<or> sat d ps)
           | _ \<Rightarrow> False)
      | _ \<Rightarrow> False)"

fun plain_cond :: "condition \<Rightarrow> bool" where
  "plain_cond (Condition op n leaf first second) \<longleftrightarrow>
     operand_ok op second \<and> (case first of Some (ChildCond c) \<Rightarrow> plain_cond c | _ \<Rightarrow> True) \<and>
     (case second of Some (ChildCond d) \<Rightarrow> plain_cond d | _ \<Rightarrow> True)"

lemma evaluate_sat:
  "cond_ok c \<Longrightarrow> plain_cond c \<Longrightarrow> vok v (map Some ps) \<Longrightarrow> list_all (\<lambda>p. text_ok (pvalue p)) ps \<Longrightarrow>
   evaluate_condition c v = Inr (sat c ps)"
proof (induction rule: cond_ok_induct)
  case (Leaf op col second)
  then show ?case using evaluateLeaf_holds [OF Leaf(3,4) _ Leaf(1)] by simp
next
  case (One op c)
  then show ?case by (simp add: evaluateNonleafOperator.simps)
next
  case (Two op c d)
  then have "op \<noteq> CONDITION_OP_TYPE_NOT" by (auto simp: getOperatorOperandCount_def)
  with Two show ?case by (auto simp: evaluateNonleafOperator.simps)
qed

section \<open>The columns of a partition\<close>

text \<open>The partition text names its columns and their values in turn.\<close>

definition columns_text :: "(int \<times> string) list \<Rightarrow> string" where
  "columns_text cvs = join '':'' (concat (map (\<lambda>(c, v). [print_int c, v]) cvs))"

definition column_param :: "int \<times> string \<Rightarrow> partition_parameter" where
  "column_param cv = \<lparr>columnId = fst cv,
     pvalue = (case token_long (snd cv) of Some l \<Rightarrow> PartitionLong l | None \<Rightarrow> PartitionSds (snd cv))\<rparr>"

definition column_ok :: "int \<times> string \<Rightarrow> bool" where
  "column_ok cv \<longleftrightarrow> is_int (fst cv) \<and> snd cv \<noteq> [] \<and> (\<forall>c \<in> set (snd cv). c \<notin> {CHR '':'', CHR ''}'', NUL})"

lemma columns_text_simps:
  "columns_text [] = []"
  "columns_text ((c, v) # cvs) = print_int c @ '':'' @ v @ (if cvs = [] then [] else '':'' @ columns_text cvs)"
  by (cases cvs; auto simp: columns_text_def join_Cons)+

lemma columns_text_Nil [simp]: "columns_text cvs = [] \<longleftrightarrow> cvs = []"
  by (cases cvs) (auto simp: columns_text_simps)

lemma strtok_columns:
  assumes "column_ok (c, v)"
  shows "strtok_r '':'' (columns_text ((c, v) # cvs)) = (Some (print_int c), v @ (if cvs = [] then [] else '':'' @ columns_text cvs))"
    and "strtok_r '':'' (v @ (if cvs = [] then [] else '':'' @ columns_text cvs)) = (Some v, columns_text cvs)"
proof -
  have "\<forall>x \<in> set (print_int c). x \<notin> set '':''" using print_int_excludes(1) by auto
  then show "strtok_r '':'' (columns_text ((c, v) # cvs)) = (Some (print_int c), v @ (if cvs = [] then [] else '':'' @ columns_text cvs))"
    using strtok_r_token [of "print_int c" "'':''" "[]" "CHR '':''"] by (simp add: columns_text_simps)
  have v: "v \<noteq> []" "\<forall>x \<in> set v. x \<notin> set '':''" using assms by (auto simp: column_ok_def)
  show "strtok_r '':'' (v @ (if cvs = [] then [] else '':'' @ columns_text cvs)) = (Some v, columns_text cvs)"
    using strtok_r_token [OF v, of "[]" "CHR '':''" "columns_text cvs"] strtok_r_last [OF v, of "[]"]
    by (simp add: columns_text_simps)
qed

lemma add_partitions_columns:
  "list_all column_ok cvs \<Longrightarrow> vok w ps \<Longrightarrow>
   \<exists>w'. add_partitions (fst (strtok_r '':'' (columns_text cvs))) (snd (strtok_r '':'' (columns_text cvs))) w = Inr (True, w') \<and>
     vok w' (ps @ map (\<lambda>cv. Some (column_param cv)) cvs)"
proof (induction cvs arbitrary: w ps)
  case Nil
  then show ?case by (simp add: columns_text_simps strtok_r_def add_partitions.simps)
next
  case (Cons cv cvs)
  obtain c v where cv: "cv = (c, v)" by (cases cv)
  have ok: "column_ok (c, v)" using Cons.prems(1) cv by simp
  let ?save = "v @ (if cvs = [] then [] else '':'' @ columns_text cvs)"
  have at: "atoi (print_int c) = c" using ok by (simp add: column_ok_def)
  have e: "\<lparr>columnId = c, pvalue = (case token_long v of Some l \<Rightarrow> PartitionLong l | None \<Rightarrow> PartitionSds v)\<rparr> = column_param (c, v)"
    by (simp add: column_param_def split: option.splits)
  have ne: "v \<noteq> []" using ok by (simp add: column_ok_def)
  obtain w1 where w1: "vectorAdd w (Some (column_param (c, v))) = Inr (True, w1)" "vok w1 (ps @ [Some (column_param (c, v))])"
    using vok_add [OF Cons.prems(2)] by blast
  obtain w' where "add_partitions (fst (strtok_r '':'' (columns_text cvs))) (snd (strtok_r '':'' (columns_text cvs))) w1 = Inr (True, w')"
    "vok w' ((ps @ [Some (column_param (c, v))]) @ map (\<lambda>cv. Some (column_param cv)) cvs)"
    using Cons.IH [OF _ w1(2)] Cons.prems(1) by auto
  then show ?case
    unfolding cv strtok_columns(1) [OF ok] fst_conv snd_conv add_partitions.simps [of _ ?save]
    using w1(1) ne at strtok_columns(2) [OF ok, of cvs] by (simp add: e)
qed

lemma parsePartitions_columns:
  assumes "list_all column_ok cvs" and "length (columns_text cvs) + 1 < MAX_TMPBUF_SIZE"
  shows "\<exists>w. parsePartitions (columns_text cvs) vectorInit = Inr (True, w) \<and> vok w (map Some (map column_param cvs))"
proof -
  have "vok vectorInit []" by (simp add: vok_def vectorInit_def)
  from add_partitions_columns [OF assms(1) this] assms(2) show ?thesis by (auto simp: parsePartitions_def comp_def)
qed

text \<open>A meta key of a partition with columns.\<close>

definition partition_ok :: "int \<times> (int \<times> string) list \<Rightarrow> bool" where
  "partition_ok p \<longleftrightarrow> is_int (fst p) \<and> snd p \<noteq> [] \<and> list_all column_ok (snd p) \<and>
     length (meta_key_text (fst p) (columns_text (snd p))) + 1 < MAX_TMPBUF_SIZE"

definition partition_key :: "int \<times> (int \<times> string) list \<Rightarrow> string" where
  "partition_key p = meta_key_text (fst p) (columns_text (snd p))"

lemma columns_text_chars:
  "x \<in> set (columns_text cvs) \<Longrightarrow> is_digit x \<or> x = CHR ''-'' \<or> x = CHR '':'' \<or> (\<exists>cv \<in> set cvs. x \<in> set (snd cv))"
proof (induction cvs)
  case (Cons cv cvs)
  then show ?case using print_int_chars [of x] by (cases cv) (auto simp: columns_text_simps split: if_splits)
qed (simp add: columns_text_simps)

lemma columns_part_ok: "list_all column_ok cvs \<Longrightarrow> cvs \<noteq> [] \<Longrightarrow> part_ok (columns_text cvs)"
proof -
  assume ok: "list_all column_ok cvs" and ne: "cvs \<noteq> []"
  have "CHR ''}'' \<notin> set (columns_text cvs) \<and> NUL \<notin> set (columns_text cvs)"
    using ok columns_text_chars [of "CHR ''}''" cvs] columns_text_chars [of NUL cvs]
    by (fastforce simp: list_all_iff column_ok_def is_digit_def)
  then show ?thesis using ne by (simp add: part_ok_def)
qed

lemma column_text_ok: "column_ok cv \<Longrightarrow> length (snd cv) < MAX_TMPBUF_SIZE \<Longrightarrow> text_ok (pvalue (column_param cv))"
  by (auto simp: column_param_def column_ok_def split: option.splits)

lemma columns_text_length: "cv \<in> set cvs \<Longrightarrow> length (snd cv) \<le> length (columns_text cvs)"
  by (induction cvs) (auto simp: columns_text_simps)

lemma evaluate_partition:
  assumes "partition_ok p" and "cond_ok c" and "plain_cond c"
  shows "evaluateCondition c (partition_key p) = Inr (sat c (map column_param (snd p)))"
proof -
  let ?t = "columns_text (snd p)"
  have p: "is_int (fst p)" "part_ok ?t" "length (meta_key_text (fst p) ?t) + 1 < MAX_TMPBUF_SIZE" "list_all column_ok (snd p)"
    using assms(1) columns_part_ok by (auto simp: partition_ok_def)
  then have l: "length ?t + 1 < MAX_TMPBUF_SIZE" by (simp add: meta_key_text_def)
  obtain w where w: "parsePartitions ?t vectorInit = Inr (True, w)" "vok w (map Some (map column_param (snd p)))"
    using parsePartitions_columns [OF p(4) l] by blast
  have "list_all (\<lambda>q. text_ok (pvalue q)) (map column_param (snd p))"
    using p(4) l columns_text_length [of _ "snd p"] column_text_ok by (fastforce simp: list_all_iff)
  from evaluate_sat [OF assms(2,3) w(2) this] show ?thesis
    using parse_meta_key [OF p(1-3)] w(1) by (simp add: evaluateCondition_def partition_key_def)
qed

section \<open>Statements and the conditions they print\<close>

fun value_text :: "child \<Rightarrow> string" where
  "value_text (ChildLong l) = print_int l"
| "value_text (ChildSds t) = t"
| "value_text (ChildCond _) = []"

text \<open>The tokens of a condition: the operands before the operator, the first one last.\<close>

fun cond_tokens :: "condition \<Rightarrow> string list" where
  "cond_tokens (Condition op n leaf first second) =
     (case first of
        Some (ChildLong col) \<Rightarrow>
          [(case second of None \<Rightarrow> [] | Some d \<Rightarrow> value_text d @ ''*'') @ print_int col @ ''*'' @ getOperatorStr op]
      | Some (ChildCond c) \<Rightarrow>
          (case second of Some (ChildCond d) \<Rightarrow> cond_tokens d | _ \<Rightarrow> []) @ cond_tokens c @ [getOperatorStr op]
      | _ \<Rightarrow> [])"

definition cond_text :: "condition \<Rightarrow> string" where
  "cond_text c = join '':'' (cond_tokens c)"

text \<open>The values that print to a text which reads as the value.\<close>

fun printable :: "child \<Rightarrow> bool" where
  "printable (ChildLong l) \<longleftrightarrow> is_long l"
| "printable (ChildSds t) \<longleftrightarrow> t \<noteq> [] \<and> (\<forall>c \<in> set t. c \<notin> {CHR ''*'', CHR '':'', NUL}) \<and> token_long t = None"
| "printable (ChildCond _) \<longleftrightarrow> False"

fun printable_cond :: "condition \<Rightarrow> bool" where
  "printable_cond (Condition op n leaf first second) \<longleftrightarrow>
     (case first of Some (ChildCond c) \<Rightarrow> printable_cond c | Some d \<Rightarrow> printable d | None \<Rightarrow> False) \<and>
     (case second of Some (ChildCond c) \<Rightarrow> printable_cond c | Some d \<Rightarrow> printable d | None \<Rightarrow> True)"

lemma date_pattern_dash: "date_pattern s \<Longrightarrow> length s = 10 \<and> s ! 4 = CHR ''-''"
  by (auto simp: date_pattern_def numeral_eq_Suc split: list.splits)

lemma print_int_not_date: "\<not> date_pattern (print_int l)"
proof
  assume d: "date_pattern (print_int l)"
  note date_pattern_dash [OF d]
  moreover have "is_digit (print_int l ! 4)" if "4 < length (print_int l)"
    using that print_nat_digits [of "nat l"] print_nat_digits [of "nat (- l)"] by (auto simp: print_int_def split: if_splits)
  ultimately show False using minus_not_space(2) by auto
qed

lemma token_long_print_int: "is_long l \<Longrightarrow> token_long (print_int l) = Some l"
proof -
  assume l: "is_long l"
  then have "string2ll (print_int l) = Some l" using string2ll_decimal by simp
  then show ?thesis using l print_int_not_date [of l] by (simp add: token_long_def dateStrToInteger_def string2l_def is_long_def)
qed

lemma operand_value_text: "printable d \<Longrightarrow> operand (value_text d) = d"
  by (cases d) (simp_all add: operand_def token_long_print_int)

lemma value_text_chars: "printable d \<Longrightarrow> value_text d \<noteq> [] \<and> (\<forall>c \<in> set (value_text d). c \<notin> {CHR ''*'', CHR '':'', NUL})"
  by (cases d) (auto dest!: print_int_chars simp: is_digit_def)

lemma operatorStr_chars: "getOperatorStr op \<noteq> [] \<and> (\<forall>c \<in> set (getOperatorStr op). c \<notin> {CHR ''*'', CHR '':'', NUL})"
  by (cases op) simp_all

lemma operatorType_Str [simp]: "getOperatorType (getOperatorStr op) = Some op"
  by (cases op) (simp_all add: getOperatorType_def)

lemma strtok_star:
  assumes "t \<noteq> [] \<and> (\<forall>c \<in> set t. c \<notin> {CHR ''*'', CHR '':'', NUL})"
  shows "strtok_r ''*'' (t @ CHR ''*'' # r) = (Some t, r)" and "strtok_r ''*'' t = (Some t, [])"
  using assms strtok_r_token [of t "''*''" "[]" "CHR ''*''" r] strtok_r_last [of t "''*''" "[]"] by auto

lemma createCondition_one:
  assumes "sok s xs" and "printable (ChildLong col)" and "getOperatorOperandCount op = 1"
    and "length (print_int col @ ''*'' @ getOperatorStr op) < MAX_TMPBUF_SIZE"
  shows "\<exists>s'. createCondition (print_int col @ ''*'' @ getOperatorStr op) s =
      Inr (Some (Condition op 1 True (Some (ChildLong col)) None), s') \<and> sok s' xs"
proof -
  obtain s1 where s1: "stackPush s (Some (ItemChild (ChildLong col))) = Inr (True, s1)" "sok s1 (xs @ [Some (ItemChild (ChildLong col))])"
    using cstack.holds_push [OF assms(1)] by blast
  obtain s' where s': "stackPop s1 = Inr (Some (ItemChild (ChildLong col)), s')" "sok s' xs" using cstack.pop_snoc [OF s1(2)] by blast
  note op = operand_value_text [OF assms(2)] value_text_chars [OF assms(2)]
  have "push_operands (Some (print_int col)) (getOperatorStr op) s 0 = Inr (Some (getOperatorStr op), s1, 1)"
    using operatorStr_chars [of op] strtok_star(2) [OF operatorStr_chars, of op] op(1) s1(1)
    by (simp add: push_operands.simps [of "Some (print_int col)"] push_operands.simps [of _ "[]"])
  then show ?thesis using assms(3,4) s' strtok_star(1) [of "print_int col" "getOperatorStr op"] op(2)
    by (simp add: createCondition_def copy_tmp_def leaf_condition_def)
qed

lemma createCondition_two:
  assumes "sok s xs" and "printable (ChildLong col)" and "printable d" and "getOperatorOperandCount op = 2"
    and "length (value_text d @ ''*'' @ print_int col @ ''*'' @ getOperatorStr op) < MAX_TMPBUF_SIZE"
  shows "\<exists>s'. createCondition (value_text d @ ''*'' @ print_int col @ ''*'' @ getOperatorStr op) s =
      Inr (Some (Condition op 2 True (Some (ChildLong col)) (Some d)), s') \<and> sok s' xs"
proof -
  let ?x = "Some (ItemChild d)" and ?y = "Some (ItemChild (ChildLong col))"
  obtain s1 where s1: "stackPush s ?x = Inr (True, s1)" "sok s1 (xs @ [?x])" using cstack.holds_push [OF assms(1)] by blast
  obtain s2 where s2: "stackPush s1 ?y = Inr (True, s2)" "sok s2 (xs @ [?x, ?y])" using cstack.holds_push [OF s1(2), of ?y] by auto
  obtain s3 s' where s': "stackPop s2 = Inr (?y, s3)" "stackPop s3 = Inr (?x, s')" "sok s' xs" using cstack.pop_two [OF s2(2)] by blast
  note c = operand_value_text [OF assms(2)] value_text_chars [OF assms(2)] and d = operand_value_text [OF assms(3)] value_text_chars [OF assms(3)]
  have "push_operands (Some (value_text d)) (print_int col @ ''*'' @ getOperatorStr op) s 0 = Inr (Some (getOperatorStr op), s2, 2)"
    using operatorStr_chars [of op] strtok_star(2) [OF operatorStr_chars, of op] strtok_star(1) [of "print_int col" "getOperatorStr op"]
      c d(1) s1(1) s2(1)
    by (simp add: push_operands.simps [of "Some (value_text d)"] push_operands.simps [of "Some (print_int col)"] push_operands.simps [of _ "[]"])
  then show ?thesis using assms(4,5) s' strtok_star(1) [of "value_text d" "print_int col @ ''*'' @ getOperatorStr op"] d(2)
    by (simp add: createCondition_def copy_tmp_def leaf_condition_def)
qed

lemma createCondition_inner:
  assumes "sok s (xs @ conds cs)" and "int (length cs) = getOperatorOperandCount op" and "int (length xs + length cs) \<le> INT_MAX"
    and "length (getOperatorStr op) < MAX_TMPBUF_SIZE"
  shows "\<exists>s'. createCondition (getOperatorStr op) s =
      Inr (Some (Condition op (getOperatorOperandCount op) False (Some (ChildCond (last cs)))
        (if length cs = 2 then Some (ChildCond (hd cs)) else None)), s') \<and> sok s' xs"
proof -
  have n: "c_int (int (stackCount s)) = int (length xs + length cs)"
    using cstack.holds_cnt [OF assms(1)] assms(3) by (simp add: c_int_id is_int_def)
  have p: "push_operands (Some (getOperatorStr op)) [] s 0 = Inr (Some (getOperatorStr op), s, 0)" by (simp add: push_operands.simps)
  have "\<exists>s'. inner_condition op (getOperatorOperandCount op) s =
      Inr (Some (Condition op (getOperatorOperandCount op) False (Some (ChildCond (last cs)))
        (if length cs = 2 then Some (ChildCond (hd cs)) else None)), s') \<and> sok s' xs"
  proof (cases "length cs = 2")
    case True
    then obtain d c where cs: "cs = [d, c]" using snoc2 by blast
    obtain s1 s' where "stackPop s = Inr (Some (ItemCond c), s1)" "stackPop s1 = Inr (Some (ItemCond d), s')" "sok s' xs"
      using cstack.pop_two [of s xs "Some (ItemCond d)" "Some (ItemCond c)"] assms(1) cs by auto
    then show ?thesis using assms(2) cs by (simp add: inner_condition_def)
  next
    case False
    then have "length cs = 1" using assms(2) operandCount_cases [of op] by linarith
    then obtain c where cs: "cs = [c]" by (cases cs) auto
    obtain s' where "stackPop s = Inr (Some (ItemCond c), s')" "sok s' xs"
      using cstack.pop_snoc [of s xs "Some (ItemCond c)"] assms(1) cs by auto
    then show ?thesis using assms(2) cs by (simp add: inner_condition_def)
  qed
  then show ?thesis using assms(2,4) n p strtok_star(2) [OF operatorStr_chars, of op]
    by (simp add: createCondition_def copy_tmp_def)
qed

text \<open>The loop of \<open>parseStatement\<close> over a list of tokens.\<close>

definition run_tokens :: "string list \<Rightarrow> item stack \<Rightarrow> item stack option res" where
  "run_tokens ts s = push_conditions (fst (strtok_r '':'' (join '':'' ts))) (snd (strtok_r '':'' (join '':'' ts))) s"

lemma run_tokens_Nil: "run_tokens [] s = Inr (Some s)"
  by (simp add: run_tokens_def strtok_r_def push_conditions.simps)

lemma run_tokens_Cons:
  assumes "t \<noteq> []" and "CHR '':'' \<notin> set t" and "createCondition t s = Inr (Some c, s1)" and "sok s1 xs"
  shows "\<exists>s'. sok s' (xs @ [Some (ItemCond c)]) \<and> run_tokens (t # ts) s = run_tokens ts s'"
proof -
  obtain s' where s': "stackPush s1 (Some (ItemCond c)) = Inr (True, s')" "sok s' (xs @ [Some (ItemCond c)])"
    using cstack.holds_push [OF assms(4)] by blast
  have "strtok_r '':'' (join '':'' (t # ts)) = (Some t, join '':'' ts)"
    using strtok_r_token [of t "'':''" "[]" "CHR '':''"] strtok_r_last [of t "'':''" "[]"] assms(1,2) by (auto simp: join_Cons)
  then have "run_tokens (t # ts) s = run_tokens ts s'"
    using assms(3) s'(1) by (simp add: run_tokens_def push_conditions.simps [of "Some t"])
  with s'(2) show ?thesis by blast
qed

lemma leaf_token_chars:
  assumes "printable (ChildLong col)" and "case second of None \<Rightarrow> True | Some d \<Rightarrow> printable d"
  shows "CHR '':'' \<notin> set ((case second of None \<Rightarrow> [] | Some d \<Rightarrow> value_text d @ ''*'') @ print_int col @ ''*'' @ getOperatorStr op)"
proof -
  have "CHR '':'' \<notin> set (getOperatorStr op)" using operatorStr_chars [of op] by blast
  moreover have "CHR '':'' \<notin> set (value_text d)" if "second = Some d" for d
    using value_text_chars [of d] assms(2) that by auto
  ultimately show ?thesis using print_int_excludes(1) by (auto split: option.splits)
qed

lemma nodes_pos: "0 < nodes c"
  by (cases c) simp

lemma run_cond:
  "cond_ok c \<Longrightarrow> printable_cond c \<Longrightarrow> list_all (\<lambda>t. length t < MAX_TMPBUF_SIZE) (cond_tokens c) \<Longrightarrow> sok s xs \<Longrightarrow>
   int (length xs + nodes c) \<le> INT_MAX \<Longrightarrow>
   \<exists>s'. sok s' (xs @ [Some (ItemCond c)]) \<and> run_tokens (cond_tokens c @ ts) s = run_tokens ts s'"
proof (induction arbitrary: s xs ts rule: cond_ok_induct)
  case (Leaf op col second)
  let ?c = "Condition op (getOperatorOperandCount op) True (Some (ChildLong col)) second"
  have p: "printable (ChildLong col)" "case second of None \<Rightarrow> True | Some d \<Rightarrow> printable d"
    using Leaf(1,2) by (auto split: option.splits child.splits)
  obtain t where t: "cond_tokens ?c = [t]" "t \<noteq> []" "CHR '':'' \<notin> set t"
    using leaf_token_chars [OF p, of op] by simp
  have "\<exists>s1. createCondition t s = Inr (Some ?c, s1) \<and> sok s1 xs"
    using createCondition_one [OF Leaf(4) p(1), of op] createCondition_two [OF Leaf(4) p(1), of _ op] p(2) Leaf(1,3) t(1)
    by (cases second) auto
  then show ?case using run_tokens_Cons [OF t(2,3)] unfolding t(1) by fastforce
next
  case (One op c)
  have k: "list_all (\<lambda>t. length t < MAX_TMPBUF_SIZE) (cond_tokens c)" "length (getOperatorStr op) < MAX_TMPBUF_SIZE"
    "printable_cond c" using One(4,5) by simp_all
  obtain s1 where s1: "sok s1 (xs @ conds [c])"
    "run_tokens (cond_tokens c @ getOperatorStr op # ts) s = run_tokens (getOperatorStr op # ts) s1"
    using One(3) [OF k(3,1) One(6)] One(7) by auto
  obtain s2 where "createCondition (getOperatorStr op) s1 = Inr (Some (Condition op 1 False (Some (ChildCond c)) None), s2)" "sok s2 xs"
    using createCondition_inner [OF s1(1), of op] k(2) One(1,7) nodes_pos [of c] by auto
  from run_tokens_Cons [OF _ _ this, of ts] operatorStr_chars [of op] s1(2) show ?case by auto
next
  case (Two op c d)
  have k: "list_all (\<lambda>t. length t < MAX_TMPBUF_SIZE) (cond_tokens c)" "list_all (\<lambda>t. length t < MAX_TMPBUF_SIZE) (cond_tokens d)"
    "length (getOperatorStr op) < MAX_TMPBUF_SIZE" "printable_cond c" "printable_cond d" using Two(6,7) by simp_all
  have l: "int (length xs + nodes d) \<le> INT_MAX" "int (length (xs @ conds [d]) + nodes c) \<le> INT_MAX" "int (length xs + 2) \<le> INT_MAX"
    using Two(9) nodes_pos [of c] nodes_pos [of d] by simp_all
  obtain s0 where s0: "sok s0 (xs @ conds [d])"
    "run_tokens (cond_tokens d @ cond_tokens c @ getOperatorStr op # ts) s = run_tokens (cond_tokens c @ getOperatorStr op # ts) s0"
    using Two.IH(2) [OF k(5,2) Two(8) l(1)] by auto
  obtain s1 where s1: "sok s1 (xs @ conds [d, c])"
    "run_tokens (cond_tokens c @ getOperatorStr op # ts) s0 = run_tokens (getOperatorStr op # ts) s1"
    using Two.IH(1) [OF k(4,1) s0(1) l(2)] by auto
  obtain s2 where "createCondition (getOperatorStr op) s1 =
      Inr (Some (Condition op 2 False (Some (ChildCond c)) (Some (ChildCond d))), s2)" "sok s2 xs"
    using createCondition_inner [OF s1(1), of op] k(3) l(3) Two(1) by auto
  from run_tokens_Cons [OF _ _ this, of ts] operatorStr_chars [of op] s0(2) s1(2) show ?case by auto
qed

lemma join_length_member: "t \<in> set ts \<Longrightarrow> length t \<le> length (join sep ts)"
  by (induction ts) (auto simp: join_Cons)

lemma nodes_tokens: "cond_ok c \<Longrightarrow> nodes c \<le> length (cond_tokens c)"
  by (induction rule: cond_ok_induct) (auto split: option.splits child.splits)

lemma operatorStr_not_Nil [simp]: "getOperatorStr op \<noteq> []" "[] \<noteq> getOperatorStr op"
  using operatorStr_chars [of op] by metis+

lemma tokens_not_Nil: "cond_ok c \<Longrightarrow> [] \<notin> set (cond_tokens c)"
  by (induction rule: cond_ok_induct) simp_all

lemma join_length: "[] \<notin> set ts \<Longrightarrow> length ts \<le> length (join '':'' ts)"
proof (induction ts)
  case (Cons t ts)
  then show ?case by (cases t) (auto simp: join_Cons)
qed simp

lemma cond_tokens_chars:
  "cond_ok c \<Longrightarrow> printable_cond c \<Longrightarrow> t \<in> set (cond_tokens c) \<Longrightarrow> NUL \<notin> set t"
proof (induction rule: cond_ok_induct)
  case (Leaf op col second)
  have "NUL \<notin> set (getOperatorStr op)" using operatorStr_chars [of op] by blast
  moreover have "NUL \<notin> set (value_text d)" if "second = Some d" for d
    using value_text_chars [of d] Leaf(1,2) that by (auto split: child.splits)
  ultimately show ?case using Leaf(3) print_int_excludes(5) by (auto split: option.splits)
next
  case (One op c)
  then show ?case using operatorStr_chars [of op] by auto
next
  case (Two op c d)
  then show ?case using operatorStr_chars [of op] by auto
qed

lemma parse_cond_text:
  assumes "cond_ok c" and "printable_cond c" and "length (cond_text c) < MAX_TMPBUF_SIZE"
  shows "parseStatement (cond_text c) = Inr (Some c)"
proof -
  have nul: "cstr (cond_text c) = cond_text c"
    using cond_tokens_chars [OF assms(1,2)] join_chars [of NUL "'':''" "cond_tokens c"] by (intro cstr_id) (auto simp: cond_text_def)
  have "list_all (\<lambda>t. length t < MAX_TMPBUF_SIZE) (cond_tokens c)"
    using join_length_member [of _ "cond_tokens c" "'':''"] assms(3) by (fastforce simp: list_all_iff cond_text_def)
  moreover have "nodes c < MAX_TMPBUF_SIZE"
    using nodes_tokens [OF assms(1)] join_length [OF tokens_not_Nil [OF assms(1)]] assms(3) by (simp add: cond_text_def)
  moreover have "sok stackInit ([] :: item option list)" by (rule cstack.holds_emp)
  ultimately obtain s where s: "sok s [Some (ItemCond c)]" "run_tokens (cond_tokens c) stackInit = run_tokens [] s"
    using run_cond [OF assms(1,2), of stackInit "[]" "[]"] by auto
  obtain s' where "stackPop s = Inr (Some (ItemCond c), s')" using cstack.pop_snoc [of s "[]" "Some (ItemCond c)"] s(1) by auto
  then show ?thesis
    using s(2) [unfolded run_tokens_Nil, unfolded run_tokens_def] assms(3) cstack.holds_cnt [OF s(1)] nul
    by (simp add: parseStatement_def copy_tmp_def cond_text_def)
qed

section \<open>METAKEYS\<close>

lemma add_matching_all:
  "vok v (map Some xs) \<Longrightarrow> \<exists>v'. add_matching True pattern ks v = Inr v' \<and> vok v' (map Some (xs @ ks))"
proof (induction ks arbitrary: v xs)
  case (Cons k ks)
  obtain w where w: "vectorAdd v (Some k) = Inr (True, w)" "vok w (map Some (xs @ [k]))" using vok_add [OF Cons.prems, of "Some k"] by auto
  from Cons.IH [OF w(2)] w(1) show ?case by auto
qed auto

lemma add_satisfying_filter:
  assumes "vok u (map Some ks)" and "\<And>k. k \<in> set ks \<Longrightarrow> evaluateCondition root k = Inr (P k)"
  shows "i \<le> length ks \<Longrightarrow> vok v (map Some xs) \<Longrightarrow>
    \<exists>v'. add_satisfying root u [i..<length ks] v = Inr v' \<and> vok v' (map Some (xs @ filter P (drop i ks)))"
proof (induction "length ks - i" arbitrary: i v xs)
  case 0
  then show ?case by auto
next
  case (Suc n)
  then have i: "i < length ks" by simp
  then have u: "[i..<length ks] = i # [Suc i..<length ks]" "drop i ks = ks ! i # drop (Suc i) ks"
    by (simp_all add: upt_conv_Cons Cons_nth_drop_Suc)
  have g: "vectorGet u i = Inr (Some (ks ! i))" "evaluateCondition root (ks ! i) = Inr (P (ks ! i))"
    using vok_get [OF assms(1)] assms(2) i by simp_all
  obtain w where w: "vectorAdd v (Some (ks ! i)) = Inr (True, w)" "vok w (map Some (xs @ [ks ! i]))"
    using vok_add [OF Suc.prems(2), of "Some (ks ! i)"] by auto
  show ?case
  proof (cases "P (ks ! i)")
    case True
    then show ?thesis using Suc.hyps(1) [of "Suc i" w "xs @ [ks ! i]"] Suc.hyps(2) i w g unfolding u by auto
  next
    case False
    then show ?thesis using Suc.hyps(1) [of "Suc i" v xs] Suc.hyps(2) Suc.prems(2) i g unfolding u by auto
  qed
qed

lemma reply_keys_all:
  assumes "vok v (map Some ks)"
  shows "i \<le> length ks \<Longrightarrow> reply_keys v [i..<length ks] = Inr (drop i ks)"
proof (induction "length ks - i" arbitrary: i)
  case (Suc n)
  then have i: "i < length ks" by simp
  then have u: "[i..<length ks] = i # [Suc i..<length ks]" "drop i ks = ks ! i # drop (Suc i) ks"
    by (simp_all add: upt_conv_Cons Cons_nth_drop_Suc)
  show ?case using Suc.hyps(1) [of "Suc i"] Suc.hyps(2) i vok_get [OF assms, of i] unfolding u by simp
qed simp

lemma addReply_all: "vok v (map Some ks) \<Longrightarrow> addReplyMetakeysResults v = Inr (ReplyBulks ks)"
  using reply_keys_all [of v ks 0] vok_count [of v "map Some ks"] by (simp add: addReplyMetakeysResults_def vectorCount_def)

text \<open>Statements that are printed from conditions, each ended by a dollar.\<close>

definition filter_ok :: "condition \<Rightarrow> bool" where
  "filter_ok c \<longleftrightarrow> cond_ok c \<and> printable_cond c \<and> plain_cond c \<and> length (cond_text c) < MAX_TMPBUF_SIZE \<and>
     CHR ''$'' \<notin> set (cond_text c)"

definition statements :: "condition list \<Rightarrow> string" where
  "statements cs = concat (map (\<lambda>c. cond_text c @ ''$'') cs)"

lemma cond_text_not_Nil: "cond_ok c \<Longrightarrow> cond_text c \<noteq> []"
  using join_length [OF tokens_not_Nil, of c] nodes_tokens [of c] nodes_pos [of c] by (auto simp: cond_text_def)

lemma strtok_statements:
  assumes "filter_ok c"
  shows "strtok_r ''$'' (statements (c # cs)) = (Some (cond_text c), statements cs)"
  using assms strtok_r_token [of "cond_text c" "''$''" "[]" "CHR ''$''" "statements cs"] cond_text_not_Nil [of c]
  by (auto simp: filter_ok_def statements_def)

lemma apply_statements_filter:
  "list_all filter_ok cs \<Longrightarrow> vok v (map Some (map partition_key parts)) \<Longrightarrow> list_all partition_ok parts \<Longrightarrow>
   \<exists>v'. apply_statements (fst (strtok_r ''$'' (statements cs))) (snd (strtok_r ''$'' (statements cs))) v = Inr (Some v') \<and>
     vok v' (map Some (map partition_key (filter (\<lambda>p. \<forall>c \<in> set cs. sat c (map column_param (snd p))) parts)))"
proof (induction cs arbitrary: v parts)
  case Nil
  then show ?case by (simp add: statements_def strtok_r_def apply_statements.simps)
next
  case (Cons c cs)
  have c: "filter_ok c" "cond_ok c" "plain_cond c" "parseStatement (cond_text c) = Inr (Some c)"
    using Cons.prems(1) parse_cond_text by (auto simp: filter_ok_def)
  let ?S = "\<lambda>p. sat c (map column_param (snd p))"
  define P where "P k = (case evaluateCondition c k of Inr b \<Rightarrow> b | Inl _ \<Rightarrow> False)" for k
  have e: "evaluateCondition c (partition_key p) = Inr (?S p)" if "p \<in> set parts" for p
    using evaluate_partition [OF _ c(2,3)] Cons.prems(3) that by (simp add: list_all_iff)
  have "evaluateCondition c k = Inr (P k)" if "k \<in> set (map partition_key parts)" for k
    using e that by (auto simp: P_def)
  moreover have "vok vectorInit (map Some [] :: string option list)" by (simp add: vok_def vectorInit_def)
  ultimately obtain w where w: "add_satisfying c v [0..<length parts] vectorInit = Inr w"
    "vok w (map Some (filter P (map partition_key parts)))"
    using add_satisfying_filter [OF Cons.prems(2), of c P 0 vectorInit "[]"] by auto
  have f: "filter P (map partition_key parts) = map partition_key (filter ?S parts)"
    unfolding filter_map by (rule arg_cong [where f = "map partition_key"], rule filter_cong) (auto simp: P_def e)
  have "list_all partition_ok (filter ?S parts)" using Cons.prems(3) by (auto simp: list_all_iff)
  from Cons.IH [OF _ w(2) [unfolded f] this] Cons.prems(1) obtain v' where
    v': "apply_statements (fst (strtok_r ''$'' (statements cs))) (snd (strtok_r ''$'' (statements cs))) w = Inr (Some v')"
    "vok v' (map Some (map partition_key (filter (\<lambda>p. \<forall>c \<in> set cs. sat c (map column_param (snd p))) (filter ?S parts))))"
    by auto
  obtain fs where "freeConditions c = Inr fs" using freeConditions_ok [OF c(2)] by blast
  then have "apply_statements (fst (strtok_r ''$'' (statements (c # cs)))) (snd (strtok_r ''$'' (statements (c # cs)))) v = Inr (Some v')"
    using c(4) w(1) v'(1) vok_count [OF Cons.prems(2)]
    by (simp add: strtok_statements [OF c(1)] apply_statements.simps [of "Some _"] vectorCount_def)
  moreover have "filter (\<lambda>p. \<forall>c \<in> set cs. sat c (map column_param (snd p))) (filter ?S parts) =
      filter (\<lambda>p. \<forall>c \<in> set (c # cs). sat c (map column_param (snd p))) parts"
    by (simp add: conj_commute)
  ultimately show ?case using v'(2) by auto
qed

lemma statements_chars: "list_all filter_ok cs \<Longrightarrow> NUL \<notin> set (statements cs)"
proof -
  assume ok: "list_all filter_ok cs"
  have "NUL \<notin> set (cond_text c)" if "c \<in> set cs" for c
    using ok that cond_tokens_chars [of c] join_chars [of NUL "'':''" "cond_tokens c"]
    by (auto simp: list_all_iff filter_ok_def cond_text_def)
  then show ?thesis by (auto simp: statements_def)
qed

section \<open>Properties\<close>



text \<open>
  C32. The buffers of the parser: a statement of 128 characters or more is copied past the end of the
  buffer on the stack, and a shorter one never is, nor any of its conditions.
\<close>

theorem parseStatement_bounds: "parseStatement raw = Inl OutOfBounds \<longleftrightarrow> 128 \<le> length raw"
proof (cases "length raw < MAX_TMPBUF_SIZE")
  case True
  then show ?thesis using parseStatement_cases [OF True] by auto
qed (simp add: parseStatement_def copy_tmp_def)

text \<open>
  C9. A statement printed from a well-typed condition, the operands of every operator before it,
  parses to that condition, when it fits the buffer and its values print to texts that read as the
  values.
\<close>

theorem parseStatement_print:
  assumes "cond_ok c" and "printable_cond c" and "length (cond_text c) < MAX_TMPBUF_SIZE"
  shows "parseStatement (cond_text c) = Inr (Some c)"
  by (rule parse_cond_text [OF assms])

definition sample_leaf :: "int \<Rightarrow> int \<Rightarrow> condition" where
  "sample_leaf col l = Condition CONDITION_OP_TYPE_EQ 2 True (Some (ChildLong col)) (Some (ChildLong l))"

definition sample_filter :: condition where
  "sample_filter = Condition CONDITION_OP_TYPE_OR 2 False (Some (ChildCond (sample_leaf 2 1))) (Some (ChildCond (sample_leaf 2 3)))"

lemma sample_filter_ok: "filter_ok sample_filter" "cond_text sample_filter = ''3*2*EqualTo:1*2*EqualTo:Or''"
proof -
  show t: "cond_text sample_filter = ''3*2*EqualTo:1*2*EqualTo:Or''" by code_simp
  show "filter_ok sample_filter" unfolding filter_ok_def t
    by (simp add: sample_filter_def sample_leaf_def getOperatorOperandCount_def is_long_def)
qed

theorem parseStatement_print_witness: "parseStatement ''3*2*EqualTo:1*2*EqualTo:Or'' = Inr (Some sample_filter)"
  using parseStatement_print [of sample_filter] sample_filter_ok by (simp add: filter_ok_def)

text \<open>
  C10. Evaluating a condition on the meta key of a partition decides its meaning: comparisons of
  numbers and dates by value, of texts by equality, substring, prefix and suffix, combined by the
  connectives; a leaf on a column that the partition does not name holds.
\<close>

theorem evaluateCondition_decides:
  assumes "partition_ok p" and "cond_ok c" and "plain_cond c"
  shows "evaluateCondition c (partition_key p) = Inr (sat c (map column_param (snd p)))"
  by (rule evaluate_partition [OF assms])

definition sample_partition :: "int \<times> (int \<times> string) list" where
  "sample_partition = (100, [(2, ''1'')])"

lemma sample_partition_ok: "partition_ok sample_partition" "partition_key sample_partition = ''M:{100:2:1}''"
proof -
  show k: "partition_key sample_partition = ''M:{100:2:1}''" by code_simp
  then have "length (meta_key_text (fst sample_partition) (columns_text (snd sample_partition))) = 11" by (simp add: partition_key_def)
  then show "partition_ok sample_partition" by (simp add: partition_ok_def sample_partition_def column_ok_def is_int_def)
qed

theorem evaluateCondition_decides_witness: "evaluateCondition sample_filter ''M:{100:2:1}'' = Inr True"
proof -
  have "sat sample_filter (map column_param (snd sample_partition))" by code_simp
  with evaluateCondition_decides [OF sample_partition_ok(1), of sample_filter] sample_filter_ok(1) show ?thesis
    by (simp add: filter_ok_def sample_partition_ok(2))
qed



text \<open>
  A leaf on a column that the partition does not name is not decided by the partition, and holds
  so that the partition is kept. Its negation does not hold: \<open>METAKEYS\<close> drops the partition although
  its rows may satisfy the negated comparison.
\<close>

theorem negated_leaf_drops:
  assumes "partition_ok p" and "col \<notin> fst ` set (snd p)" and "leaf = Condition CONDITION_OP_TYPE_EQ 2 True (Some (ChildLong col)) (Some (ChildLong l))"
  shows "evaluateCondition leaf (partition_key p) = Inr True \<and>
    evaluateCondition (Condition CONDITION_OP_TYPE_NOT 1 False (Some (ChildCond leaf)) None) (partition_key p) = Inr False"
proof -
  have "find (decides col (Some (ChildLong l))) (map column_param (snd p)) = None"
    using assms(2) by (force simp: find_None_iff decides_def column_param_def)
  then have s: "sat leaf (map column_param (snd p))" by (simp add: assms(3) leaf_holds_def leaf_ops_def)
  have ok: "cond_ok leaf" "plain_cond leaf" by (simp_all add: assms(3) getOperatorOperandCount_def)
  let ?not = "Condition CONDITION_OP_TYPE_NOT 1 False (Some (ChildCond leaf)) None"
  have "cond_ok ?not" "plain_cond ?not" "\<not> sat ?not (map column_param (snd p))" using ok s by (simp_all add: getOperatorOperandCount_def)
  then show ?thesis using evaluate_partition [OF assms(1) ok] evaluate_partition [OF assms(1), of ?not] s by simp
qed

theorem negated_leaf_drops_witness:
  "evaluateCondition (Condition CONDITION_OP_TYPE_NOT 1 False (Some (ChildCond (sample_leaf 7 3))) None) ''M:{100:2:1}'' = Inr False"
proof -
  have "7 \<notin> fst ` set (snd sample_partition)" by (simp add: sample_partition_def)
  from negated_leaf_drops [OF sample_partition_ok(1) this sample_leaf_def] show ?thesis by (simp add: sample_partition_ok(2))
qed

end
