(* ===== verification/Slot.thy ===== *)
theory Slot
  imports Partition
begin

text \<open>
  Hash slots and the choice of the node that serves a command in a cluster: the checksum of
  \<open>src/src/crc16.c\<close>, \<open>keyHashSlot\<close>, \<open>getNodeByQuery\<close> and \<open>clusterRedirectClient\<close> of
  \<open>src/src/cluster.c\<close>, the extraction of the keys of a command and \<open>lookupKeyRead\<close> of
  \<open>src/src/db.c\<close>, and the test for redirection of \<open>processCommand\<close> in \<open>src/src/server.c\<close>.
  The table of the checksum is shown to hold the remainders of the generator polynomial, all keys
  of a partition are shown to have one slot, and the answer of \<open>getNodeByQuery\<close> is
  characterised.
\<close>

unbundle bit_operations_syntax

section \<open>Definitions\<close>

subsection \<open>The checksum\<close>

definition crc16tab :: "16 word list" where
  "crc16tab =
  [0x0000, 0x1021, 0x2042, 0x3063, 0x4084, 0x50a5, 0x60c6, 0x70e7,
   0x8108, 0x9129, 0xa14a, 0xb16b, 0xc18c, 0xd1ad, 0xe1ce, 0xf1ef,
   0x1231, 0x0210, 0x3273, 0x2252, 0x52b5, 0x4294, 0x72f7, 0x62d6,
   0x9339, 0x8318, 0xb37b, 0xa35a, 0xd3bd, 0xc39c, 0xf3ff, 0xe3de,
   0x2462, 0x3443, 0x0420, 0x1401, 0x64e6, 0x74c7, 0x44a4, 0x5485,
   0xa56a, 0xb54b, 0x8528, 0x9509, 0xe5ee, 0xf5cf, 0xc5ac, 0xd58d,
   0x3653, 0x2672, 0x1611, 0x0630, 0x76d7, 0x66f6, 0x5695, 0x46b4,
   0xb75b, 0xa77a, 0x9719, 0x8738, 0xf7df, 0xe7fe, 0xd79d, 0xc7bc,
   0x48c4, 0x58e5, 0x6886, 0x78a7, 0x0840, 0x1861, 0x2802, 0x3823,
   0xc9cc, 0xd9ed, 0xe98e, 0xf9af, 0x8948, 0x9969, 0xa90a, 0xb92b,
   0x5af5, 0x4ad4, 0x7ab7, 0x6a96, 0x1a71, 0x0a50, 0x3a33, 0x2a12,
   0xdbfd, 0xcbdc, 0xfbbf, 0xeb9e, 0x9b79, 0x8b58, 0xbb3b, 0xab1a,
   0x6ca6, 0x7c87, 0x4ce4, 0x5cc5, 0x2c22, 0x3c03, 0x0c60, 0x1c41,
   0xedae, 0xfd8f, 0xcdec, 0xddcd, 0xad2a, 0xbd0b, 0x8d68, 0x9d49,
   0x7e97, 0x6eb6, 0x5ed5, 0x4ef4, 0x3e13, 0x2e32, 0x1e51, 0x0e70,
   0xff9f, 0xefbe, 0xdfdd, 0xcffc, 0xbf1b, 0xaf3a, 0x9f59, 0x8f78,
   0x9188, 0x81a9, 0xb1ca, 0xa1eb, 0xd10c, 0xc12d, 0xf14e, 0xe16f,
   0x1080, 0x00a1, 0x30c2, 0x20e3, 0x5004, 0x4025, 0x7046, 0x6067,
   0x83b9, 0x9398, 0xa3fb, 0xb3da, 0xc33d, 0xd31c, 0xe37f, 0xf35e,
   0x02b1, 0x1290, 0x22f3, 0x32d2, 0x4235, 0x5214, 0x6277, 0x7256,
   0xb5ea, 0xa5cb, 0x95a8, 0x8589, 0xf56e, 0xe54f, 0xd52c, 0xc50d,
   0x34e2, 0x24c3, 0x14a0, 0x0481, 0x7466, 0x6447, 0x5424, 0x4405,
   0xa7db, 0xb7fa, 0x8799, 0x97b8, 0xe75f, 0xf77e, 0xc71d, 0xd73c,
   0x26d3, 0x36f2, 0x0691, 0x16b0, 0x6657, 0x7676, 0x4615, 0x5634,
   0xd94c, 0xc96d, 0xf90e, 0xe92f, 0x99c8, 0x89e9, 0xb98a, 0xa9ab,
   0x5844, 0x4865, 0x7806, 0x6827, 0x18c0, 0x08e1, 0x3882, 0x28a3,
   0xcb7d, 0xdb5c, 0xeb3f, 0xfb1e, 0x8bf9, 0x9bd8, 0xabbb, 0xbb9a,
   0x4a75, 0x5a54, 0x6a37, 0x7a16, 0x0af1, 0x1ad0, 0x2ab3, 0x3a92,
   0xfd2e, 0xed0f, 0xdd6c, 0xcd4d, 0xbdaa, 0xad8b, 0x9de8, 0x8dc9,
   0x7c26, 0x6c07, 0x5c64, 0x4c45, 0x3ca2, 0x2c83, 0x1ce0, 0x0cc1,
   0xef1f, 0xff3e, 0xcf5d, 0xdf7c, 0xaf9b, 0xbfba, 0x8fd9, 0x9ff8,
   0x6e17, 0x7e36, 0x4e55, 0x5e74, 0x2e93, 0x3eb2, 0x0ed1, 0x1ef0]"

text \<open>
  \<open>crc<<8\<close> is computed as an \<open>int\<close> and cut to 16 bits by the assignment; a negative character is
  sign-extended and cut to a byte by the mask.
\<close>

definition crc16_step :: "16 word \<Rightarrow> char \<Rightarrow> 16 word" where
  "crc16_step crc c = push_bit 8 crc XOR crc16tab ! unat ((drop_bit 8 crc XOR word_of_nat (of_char c)) AND 0x00FF)"

definition crc16 :: "string \<Rightarrow> 16 word" where
  "crc16 s = foldl crc16_step 0 s"

subsection \<open>The slot of a key\<close>

text \<open>The loops \<open>for (i = from; i < keylen; i++) if (key[i] == c) break;\<close>.\<close>

function index_from :: "char \<Rightarrow> string \<Rightarrow> nat \<Rightarrow> nat" where
  "index_from c key i = (if i < length key then if key ! i = c then i else index_from c key (i + 1) else i)"
  by pat_completeness auto
termination by (relation "measure (\<lambda>(c, key, i). length key - i)") auto

declare index_from.simps [simp del]

definition keyHashSlot :: "string \<Rightarrow> nat" where
  "keyHashSlot key =
     (let keylen = length key; s = index_from CHR ''{'' key 0
      in if s = keylen then unat (crc16 key AND 0x3FFF)
         else
           let e = index_from CHR ''}'' key (s + 1)
           in if e = keylen \<or> e = s + 1 then unat (crc16 key AND 0x3FFF)
              else unat (crc16 (take (e - s - 1) (drop (s + 1) key)) AND 0x3FFF))"

subsection \<open>The keys of a command\<close>

text \<open>
  The fields of a command that routing reads. A module supplies its own function for the positions
  of the keys; the functions of the server are named by the constructors of \<open>getkeys\<close>.
\<close>

datatype getkeys = NoGetKeys | ZunionInterGetKeys | EvalGetKeys | SortGetKeys | MigrateGetKeys | GeoradiusGetKeys

datatype cmd_proc = ExecCommand | MigrateCommand | OtherCommand

record redisCommand =
  proc :: cmd_proc
  arity :: int
  cmd_readonly :: bool
  cmd_asking :: bool
  cmd_module :: bool
  module_getkeys :: "(string list \<Rightarrow> int list) option"
  getkeys_proc :: getkeys
  firstkey :: int
  lastkey :: int
  keystep :: int

text \<open>
  The loop over \<open>firstkey, firstkey + keystep, ...\<close>. Every entry of the command table with a first
  key has a positive step; with another step the loop writes past the end of its array.
\<close>

function table_keys :: "bool \<Rightarrow> int \<Rightarrow> int \<Rightarrow> int \<Rightarrow> int \<Rightarrow> int list option res" where
  "table_keys is_module argc j lst step =
     (if j > lst then Inr (Some [])
      else if j \<ge> argc then (if is_module then Inr None else Inl ServerPanic)
      else if step \<le> 0 then Inl OutOfBounds
      else bindr (table_keys is_module argc (j + step) lst step) (\<lambda>r. Inr (map_option ((#) j) r)))"
  by pat_completeness auto
termination by (relation "measure (\<lambda>(_, _, j, lst, _). nat (lst + 1 - j))") auto

definition getKeysUsingCommandTable :: "redisCommand \<Rightarrow> int \<Rightarrow> int list res" where
  "getKeysUsingCommandTable cmd argc =
     (if firstkey cmd = 0 then Inr []
      else
        let lst = (if lastkey cmd < 0 then argc + lastkey cmd else lastkey cmd)
        in if lst - firstkey cmd + 1 < 0 then Inl ServerPanic
           else bindr (table_keys (cmd_module cmd) argc (firstkey cmd) lst (keystep cmd)) (\<lambda>r.
             Inr (case r of None \<Rightarrow> [] | Some ks \<Rightarrow> ks)))"


definition arg :: "string list \<Rightarrow> nat \<Rightarrow> string res" where
  "arg argv i = (if i < length argv then Inr (argv ! i) else Inl OutOfBounds)"

text \<open>
  An allocation of a negative number of elements asks for almost the whole address space, which
  ends the process; with a count of minus one \<open>zunionInterGetKeys\<close> allocates nothing and writes
  before its array.
\<close>

definition zunionInterGetKeys :: "string list \<Rightarrow> int list res" where
  "zunionInterGetKeys argv =
     bindr (arg argv 2) (\<lambda>a.
       let num = atoi a
       in if num > int (length argv) - 3 then Inr []
          else if num + 1 < 0 then Inl ServerPanic
          else if num < 0 then Inl OutOfBounds
          else Inr (map (\<lambda>i. 3 + int i) [0..<nat num] @ [1]))"

definition evalGetKeys :: "string list \<Rightarrow> int list res" where
  "evalGetKeys argv =
     bindr (arg argv 2) (\<lambda>a.
       let num = atoi a
       in if num > int (length argv) - 3 then Inr []
          else if num < 0 then Inl ServerPanic
          else Inr (map (\<lambda>i. 3 + int i) [0..<nat num]))"

text \<open>
  The inner loop over the options with arguments: the new \<open>i\<close> and the position of the key of
  \<open>STORE\<close>, when there is one.
\<close>

fun sort_option :: "string list \<Rightarrow> (string \<times> nat) list \<Rightarrow> nat \<Rightarrow> nat option \<Rightarrow> nat \<times> nat option" where
  "sort_option argv [] i store = (i, store)"
| "sort_option argv ((name, skip) # skiplist) i store =
     (if strcaseeq (argv ! i) name then (i + skip, store)
      else if strcaseeq (argv ! i) ''store'' \<and> i + 1 < length argv then (i, Some (i + 1))
      else sort_option argv skiplist i store)"

definition sort_skiplist :: "(string \<times> nat) list" where
  "sort_skiplist = [(''limit'', 2), (''get'', 1), (''by'', 1)]"

lemma sort_option_ge: "i \<le> fst (sort_option argv skiplist i store)"
  by (induction argv skiplist i store rule: sort_option.induct) auto

function sort_store :: "string list \<Rightarrow> nat \<Rightarrow> nat option \<Rightarrow> nat option" where
  "sort_store argv i store =
     (if i < length argv then
        let r = sort_option argv sort_skiplist i store in sort_store argv (fst r + 1) (snd r)
      else store)"
  by pat_completeness auto
termination
  using sort_option_ge by (relation "measure (\<lambda>(argv, i, store). length argv - i)") (auto simp: less_Suc_eq_le le_trans diff_less_mono2)

declare sort_store.simps [simp del]

definition sortGetKeys :: "string list \<Rightarrow> int list res" where
  "sortGetKeys argv = Inr (1 # (case sort_store argv 2 None of None \<Rightarrow> [] | Some i \<Rightarrow> [int i]))"

text \<open>The first \<open>i\<close> with the option \<open>KEYS\<close> while the key argument is empty.\<close>

fun migrate_keys_option :: "string list \<Rightarrow> nat list \<Rightarrow> nat option" where
  "migrate_keys_option argv [] = None"
| "migrate_keys_option argv (i # is) =
     (if strcaseeq (argv ! i) ''keys'' \<and> length (argv ! 3) = 0 then Some i else migrate_keys_option argv is)"

definition migrateGetKeys :: "string list \<Rightarrow> int list res" where
  "migrateGetKeys argv =
     (let argc = length argv;
          first_num = (case if argc > 6 then migrate_keys_option argv [6..<argc] else None of
                         None \<Rightarrow> (3, 1)
                       | Some i \<Rightarrow> (i + 1, argc - (i + 1)))
      in Inr (map (\<lambda>i. int (fst first_num + i)) [0..<snd first_num]))"

function georadius_store :: "string list \<Rightarrow> nat \<Rightarrow> nat option \<Rightarrow> nat option" where
  "georadius_store argv i stored_key =
     (if i < length argv then
        if (strcaseeq (argv ! i) ''store'' \<or> strcaseeq (argv ! i) ''storedist'') \<and> i + 1 < length argv
        then georadius_store argv (i + 2) (Some (i + 1))
        else georadius_store argv (i + 1) stored_key
      else stored_key)"
  by pat_completeness auto
termination by (relation "measure (\<lambda>(argv, i, s). length argv - i)") auto

declare georadius_store.simps [simp del]

definition georadiusGetKeys :: "string list \<Rightarrow> int list res" where
  "georadiusGetKeys argv =
     Inr (1 # (case georadius_store argv 5 None of None \<Rightarrow> [] | Some i \<Rightarrow> [int i]))"

text \<open>\<open>module_getkeys\<close> is what the module of the command reports through its interface.\<close>

definition getKeysFromCommand :: "redisCommand \<Rightarrow> string list \<Rightarrow> int list res" where
  "getKeysFromCommand cmd argv =
     (case module_getkeys cmd of
        Some f \<Rightarrow> Inr (f argv)
      | None \<Rightarrow>
          (case if cmd_module cmd then NoGetKeys else getkeys_proc cmd of
             NoGetKeys \<Rightarrow> getKeysUsingCommandTable cmd (int (length argv))
           | ZunionInterGetKeys \<Rightarrow> zunionInterGetKeys argv
           | EvalGetKeys \<Rightarrow> evalGetKeys argv
           | SortGetKeys \<Rightarrow> sortGetKeys argv
           | MigrateGetKeys \<Rightarrow> migrateGetKeys argv
           | GeoradiusGetKeys \<Rightarrow> georadiusGetKeys argv))"

subsection \<open>Lookup for reading\<close>

text \<open>
  \<open>reading\<close> is that the current client is not the link to the master and runs a command that only
  reads. The counters of hits and misses are not part of the state.
\<close>

definition lookupKeyReadWithFlags ::
  "'ps rocks_get \<Rightarrow> server \<Rightarrow> bool \<Rightarrow> 'ps redisDb \<Rightarrow> string \<Rightarrow> bool \<Rightarrow> (robj option \<times> 'ps redisDb) res" where
  "lookupKeyReadWithFlags rget srv reading db key lookup_all =
     bindr (expireIfNeeded srv db key) (\<lambda>(expired, db).
       if expired \<and> (\<not> has_master srv \<or> reading) then Inr (None, db)
       else bindr (lookupKey rget db key lookup_all) (\<lambda>v. Inr (v, db)))"

definition lookupKeyRead ::
  "'ps rocks_get \<Rightarrow> server \<Rightarrow> bool \<Rightarrow> 'ps redisDb \<Rightarrow> string \<Rightarrow> (robj option \<times> 'ps redisDb) res" where
  "lookupKeyRead rget srv reading db key = lookupKeyReadWithFlags rget srv reading db key False"

definition lookupAllKeyRead ::
  "'ps rocks_get \<Rightarrow> server \<Rightarrow> bool \<Rightarrow> 'ps redisDb \<Rightarrow> string \<Rightarrow> (robj option \<times> 'ps redisDb) res" where
  "lookupAllKeyRead rget srv reading db key = lookupKeyReadWithFlags rget srv reading db key True"

subsection \<open>The node that serves a command\<close>

text \<open>
  The state of the cluster as this node sees it. Nodes are numbers; \<open>myself_slaveof\<close> is the master
  of this node and \<open>addr\<close> the address and port of a node.
\<close>

record cluster =
  state_ok :: bool
  myself :: nat
  myself_slave :: bool
  myself_slaveof :: "nat option"
  slots :: "nat \<Rightarrow> nat option"
  migrating_slots_to :: "nat \<Rightarrow> nat option"
  importing_slots_from :: "nat \<Rightarrow> nat option"
  addr :: "nat \<Rightarrow> string \<times> int"

datatype redir = REDIR_NONE | REDIR_CROSS_SLOT | REDIR_UNSTABLE | REDIR_ASK | REDIR_MOVED
  | REDIR_DOWN_STATE | REDIR_DOWN_UNBOUND

type_synonym multiCmd = "redisCommand \<times> string list"

record client =
  client_multi :: bool
  client_asking :: bool
  client_readonly :: bool
  mstate :: "multiCmd list"

text \<open>The variables of the loop over the keys; \<open>n\<close> is set with the first key.\<close>

record 'ps key_state =
  first_seen :: "string option"
  kn :: "nat option"
  kslot :: nat
  multiple_keys :: bool
  migrating_slot :: bool
  importing_slot :: bool
  missing_keys :: nat
  kdb :: "'ps redisDb"

text \<open>One key: an error code, or the variables after it.\<close>

definition first_key :: "cluster \<Rightarrow> string \<Rightarrow> 'ps key_state \<Rightarrow> redir + 'ps key_state" where
  "first_key cl key st =
     (let slot = keyHashSlot key
      in case slots cl slot of
           None \<Rightarrow> Inl REDIR_DOWN_UNBOUND
         | Some n \<Rightarrow>
             let mig = (n = myself cl \<and> migrating_slots_to cl slot \<noteq> None)
             in Inr (st\<lparr>first_seen := Some key, kslot := slot, kn := Some n, migrating_slot := mig,
                        importing_slot := (\<not> mig \<and> importing_slots_from cl slot \<noteq> None)\<rparr>))"

definition next_key :: "string \<Rightarrow> string \<Rightarrow> 'ps key_state \<Rightarrow> redir + 'ps key_state" where
  "next_key seen key st =
     (if seen = key then Inr st
      else if kslot st \<noteq> keyHashSlot key then Inl REDIR_CROSS_SLOT
      else Inr (st\<lparr>multiple_keys := True\<rparr>))"

definition count_missing ::
  "'ps rocks_get \<Rightarrow> server \<Rightarrow> bool \<Rightarrow> string \<Rightarrow> 'ps key_state \<Rightarrow> 'ps key_state res" where
  "count_missing rget srv reading key st =
     (if migrating_slot st \<or> importing_slot st then
        bindr (lookupKeyRead rget srv reading (kdb st) key) (\<lambda>(v, db).
          Inr (st\<lparr>missing_keys := (if v = None then missing_keys st + 1 else missing_keys st), kdb := db\<rparr>))
      else Inr st)"

fun check_keys ::
  "'ps rocks_get \<Rightarrow> server \<Rightarrow> bool \<Rightarrow> cluster \<Rightarrow> string list \<Rightarrow> int list \<Rightarrow> 'ps key_state \<Rightarrow>
   (redir \<times> 'ps redisDb + 'ps key_state) res" where
  "check_keys rget srv reading cl argv [] st = Inr (Inr st)"
| "check_keys rget srv reading cl argv (k # ks) st =
     (if k < 0 then Inl OutOfBounds
      else bindr (arg argv (nat k)) (\<lambda>key.
        case (case first_seen st of None \<Rightarrow> first_key cl key st | Some seen \<Rightarrow> next_key seen key st) of
          Inl err \<Rightarrow> Inr (Inl (err, kdb st))
        | Inr st \<Rightarrow>
            bindr (count_missing rget srv reading key st) (\<lambda>st. check_keys rget srv reading cl argv ks st)))"

fun check_commands ::
  "'ps rocks_get \<Rightarrow> server \<Rightarrow> bool \<Rightarrow> cluster \<Rightarrow> multiCmd list \<Rightarrow> 'ps key_state \<Rightarrow>
   (redir \<times> 'ps redisDb + 'ps key_state) res" where
  "check_commands rget srv reading cl [] st = Inr (Inr st)"
| "check_commands rget srv reading cl ((cmd, argv) # cmds) st =
     bindr (getKeysFromCommand cmd argv) (\<lambda>keyindex.
       bindr (check_keys rget srv reading cl argv keyindex st) (\<lambda>r.
         case r of
           Inl err \<Rightarrow> Inr (Inl err)
         | Inr st \<Rightarrow> check_commands rget srv reading cl cmds st))"

text \<open>
  The decision after the loop: the node, the error code, the slot when it is reported, and the
  database, in which keys may have expired. It is called for the command of the current client,
  which is not the link to the master.
\<close>

definition choose_node :: "client \<Rightarrow> redisCommand \<Rightarrow> cluster \<Rightarrow> 'ps key_state \<Rightarrow> nat option \<times> redir \<times> nat option" where
  "choose_node c cmd cl st =
     (case kn st of
        None \<Rightarrow> (Some (myself cl), REDIR_NONE, None)
      | Some n \<Rightarrow>
          if \<not> state_ok cl then (None, REDIR_DOWN_STATE, None)
          else if (migrating_slot st \<or> importing_slot st) \<and> proc cmd = MigrateCommand
          then (Some (myself cl), REDIR_NONE, Some (kslot st))
          else if migrating_slot st \<and> missing_keys st > 0
          then (migrating_slots_to cl (kslot st), REDIR_ASK, Some (kslot st))
          else if importing_slot st \<and> (client_asking c \<or> cmd_asking cmd)
          then (if multiple_keys st \<and> missing_keys st > 0 then (None, REDIR_UNSTABLE, Some (kslot st))
                else (Some (myself cl), REDIR_NONE, Some (kslot st)))
          else if client_readonly c \<and> cmd_readonly cmd \<and> myself_slave cl \<and> myself_slaveof cl = Some n
          then (Some (myself cl), REDIR_NONE, Some (kslot st))
          else (Some n, if n \<noteq> myself cl then REDIR_MOVED else REDIR_NONE, Some (kslot st)))"

definition start_keys :: "'ps redisDb \<Rightarrow> 'ps key_state" where
  "start_keys db =
     \<lparr>first_seen = None, kn = None, kslot = 0, multiple_keys = False, migrating_slot = False,
      importing_slot = False, missing_keys = 0, kdb = db\<rparr>"

definition getNodeByQuery ::
  "'ps rocks_get \<Rightarrow> server \<Rightarrow> client \<Rightarrow> redisCommand \<Rightarrow> string list \<Rightarrow> cluster \<Rightarrow> 'ps redisDb \<Rightarrow>
   ((nat option \<times> redir \<times> nat option) \<times> 'ps redisDb) res" where
  "getNodeByQuery rget srv c cmd argv cl db =
     (if proc cmd = ExecCommand \<and> \<not> client_multi c then Inr ((Some (myself cl), REDIR_NONE, None), db)
      else
        let ms = (if proc cmd = ExecCommand then mstate c else [(cmd, argv)])
        in bindr (check_commands rget srv (cmd_readonly cmd) cl ms (start_keys db)) (\<lambda>r.
             case r of
               Inl (err, db) \<Rightarrow> Inr ((None, err, None), db)
             | Inr st \<Rightarrow> Inr (choose_node c cmd cl st, kdb st)))"

text \<open>The text of the error reply; the node and the slot are read only for a redirection.\<close>

definition clusterRedirectClient :: "cluster \<Rightarrow> nat option \<Rightarrow> nat option \<Rightarrow> redir \<Rightarrow> string res" where
  "clusterRedirectClient cl n hashslot error_code =
     (case error_code of
        REDIR_CROSS_SLOT \<Rightarrow> Inr ''-CROSSSLOT Keys in request don't hash to the same slot''
      | REDIR_UNSTABLE \<Rightarrow> Inr ''-TRYAGAIN Multiple keys request during rehashing of slot''
      | REDIR_DOWN_STATE \<Rightarrow> Inr ''-CLUSTERDOWN The cluster is down''
      | REDIR_DOWN_UNBOUND \<Rightarrow> Inr ''-CLUSTERDOWN Hash slot not served''
      | REDIR_NONE \<Rightarrow> Inl ServerPanic
      | _ \<Rightarrow>
          bindr (deref n) (\<lambda>n. case hashslot of
              None \<Rightarrow> Inl UninitRead
            | Some slot \<Rightarrow>
                Inr (''-'' @ (if error_code = REDIR_ASK then ''ASK'' else ''MOVED'') @ '' '' @
                     print_nat slot @ '' '' @ fst (addr cl n) @ '':'' @ print_int (snd (addr cl n)))))"

text \<open>
  The test of \<open>processCommand\<close> in cluster mode for a client that is not the link to the master and
  not a script: nothing when the command goes on, the error reply otherwise.
\<close>

definition cluster_redirection ::
  "'ps rocks_get \<Rightarrow> server \<Rightarrow> client \<Rightarrow> redisCommand \<Rightarrow> string list \<Rightarrow> cluster \<Rightarrow> 'ps redisDb \<Rightarrow>
   (string option \<times> 'ps redisDb) res" where
  "cluster_redirection rget srv c cmd argv cl db =
     (if getkeys_proc cmd = NoGetKeys \<and> firstkey cmd = 0 \<and> proc cmd \<noteq> ExecCommand then Inr (None, db)
      else
        bindr (getNodeByQuery rget srv c cmd argv cl db) (\<lambda>((n, error_code, hashslot), db).
          if n \<noteq> Some (myself cl)
          then bindr (clusterRedirectClient cl n hashslot error_code) (\<lambda>reply. Inr (Some reply, db))
          else Inr (None, db)))"

section \<open>The checksum is the remainder of the message\<close>

text \<open>
  The definition of the code without a table: the bits of the message, most significant first, go
  through a shift register with the generator \<open>x^16 + x^12 + x^5 + 1\<close>.
\<close>

definition crc_shift :: "16 word \<Rightarrow> bool \<Rightarrow> 16 word" where
  "crc_shift w b = (if bit w 15 \<noteq> b then push_bit 1 w XOR 0x1021 else push_bit 1 w)"

definition char_bits :: "char \<Rightarrow> bool list" where
  "char_bits c = [digit7 c, digit6 c, digit5 c, digit4 c, digit3 c, digit2 c, digit1 c, digit0 c]"

definition crc_bit :: "16 word \<Rightarrow> 16 word" where
  "crc_bit w = crc_shift w False"

lemma crc_bit_xor: "crc_bit (a XOR b) = crc_bit a XOR crc_bit b"
  by (simp add: crc_bit_def crc_shift_def bit_simps push_bit_xor ac_simps)

lemma crc_bits_xor: "(crc_bit ^^ n) (a XOR b) = (crc_bit ^^ n) a XOR (crc_bit ^^ n) b"
  by (induction n arbitrary: a b) (simp_all add: crc_bit_xor funpow_swap1)

lemma crc_shift_split: "crc_shift w b = crc_bit w XOR crc_shift 0 b"
  by (simp add: crc_bit_def crc_shift_def ac_simps)

lemma crc_shifts_split: "foldl crc_shift w bs = (crc_bit ^^ length bs) w XOR foldl crc_shift 0 bs"
proof (induction bs arbitrary: w)
  case (Cons b bs)
  show ?case
    using Cons.IH [of "crc_shift w b"] Cons.IH [of "crc_shift 0 b"]
    by (simp add: crc_shift_split [of w b] crc_bits_xor xor.assoc funpow_swap1)
qed simp

lemma crc_low_bits:
  assumes "n \<le> 8" and "take_bit 8 w = w"
  shows "(crc_bit ^^ n) w = push_bit n w"
  using assms(1)
proof (induction n)
  case (Suc n)
  have "\<not> 15 - n < 8" using Suc.prems by simp
  then have "\<not> bit w (15 - n)" using bit_take_bit_iff [of 8 w "15 - n"] assms(2) by simp
  then have "\<not> bit (push_bit n w) 15" by (simp add: bit_push_bit_iff)
  with Suc show ?case by (simp add: crc_bit_def crc_shift_def)
qed simp

text \<open>The table holds the remainders of all bytes.\<close>

lemma crc_bit_values:
  "crc_bit 0 = 0" "crc_bit 1 = 2"
  "crc_bit (numeral k) =
     (if bit (numeral k :: 16 word) 15 then push_bit 1 (numeral k) XOR 0x1021 else push_bit 1 (numeral k))"
  by (simp_all add: crc_bit_def crc_shift_def)

definition crc_entry :: "nat \<Rightarrow> 16 word" where
  "crc_entry i = (crc_bit ^^ 8) (push_bit 8 (word_of_nat i))"

lemma crc_bit8: "(crc_bit ^^ 8) w = crc_bit (crc_bit (crc_bit (crc_bit (crc_bit (crc_bit (crc_bit (crc_bit w)))))))"
  by (simp add: numeral_eq_Suc)

lemma upt_256: "[0..<256] = 0 # 1 # [2..<256]"
  by (simp add: upt_conv_Cons numeral_2_eq_2)

lemma crc16tab_entries: "crc16tab = map crc_entry [0..<256]"
  unfolding upt_256 by (simp add: upt_rec_numeral crc_entry_def crc_bit8 crc_bit_values crc16tab_def)

lemma crc16tab_nth: "i < 256 \<Longrightarrow> crc16tab ! i = crc_entry i"
  by (simp add: crc16tab_entries)

lemma char_word:
  "(word_of_nat (of_char c) :: 16 word) =
     of_bool (digit7 c) * 128 XOR of_bool (digit6 c) * 64 XOR of_bool (digit5 c) * 32 XOR of_bool (digit4 c) * 16 XOR
     of_bool (digit3 c) * 8 XOR of_bool (digit2 c) * 4 XOR of_bool (digit1 c) * 2 XOR of_bool (digit0 c)"
proof (cases c)
  case (Char b0 b1 b2 b3 b4 b5 b6 b7)
  show ?thesis unfolding Char
    by (cases b0; cases b1; cases b2; cases b3; cases b4; cases b5; cases b6; cases b7; simp add: of_char_Char)
qed

lemma crc_shift_bool: "crc_shift w b = crc_bit (w XOR of_bool b * 0x8000)"
proof (cases b)
  case True
  have "crc_bit 0x8000 = 0x1021" by (simp add: crc_bit_values)
  then have "crc_bit (w XOR 0x8000) = crc_bit w XOR 0x1021" by (simp add: crc_bit_xor)
  with True show ?thesis by (simp add: crc_bit_def crc_shift_def xor.assoc)
qed (simp add: crc_bit_def)

lemma crc_bit_of_bool: "crc_bit (of_bool b * w) = of_bool b * crc_bit w"
  by (simp add: of_bool_def crc_bit_values)

lemma push_bit_of_bool: "push_bit n (of_bool b * w) = of_bool b * push_bit n w"
  by (simp add: of_bool_def)

lemma crc_char_entry: "foldl crc_shift 0 (char_bits c) = crc_entry (of_char c)"
proof -
  have "push_bit 8 (of_bool b) = of_bool b * (256 :: 16 word)" for b by (simp add: of_bool_def)
  then show ?thesis
    unfolding crc_entry_def char_word push_bit_xor crc_bits_xor char_bits_def foldl.simps crc_bit8 crc_shift_bool
    by (simp only: crc_bit_xor crc_bit_of_bool push_bit_of_bool)
      (simp add: crc_bit_values crc_bit_of_bool xor.assoc)
qed

lemma crc_entry_xor: "crc_entry (unat (a XOR b :: 16 word)) = crc_entry (unat a) XOR crc_entry (unat b)"
  by (simp add: crc_entry_def push_bit_xor crc_bits_xor)

lemma unat_char_word: "unat (word_of_nat (of_char c) :: 16 word) = of_char c"
proof -
  have "(of_char c :: nat) < 65536" using nat_of_char_less_256 [of c] by linarith
  then show ?thesis by (simp add: unat_of_nat)
qed

lemma char_word_byte: "(word_of_nat (of_char c) :: 16 word) AND 0xFF = word_of_nat (of_char c)"
proof -
  let ?c = "word_of_nat (of_char c) :: 16 word"
  have "unat (take_bit 8 ?c) = unat ?c"
    unfolding unsigned_take_bit_eq unat_char_word using nat_of_char_less_256 [of c] by (simp add: take_bit_eq_mod)
  then have "take_bit 8 ?c = ?c" by (simp only: word_unat_eq_iff)
  then show ?thesis by (simp add: take_bit_eq_mask mask_numeral)
qed

lemma high_byte: "drop_bit 8 (w :: 16 word) AND 0xFF = drop_bit 8 w"
proof -
  have "take_bit 8 (drop_bit 8 w) = drop_bit 8 w" by (rule bit_word_eqI) (auto simp: bit_simps dest: bit_imp_le_length)
  then show ?thesis by (simp add: take_bit_eq_mask mask_numeral)
qed

lemma split_bytes: "w = push_bit 8 (drop_bit 8 w) XOR take_bit 8 (w :: 16 word)"
  by (rule bit_word_eqI) (auto simp: bit_simps)

lemma crc16_step_eq: "crc16_step w c = foldl crc_shift w (char_bits c)"
proof -
  let ?c = "word_of_nat (of_char c) :: 16 word" and ?h = "drop_bit 8 w"
  have i: "(?h XOR ?c) AND 0xFF = ?h XOR ?c"
    by (simp add: bit.conj_xor_distrib2 high_byte char_word_byte)
  have lt: "unat (?h XOR ?c) < 256"
    using word_and_le1 [of "?h XOR ?c" "0xFF"] unfolding i by (simp add: word_le_nat_alt)
  note c = unat_char_word [of c]
  have l: "length (char_bits c) = 8" by (simp add: char_bits_def)
  have "(crc_bit ^^ 8) w = crc_entry (unat ?h) XOR push_bit 8 (take_bit 8 w)"
    using crc_bits_xor [of 8 "push_bit 8 ?h" "take_bit 8 w"] crc_low_bits [of 8 "take_bit 8 w"] split_bytes [of w]
    by (simp add: crc_entry_def)
  moreover have "push_bit 8 (take_bit 8 w) = push_bit 8 w"
    by (rule bit_word_eqI) (auto simp: bit_simps)
  ultimately show ?thesis
    using crc16tab_nth [OF lt] crc_entry_xor [of ?h ?c] c crc_shifts_split [of w "char_bits c"]
    unfolding crc_char_entry crc16_step_def i l by (simp add: ac_simps)
qed

text \<open>
  C15. The table-driven checksum is the cyclic redundancy check of its definition: for every text it
  is the register that is left after the bits of the text, most significant first, went through the
  shift register of the generator. The table has the right value for each byte.
\<close>

theorem crc16_is_remainder: "crc16 s = foldl crc_shift 0 (concat (map char_bits s))"
proof -
  have "foldl crc16_step w s = foldl crc_shift w (concat (map char_bits s))" for w
    by (induction s arbitrary: w) (simp_all add: crc16_step_eq)
  then show ?thesis by (simp add: crc16_def)
qed

section \<open>The slot of a partition\<close>

lemma index_from_found:
  "c \<notin> set xs \<Longrightarrow> index_from c (pre @ xs @ c # r) (length pre) = length pre + length xs"
proof (induction xs arbitrary: pre)
  case Nil
  then show ?case by (simp add: index_from.simps)
next
  case (Cons x xs)
  then show ?case using Cons.IH [of "pre @ [x]"] by (subst index_from.simps) (auto simp: nth_append)
qed

lemma slot_mod: "unat (w AND 0x3FFF :: 16 word) = unat w mod 16384"
proof -
  have "w AND 0x3FFF = take_bit 14 w" by (simp add: take_bit_eq_mask mask_numeral)
  then have "unat (w AND 0x3FFF) = take_bit 14 (unat w)" by (simp only: unsigned_take_bit_eq)
  then show ?thesis by (simp add: take_bit_eq_mod)
qed

lemma keyHashSlot_bound: "keyHashSlot key < 16384"
  by (simp add: keyHashSlot_def slot_mod Let_def)

lemma keyHashSlot_tag:
  assumes "CHR ''{'' \<notin> set a" and "CHR ''}'' \<notin> set tag" and "tag \<noteq> []"
  shows "keyHashSlot (a @ ''{'' @ tag @ ''}'' @ r) = unat (crc16 tag) mod 16384"
proof -
  let ?key = "a @ ''{'' @ tag @ ''}'' @ r"
  have s: "index_from CHR ''{'' ?key 0 = length a"
    using index_from_found [of "CHR ''{''" a "[]"] assms(1) by simp
  have "index_from CHR ''}'' ?key (length a + 1) = length a + 1 + length tag"
    using index_from_found [of "CHR ''}''" tag "a @ ''{''" r] assms(2) by simp
  with s assms(3) show ?thesis by (simp add: keyHashSlot_def slot_mod Let_def)
qed

definition partition_slot :: "int \<Rightarrow> string \<Rightarrow> nat" where
  "partition_slot tbl part = unat (crc16 (print_int tbl @ '':'' @ part)) mod 16384"

lemma partition_tag_slot:
  assumes "part_ok part" and "c \<noteq> CHR ''{''"
  shows "keyHashSlot ([c] @ '':'' @ ''{'' @ (print_int tbl @ '':'' @ part) @ ''}'' @ r) = partition_slot tbl part"
  using keyHashSlot_tag [of "[c] @ '':''" "print_int tbl @ '':'' @ part" r] assms print_int_excludes
  by (simp add: partition_slot_def part_ok_def)

lemma partition_slots:
  assumes "part_ok part"
  shows "keyHashSlot (command_key tbl part) = partition_slot tbl part"
    and "keyHashSlot (meta_key_text tbl part) = partition_slot tbl part"
    and "keyHashSlot (data_key_text tbl part g @ r) = partition_slot tbl part"
  using partition_tag_slot [OF assms, of "CHR ''D''" tbl "[]"] partition_tag_slot [OF assms, of "CHR ''M''" tbl "[]"]
    partition_tag_slot [OF assms, of "CHR ''D''" tbl "'':G:'' @ print_int g @ r"]
  by (simp_all add: command_key_def meta_key_text_def data_key_text_def)

text \<open>
  C12. All keys of a partition are in one hash slot. The data key of each row group, the meta key, the
  key under which a column vector is put into the persistent store and the key that clients send
  have the slot that the table id and the partition determine, whether the partition is kept as text
  or as numbers: a cluster never separates the parts of a partition.
\<close>

theorem partition_one_slot:
  assumes "info_ok info" and "length b = DATA_KEY_MAX_SIZE"
    and "length (data_key_text (tableId info) (part_str (partitionInfo info)) (rowGroupId info)) < DATA_KEY_MAX_SIZE"
    and "slot = unat (crc16 (print_int (tableId info) @ '':'' @ part_str (partitionInfo info))) mod 16384"
  shows "\<exists>key meta. generateDataKey b info = Inr key \<and> generateRgIdKeyForRowgroup b info = Inr meta \<and>
    keyHashSlot key = slot \<and> keyHashSlot meta = slot \<and>
    keyHashSlot (command_key (tableId info) (part_str (partitionInfo info))) = slot \<and>
    (\<forall>row col rocks. generateDataRocksKey b info row col = Inr rocks \<longrightarrow> keyHashSlot rocks = slot)"
proof -
  let ?p = "part_str (partitionInfo info)" and ?t = "tableId info" and ?g = "rowGroupId info"
  note slots = partition_slots [OF info_part_ok [OF assms(1)], of ?t, folded partition_slot_def]
  have k: "generateDataKey b info = Inr (data_key_text ?t ?p ?g)"
    using data_key_with_text [OF assms(1-3)] by (simp add: generateDataKey_def generateDataKeySds_def)
  have "length (meta_key_text ?t ?p) < DATA_KEY_MAX_SIZE"
    using assms(3) by (simp add: meta_key_text_def data_key_text_def)
  then have m: "generateRgIdKeyForRowgroup b info = Inr (meta_key_text ?t ?p)"
    using rg_key_text [OF assms(1,2)] by simp
  have s: "slot = partition_slot ?t ?p" by (simp add: assms(4) partition_slot_def)
  have "keyHashSlot rocks = slot" if "generateDataRocksKey b info row col = Inr rocks" for row col rocks
    using that k slots(3) [of ?g] s
    by (auto simp: generateDataRocksKey_def generateDataRocksKeySds_def generateDataKey_def sprintf_buf_def split: if_splits)
  then show ?thesis using k m slots(1,2) slots(3) [of ?g "[]"] s by simp
qed

theorem partition_one_slot_witness:
  "\<exists>key meta. generateDataKey (replicate DATA_KEY_MAX_SIZE NUL) sample_info = Inr key \<and>
     generateRgIdKeyForRowgroup (replicate DATA_KEY_MAX_SIZE NUL) sample_info = Inr meta \<and>
     keyHashSlot key = unat (crc16 ''100:1:25'') mod 16384 \<and> keyHashSlot meta = unat (crc16 ''100:1:25'') mod 16384"
proof -
  have l: "print_int (tableId sample_info) @ '':'' @ part_str (partitionInfo sample_info) = ''100:1:25''"
    "data_key_text (tableId sample_info) (part_str (partitionInfo sample_info)) (rowGroupId sample_info) =
      ''D:{100:1:25}:G:7''" by code_simp+
  have ok: "info_ok sample_info" by (simp add: info_ok_def sample_info_def is_int_def)
  show ?thesis
    using partition_one_slot [OF ok, of "replicate DATA_KEY_MAX_SIZE NUL", OF _ _ refl] unfolding l by auto
qed

section \<open>Routing\<close>

text \<open>The texts of the keys of a list of commands.\<close>

fun key_args :: "string list \<Rightarrow> int list \<Rightarrow> string list res" where
  "key_args argv [] = Inr []"
| "key_args argv (k # ks) =
     (if k < 0 then Inl OutOfBounds
      else bindr (arg argv (nat k)) (\<lambda>key. bindr (key_args argv ks) (\<lambda>keys. Inr (key # keys))))"

fun command_keys :: "multiCmd list \<Rightarrow> string list res" where
  "command_keys [] = Inr []"
| "command_keys ((cmd, argv) # cmds) =
     bindr (getKeysFromCommand cmd argv) (\<lambda>ks. bindr (key_args argv ks) (\<lambda>keys.
       bindr (command_keys cmds) (\<lambda>rest. Inr (keys @ rest))))"

text \<open>The two loops of \<open>getNodeByQuery\<close> as one loop over the keys.\<close>

fun walk_keys ::
  "'ps rocks_get \<Rightarrow> server \<Rightarrow> bool \<Rightarrow> cluster \<Rightarrow> string list \<Rightarrow> 'ps key_state \<Rightarrow>
   (redir \<times> 'ps redisDb + 'ps key_state) res" where
  "walk_keys rget srv reading cl [] st = Inr (Inr st)"
| "walk_keys rget srv reading cl (key # keys) st =
     (case (case first_seen st of None \<Rightarrow> first_key cl key st | Some seen \<Rightarrow> next_key seen key st) of
        Inl err \<Rightarrow> Inr (Inl (err, kdb st))
      | Inr st \<Rightarrow> bindr (count_missing rget srv reading key st) (\<lambda>st. walk_keys rget srv reading cl keys st))"

lemma walk_append:
  "walk_keys rget srv reading cl (xs @ ys) st =
     bindr (walk_keys rget srv reading cl xs st) (\<lambda>r. case r of Inl e \<Rightarrow> Inr (Inl e)
       | Inr st \<Rightarrow> walk_keys rget srv reading cl ys st)"
  by (induction xs arbitrary: st) (auto simp: bindr_assoc split: sum.splits intro!: bindr_cong)

lemma check_keys_walk:
  "key_args argv ks = Inr keys \<Longrightarrow> check_keys rget srv reading cl argv ks st = walk_keys rget srv reading cl keys st"
  by (induction ks arbitrary: st keys) (auto simp: bindr_eq_Inr split: if_splits sum.splits intro!: bindr_cong)

lemma check_commands_walk:
  "command_keys cmds = Inr keys \<Longrightarrow>
   check_commands rget srv reading cl cmds st = walk_keys rget srv reading cl keys st"
proof (induction cmds arbitrary: st keys)
  case (Cons c cmds)
  obtain cmd argv where c: "c = (cmd, argv)" by (cases c)
  with Cons.prems obtain ks key rest where k: "getKeysFromCommand cmd argv = Inr ks" "key_args argv ks = Inr key"
      "command_keys cmds = Inr rest" "keys = key @ rest" by (auto simp: bindr_eq_Inr)
  have "check_commands rget srv reading cl cmds = walk_keys rget srv reading cl rest"
    by (rule ext) (rule Cons.IH [OF k(3)])
  then show ?case by (simp add: c k(1,4) check_keys_walk [OF k(2)] walk_append)
qed simp

text \<open>Keys after the first, when the slot is neither migrating nor importing.\<close>

lemma walk_stable:
  assumes "first_seen st = Some seen" and "kslot st = keyHashSlot seen"
    and "\<not> migrating_slot st" and "\<not> importing_slot st"
  shows "walk_keys rget srv reading cl keys st =
    Inr (if \<forall>k \<in> set keys. keyHashSlot k = keyHashSlot seen
         then Inr (st\<lparr>multiple_keys := (multiple_keys st \<or> (\<exists>k \<in> set keys. k \<noteq> seen))\<rparr>)
         else Inl (REDIR_CROSS_SLOT, kdb st))"
  using assms
proof (induction keys arbitrary: st)
  case (Cons k keys)
  then show ?case by (auto simp: next_key_def count_missing_def)
qed simp

definition stable_slot :: "cluster \<Rightarrow> nat \<Rightarrow> bool" where
  "stable_slot cl slot \<longleftrightarrow> migrating_slots_to cl slot = None \<and> importing_slots_from cl slot = None"

definition query_commands :: "client \<Rightarrow> redisCommand \<Rightarrow> string list \<Rightarrow> multiCmd list" where
  "query_commands c cmd argv = (if proc cmd = ExecCommand then mstate c else [(cmd, argv)])"

lemma getNodeByQuery_walk:
  assumes "command_keys (query_commands c cmd argv) = Inr keys" and "proc cmd = ExecCommand \<longrightarrow> client_multi c"
  shows "getNodeByQuery rget srv c cmd argv cl db =
    bindr (walk_keys rget srv (cmd_readonly cmd) cl keys (start_keys db)) (\<lambda>r.
      case r of Inl (err, db) \<Rightarrow> Inr ((None, err, None), db) | Inr st \<Rightarrow> Inr (choose_node c cmd cl st, kdb st))"
  unfolding check_commands_walk [OF assms(1), symmetric] using assms(2)
  by (cases "proc cmd = ExecCommand") (simp_all add: getNodeByQuery_def query_commands_def)

lemma stable_slot_result:
  assumes "command_keys (query_commands c cmd argv) = Inr (key # keys)"
    and "proc cmd = ExecCommand \<longrightarrow> client_multi c"
    and "state_ok cl" and "stable_slot cl (keyHashSlot key)"
  shows "getNodeByQuery rget srv c cmd argv cl db =
    Inr (case slots cl (keyHashSlot key) of
           None \<Rightarrow> (None, REDIR_DOWN_UNBOUND, None)
         | Some n \<Rightarrow>
             if \<exists>k \<in> set keys. keyHashSlot k \<noteq> keyHashSlot key then (None, REDIR_CROSS_SLOT, None)
             else if n = myself cl \<or>
                  client_readonly c \<and> cmd_readonly cmd \<and> myself_slave cl \<and> myself_slaveof cl = Some n
             then (Some (myself cl), REDIR_NONE, Some (keyHashSlot key))
             else (Some n, REDIR_MOVED, Some (keyHashSlot key)), db)"
  unfolding getNodeByQuery_walk [OF assms(1,2)] using assms(3,4)
  by (cases "slots cl (keyHashSlot key)")
    (auto simp: start_keys_def first_key_def Let_def stable_slot_def count_missing_def walk_stable choose_node_def)

text \<open>
  C14. Routing in a stable slot. For a command, or the transaction that \<open>EXEC\<close> ends, whose first key
  is in a slot that is neither migrating nor importing, in a cluster that is up: the command is
  refused when no node serves the slot and when another of its keys has another slot; otherwise
  this node serves it exactly when it owns the slot, or is a replica of the owner and the client and
  the command are for reading only; and in all other cases the client is sent to the owner. The
  database does not change.
\<close>

theorem getNodeByQuery_stable:
  assumes "command_keys (query_commands c cmd argv) = Inr (key # keys)"
    and "proc cmd = ExecCommand \<longrightarrow> client_multi c"
    and "state_ok cl" and "stable_slot cl (keyHashSlot key)"
  shows "getNodeByQuery rget srv c cmd argv cl db =
    Inr (case slots cl (keyHashSlot key) of
           None \<Rightarrow> (None, REDIR_DOWN_UNBOUND, None)
         | Some n \<Rightarrow>
             if \<exists>k \<in> set keys. keyHashSlot k \<noteq> keyHashSlot key then (None, REDIR_CROSS_SLOT, None)
             else if n = myself cl \<or>
                  client_readonly c \<and> cmd_readonly cmd \<and> myself_slave cl \<and> myself_slaveof cl = Some n
             then (Some (myself cl), REDIR_NONE, Some (keyHashSlot key))
             else (Some n, REDIR_MOVED, Some (keyHashSlot key)), db)"
  by (rule stable_slot_result [OF assms])

text \<open>The entries of the command table, and a cluster in which another node owns all slots.\<close>

definition fpwrite_command :: redisCommand where
  "fpwrite_command =
     \<lparr>proc = OtherCommand, arity = - 3, cmd_readonly = False, cmd_asking = False, cmd_module = False,
      module_getkeys = None, getkeys_proc = NoGetKeys, firstkey = 1, lastkey = 1, keystep = 1\<rparr>"

definition fpscan_command :: redisCommand where
  "fpscan_command =
     \<lparr>proc = OtherCommand, arity = - 3, cmd_readonly = True, cmd_asking = False, cmd_module = False,
      module_getkeys = None, getkeys_proc = NoGetKeys, firstkey = 1, lastkey = 1, keystep = 1\<rparr>"

definition plain_client :: client where
  "plain_client = \<lparr>client_multi = False, client_asking = False, client_readonly = False, mstate = []\<rparr>"

lemma fpwrite_keys: "command_keys [(fpwrite_command, name # key # args)] = Inr [key]"
  by (simp add: fpwrite_command_def getKeysFromCommand_def getKeysUsingCommandTable_def arg_def)

lemma fpscan_keys: "command_keys [(fpscan_command, name # key # args)] = Inr [key]"
  by (simp add: fpscan_command_def getKeysFromCommand_def getKeysUsingCommandTable_def arg_def)

definition two_nodes :: cluster where
  "two_nodes =
     \<lparr>state_ok = True, myself = 0, myself_slave = False, myself_slaveof = None,
      slots = (\<lambda>slot. if slot < 16384 then Some 1 else None), migrating_slots_to = (\<lambda>_. None),
      importing_slots_from = (\<lambda>_. None), addr = (\<lambda>n. (''10.0.0.'' @ print_nat n, 7000))\<rparr>"

lemma sample_query:
  "command_keys (query_commands plain_client fpwrite_command [''FPWRITE'', key, ''1'', ''1'', ''1'', ''7'']) = Inr [key]"
  "proc fpwrite_command = ExecCommand \<longrightarrow> client_multi plain_client" "state_ok two_nodes" "stable_slot two_nodes slot"
  using fpwrite_keys [of "''FPWRITE''" key "[''1'', ''1'', ''1'', ''7'']"]
  by (simp_all add: query_commands_def fpwrite_command_def two_nodes_def stable_slot_def)

theorem getNodeByQuery_stable_witness:
  "getNodeByQuery (\<lambda>_ _. Some None) small_server plain_client fpwrite_command
     [''FPWRITE'', command_key 100 ''2:1'', ''1'', ''1'', ''1'', ''7''] two_nodes new_db =
   Inr ((Some 1, REDIR_MOVED, Some (keyHashSlot (command_key 100 ''2:1''))), new_db)"
  using getNodeByQuery_stable [OF sample_query] keyHashSlot_bound by (simp add: two_nodes_def fpwrite_command_def)

text \<open>What the loop leaves, whatever the state of the slot.\<close>

lemma count_missing_frame:
  "count_missing rget srv reading key st = Inr st' \<Longrightarrow>
   first_seen st' = first_seen st \<and> kslot st' = kslot st \<and> kn st' = kn st \<and>
   migrating_slot st' = migrating_slot st \<and> importing_slot st' = importing_slot st"
  by (auto simp: count_missing_def bindr_eq_Inr split: if_splits)

lemma walk_frame:
  assumes "walk_keys rget srv reading cl keys st = Inr (Inr st')"
    and "first_seen st = Some seen" and "kslot st = keyHashSlot seen"
  shows "(\<forall>k \<in> set keys. keyHashSlot k = keyHashSlot seen) \<and> kslot st' = kslot st \<and> kn st' = kn st \<and>
    migrating_slot st' = migrating_slot st \<and> importing_slot st' = importing_slot st"
  using assms
proof (induction keys arbitrary: st)
  case (Cons k keys)
  obtain st1 st2 where s: "next_key seen k st = Inr st1" "count_missing rget srv reading k st1 = Inr st2"
      "walk_keys rget srv reading cl keys st2 = Inr (Inr st')"
    using Cons.prems by (auto simp: bindr_eq_Inr split: sum.splits)
  from s(1) have 1: "keyHashSlot k = keyHashSlot seen" "first_seen st1 = first_seen st" "kslot st1 = kslot st"
      "kn st1 = kn st" "migrating_slot st1 = migrating_slot st" "importing_slot st1 = importing_slot st"
    using Cons.prems(3) by (auto simp: next_key_def split: if_splits)
  show ?case using Cons.IH [OF s(3)] Cons.prems(2,3) 1 count_missing_frame [OF s(2)] by simp
qed simp

text \<open>The outcomes of the decision after the loop.\<close>

lemma choose_node_outcomes:
  assumes "choose_node c cmd cl st = (Some n, err, hashslot)" and "kn st = Some ow"
    and "migrating_slot st \<longrightarrow> ow = myself cl"
  shows "hashslot = Some (kslot st) \<and> state_ok cl \<and>
    (err = REDIR_NONE \<and> n = myself cl \<and>
       (ow = myself cl \<or>
        importing_slot st \<and> (client_asking c \<or> cmd_asking cmd \<or> proc cmd = MigrateCommand) \<or>
        client_readonly c \<and> cmd_readonly cmd \<and> myself_slave cl \<and> myself_slaveof cl = Some ow) \<or>
     err = REDIR_MOVED \<and> n \<noteq> myself cl \<and> n = ow \<or>
     err = REDIR_ASK \<and> migrating_slot st \<and> migrating_slots_to cl (kslot st) = Some n)"
  using assms unfolding choose_node_def by (simp split: if_splits) blast+

text \<open>The loop starts with the owner of the slot of the first key.\<close>

lemma first_key_state:
  assumes "first_key cl key st = Inr st'"
  obtains ow where "slots cl (keyHashSlot key) = Some ow" "kn st' = Some ow" "first_seen st' = Some key"
    "kslot st' = keyHashSlot key"
    "migrating_slot st' \<longrightarrow> ow = myself cl" "importing_slot st' \<longrightarrow> importing_slots_from cl (keyHashSlot key) \<noteq> None"
proof (cases "slots cl (keyHashSlot key)")
  case (Some ow)
  then have e: "st' = st\<lparr>first_seen := Some key, kslot := keyHashSlot key, kn := Some ow,
      migrating_slot := (ow = myself cl \<and> migrating_slots_to cl (keyHashSlot key) \<noteq> None),
      importing_slot := (\<not> (ow = myself cl \<and> migrating_slots_to cl (keyHashSlot key) \<noteq> None) \<and>
        importing_slots_from cl (keyHashSlot key) \<noteq> None)\<rparr>"
    using assms by (simp add: first_key_def Let_def)
  show thesis by (rule that [OF Some]) (simp_all add: e)
next
  case None
  then show thesis using assms by (simp add: first_key_def)
qed

lemma walk_start:
  assumes "walk_keys rget srv reading cl (key # keys) (start_keys db) = Inr (Inr st)"
  obtains ow where "slots cl (keyHashSlot key) = Some ow" "kn st = Some ow" "kslot st = keyHashSlot key"
    "\<forall>k \<in> set keys. keyHashSlot k = keyHashSlot key" "migrating_slot st \<longrightarrow> ow = myself cl"
    "importing_slot st \<longrightarrow> importing_slots_from cl (keyHashSlot key) \<noteq> None"
proof -
  have "first_seen (start_keys db) = None" by (simp add: start_keys_def)
  then obtain s1 s2 where s: "first_key cl key (start_keys db) = Inr s1" "count_missing rget srv reading key s1 = Inr s2"
      "walk_keys rget srv reading cl keys s2 = Inr (Inr st)"
    using assms by (cases "first_key cl key (start_keys db)") (auto simp: bindr_eq_Inr)
  obtain ow where o: "slots cl (keyHashSlot key) = Some ow" "kn s1 = Some ow" "first_seen s1 = Some key"
      "kslot s1 = keyHashSlot key" "migrating_slot s1 \<longrightarrow> ow = myself cl"
      "importing_slot s1 \<longrightarrow> importing_slots_from cl (keyHashSlot key) \<noteq> None"
    by (rule first_key_state [OF s(1)])
  note f = count_missing_frame [OF s(2)]
  have "first_seen s2 = Some key" "kslot s2 = keyHashSlot key" using f o(3,4) by simp_all
  from that [OF o(1)] walk_frame [OF s(3) this] f o(2,4-6) show thesis by simp
qed

lemma getNodeByQuery_node:
  assumes "command_keys (query_commands c cmd argv) = Inr keys" and "proc cmd = ExecCommand \<longrightarrow> client_multi c"
    and "getNodeByQuery rget srv c cmd argv cl db = Inr ((Some n, err, hashslot), db')"
  obtains st where "walk_keys rget srv (cmd_readonly cmd) cl keys (start_keys db) = Inr (Inr st)"
    "choose_node c cmd cl st = (Some n, err, hashslot)"
proof (cases "walk_keys rget srv (cmd_readonly cmd) cl keys (start_keys db)")
  case (Inl e)
  then show thesis using assms(3) unfolding getNodeByQuery_walk [OF assms(1,2)] by simp
next
  case (Inr r)
  note e = assms(3) [unfolded getNodeByQuery_walk [OF assms(1,2)] Inr bindr_Inr]
  show thesis
  proof (cases r)
    case (Inl x)
    then show thesis using e by (cases x) simp
  next
    case (Inr st)
    show thesis
    proof (rule that)
      show "walk_keys rget srv (cmd_readonly cmd) cl keys (start_keys db) = Inr (Inr st)"
        using \<open>walk_keys rget srv (cmd_readonly cmd) cl keys (start_keys db) = Inr r\<close> Inr by (rule subst [rotated])
      show "choose_node c cmd cl st = (Some n, err, hashslot)" using e Inr by simp
    qed
  qed
qed

text \<open>
  C13. Routing is safe in every state of the cluster. When a command with keys is given to a node, all
  its keys have one slot and the cluster is up; and the node is this one because it owns the slot,
  is importing it for a client that asked or for \<open>MIGRATE\<close>, or is a replica of the owner read by a
  read-only client; or it is the owner, another node, with \<open>MOVED\<close>; or it is the node to which this
  one is migrating the slot, with \<open>ASK\<close>. There is no other outcome, so a redirection always names a
  node and a slot.
\<close>

theorem getNodeByQuery_safe:
  assumes "command_keys (query_commands c cmd argv) = Inr (key # keys)"
    and "proc cmd = ExecCommand \<longrightarrow> client_multi c"
    and "getNodeByQuery rget srv c cmd argv cl db = Inr ((Some n, err, hashslot), db')"
  shows "hashslot = Some (keyHashSlot key) \<and> state_ok cl \<and> (\<forall>k \<in> set keys. keyHashSlot k = keyHashSlot key) \<and>
    (err = REDIR_NONE \<and> n = myself cl \<and>
       (slots cl (keyHashSlot key) = Some (myself cl) \<or>
        importing_slots_from cl (keyHashSlot key) \<noteq> None \<and>
          (client_asking c \<or> cmd_asking cmd \<or> proc cmd = MigrateCommand) \<or>
        client_readonly c \<and> cmd_readonly cmd \<and> myself_slave cl \<and>
          slots cl (keyHashSlot key) = myself_slaveof cl) \<or>
     err = REDIR_MOVED \<and> n \<noteq> myself cl \<and> slots cl (keyHashSlot key) = Some n \<or>
     err = REDIR_ASK \<and> slots cl (keyHashSlot key) = Some (myself cl) \<and>
       migrating_slots_to cl (keyHashSlot key) = Some n)"
proof -
  obtain st where st: "walk_keys rget srv (cmd_readonly cmd) cl (key # keys) (start_keys db) = Inr (Inr st)"
      "choose_node c cmd cl st = (Some n, err, hashslot)"
    by (rule getNodeByQuery_node [OF assms])
  obtain ow where o: "slots cl (keyHashSlot key) = Some ow" "kn st = Some ow" "kslot st = keyHashSlot key"
      "\<forall>k \<in> set keys. keyHashSlot k = keyHashSlot key" "migrating_slot st \<longrightarrow> ow = myself cl"
      "importing_slot st \<longrightarrow> importing_slots_from cl (keyHashSlot key) \<noteq> None"
    by (rule walk_start [OF st(1)])
  show ?thesis
    using choose_node_outcomes [OF st(2) o(2,5)] o(4-6) unfolding o(1,3) by fastforce
qed

theorem getNodeByQuery_safe_witness:
  "getNodeByQuery (\<lambda>_ _. Some None) small_server plain_client fpwrite_command
     [''FPWRITE'', command_key 100 ''2:1'', ''1'', ''1'', ''1'', ''7''] two_nodes new_db =
       Inr ((Some 1, REDIR_MOVED, Some (keyHashSlot (command_key 100 ''2:1''))), new_db) \<and>
   slots two_nodes (keyHashSlot (command_key 100 ''2:1'')) = Some 1 \<and> 1 \<noteq> myself two_nodes"
proof -
  have r: "getNodeByQuery (\<lambda>_ _. Some None) small_server plain_client fpwrite_command
      [''FPWRITE'', command_key 100 ''2:1'', ''1'', ''1'', ''1'', ''7''] two_nodes new_db =
      Inr ((Some 1, REDIR_MOVED, Some (keyHashSlot (command_key 100 ''2:1''))), new_db)"
    using stable_slot_result [OF sample_query] keyHashSlot_bound by (simp add: two_nodes_def fpwrite_command_def)
  from getNodeByQuery_safe [OF sample_query(1,2) r] r show ?thesis by simp
qed

section \<open>The positions of the keys\<close>

text \<open>The arity test of \<open>processCommand\<close>.\<close>

definition arity_ok :: "redisCommand \<Rightarrow> nat \<Rightarrow> bool" where
  "arity_ok cmd argc \<longleftrightarrow> \<not> (0 < arity cmd \<and> arity cmd \<noteq> int argc \<or> int argc < - arity cmd)"

text \<open>
  An entry of the command table whose positions agree with its arity: the functions for the keys
  with the arity of the commands that name them, and the ranges of positions inside the arguments
  that the arity asks for.
\<close>

definition table_entry_ok :: "redisCommand \<Rightarrow> bool" where
  "table_entry_ok cmd \<longleftrightarrow> module_getkeys cmd = None \<and> \<not> cmd_module cmd \<and>
     (case getkeys_proc cmd of
        NoGetKeys \<Rightarrow> firstkey cmd = 0 \<or>
          1 \<le> firstkey cmd \<and> 0 < keystep cmd \<and>
          (if lastkey cmd < 0 then firstkey cmd \<le> \<bar>arity cmd\<bar> + lastkey cmd
           else firstkey cmd \<le> lastkey cmd \<and> lastkey cmd < \<bar>arity cmd\<bar>)
      | ZunionInterGetKeys \<Rightarrow> arity cmd = - 4
      | EvalGetKeys \<Rightarrow> arity cmd = - 3
      | SortGetKeys \<Rightarrow> arity cmd = - 2
      | MigrateGetKeys \<Rightarrow> arity cmd = - 6
      | GeoradiusGetKeys \<Rightarrow> arity cmd = - 6 \<or> arity cmd = - 5)"

lemma table_keys_range:
  assumes "1 \<le> j" and "0 < step" and "lst < argc"
  shows "\<exists>ks. table_keys m argc j lst step = Inr (Some ks) \<and> (\<forall>k \<in> set ks. 1 \<le> k \<and> k < argc)"
  using assms
proof (induction m argc j lst step rule: table_keys.induct)
  case (1 m argc j lst step)
  show ?case
  proof (cases "j > lst")
    case False
    then obtain ks where "table_keys m argc (j + step) lst step = Inr (Some ks)" "\<forall>k \<in> set ks. 1 \<le> k \<and> k < argc"
      using 1 by fastforce
    with False 1 show ?thesis by (subst table_keys.simps) simp
  qed (simp add: table_keys.simps)
qed

lemma command_table_range:
  assumes "table_entry_ok cmd" and "getkeys_proc cmd = NoGetKeys" and "arity_ok cmd argc"
  shows "\<exists>ks. getKeysUsingCommandTable cmd (int argc) = Inr ks \<and> (\<forall>k \<in> set ks. 1 \<le> k \<and> k < int argc)"
proof (cases "firstkey cmd = 0")
  case False
  define lst where "lst = (if lastkey cmd < 0 then int argc + lastkey cmd else lastkey cmd)"
  have "1 \<le> firstkey cmd" "0 < keystep cmd" "firstkey cmd \<le> lst" "lst < int argc"
    using assms False by (auto simp: table_entry_ok_def arity_ok_def lst_def split: if_splits)
  moreover from this obtain ks where "table_keys (cmd_module cmd) (int argc) (firstkey cmd) lst (keystep cmd) = Inr (Some ks)"
      "\<forall>k \<in> set ks. 1 \<le> k \<and> k < int argc"
    using table_keys_range by blast
  ultimately show ?thesis using False by (simp add: getKeysUsingCommandTable_def lst_def [symmetric] Let_def)
qed (simp add: getKeysUsingCommandTable_def)

lemma sort_option_store:
  "i < length argv \<Longrightarrow> (\<forall>k. store = Some k \<longrightarrow> 1 \<le> k \<and> k < length argv) \<Longrightarrow>
   snd (sort_option argv skiplist i store) = Some k \<Longrightarrow> 1 \<le> k \<and> k < length argv"
  by (induction argv skiplist i store rule: sort_option.induct) (auto split: if_splits)

lemma sort_store_range:
  "(\<forall>k. store = Some k \<longrightarrow> 1 \<le> k \<and> k < length argv) \<Longrightarrow> sort_store argv i store = Some k \<Longrightarrow>
   1 \<le> k \<and> k < length argv"
proof (induction argv i store rule: sort_store.induct)
  case (1 argv i store)
  show ?case
  proof (cases "i < length argv")
    case True
    have "\<forall>k. snd (sort_option argv sort_skiplist i store) = Some k \<longrightarrow> 1 \<le> k \<and> k < length argv"
      using sort_option_store [OF True 1(2)] by blast
    from 1(1) [OF True refl this] show ?thesis
      using 1(3) True unfolding sort_store.simps [of argv i store] by (simp add: Let_def)
  next
    case False
    then show ?thesis using 1(2,3) unfolding sort_store.simps [of argv i store] by simp
  qed
qed

lemma georadius_store_range:
  "(\<forall>k. store = Some k \<longrightarrow> 1 \<le> k \<and> k < length argv) \<Longrightarrow> georadius_store argv i store = Some k \<Longrightarrow>
   1 \<le> k \<and> k < length argv"
proof (induction argv i store rule: georadius_store.induct)
  case (1 argv i store)
  show ?case
    using 1(4) 1(1-3) unfolding georadius_store.simps [of argv i store] by (auto split: if_splits)
qed

lemma migrate_option_range: "migrate_keys_option argv is = Some i \<Longrightarrow> i \<in> set is"
  by (induction argv "is" rule: migrate_keys_option.induct) (auto split: if_splits)

text \<open>
  C22. The positions that a command reports as its keys are arguments of the command. For every entry
  of the command table whose positions agree with its arity and every argument list of that arity,
  whichever of the functions for the keys applies, each position lies behind the name of the command
  and before the end of the arguments. The only fault is the one of the commands that take a number of
  keys: a negative number.
\<close>

theorem getKeysFromCommand_range:
  assumes "table_entry_ok cmd" and "arity_ok cmd (length argv)"
  shows "case getKeysFromCommand cmd argv of
      Inr ks \<Rightarrow> \<forall>k \<in> set ks. 1 \<le> k \<and> k < int (length argv)
    | Inl f \<Rightarrow> getkeys_proc cmd \<in> {ZunionInterGetKeys, EvalGetKeys} \<and> atoi (argv ! 2) < 0"
proof -
  have g: "module_getkeys cmd = None" "\<not> cmd_module cmd" using assms(1) by (simp_all add: table_entry_ok_def)
  show ?thesis
  proof (cases "getkeys_proc cmd")
    case NoGetKeys
    then show ?thesis using command_table_range [OF assms(1) NoGetKeys assms(2)] g by (auto simp: getKeysFromCommand_def)
  next
    case ZunionInterGetKeys
    then have "4 \<le> length argv" using assms by (auto simp: table_entry_ok_def arity_ok_def)
    then show ?thesis
      using g ZunionInterGetKeys by (auto simp: getKeysFromCommand_def zunionInterGetKeys_def arg_def Let_def)
  next
    case EvalGetKeys
    then have "3 \<le> length argv" using assms by (auto simp: table_entry_ok_def arity_ok_def)
    then show ?thesis using g EvalGetKeys by (auto simp: getKeysFromCommand_def evalGetKeys_def arg_def Let_def)
  next
    case SortGetKeys
    then have "2 \<le> length argv" using assms by (auto simp: table_entry_ok_def arity_ok_def)
    then show ?thesis
      using g SortGetKeys sort_store_range [of None argv 2]
      by (auto simp: getKeysFromCommand_def sortGetKeys_def split: option.splits)
  next
    case MigrateGetKeys
    then have "6 \<le> length argv" using assms by (auto simp: table_entry_ok_def arity_ok_def)
    then show ?thesis
      using g MigrateGetKeys migrate_option_range [of argv "[6..<length argv]"]
      by (auto simp: getKeysFromCommand_def migrateGetKeys_def Let_def split: option.splits)
  next
    case GeoradiusGetKeys
    then have "5 \<le> length argv" using assms by (auto simp: table_entry_ok_def arity_ok_def)
    then show ?thesis
      using g GeoradiusGetKeys georadius_store_range [of None argv 5]
      by (auto simp: getKeysFromCommand_def georadiusGetKeys_def split: option.splits)
  qed
qed

text \<open>\<open>SORT list BY weight STORE result\<close>: the key of \<open>BY\<close> is skipped.\<close>

definition sort_command :: redisCommand where
  "sort_command =
     \<lparr>proc = OtherCommand, arity = - 2, cmd_readonly = False, cmd_asking = False, cmd_module = False,
      module_getkeys = None, getkeys_proc = SortGetKeys, firstkey = 1, lastkey = 1, keystep = 1\<rparr>"

theorem getKeysFromCommand_range_witness:
  "getKeysFromCommand sort_command [''SORT'', ''list'', ''by'', ''store'', ''store'', ''result''] = Inr [1, 5] \<and>
   5 < int (length [''SORT'', ''list'', ''by'', ''store'', ''store'', ''result''])"
proof -
  let ?argv = "[''SORT'', ''list'', ''by'', ''store'', ''store'', ''result'']"
  have "table_entry_ok sort_command" "arity_ok sort_command (length ?argv)"
    by (simp_all add: table_entry_ok_def sort_command_def arity_ok_def)
  note r = getKeysFromCommand_range [OF this]
  have "getKeysFromCommand sort_command ?argv = Inr [1, 5]" by code_simp
  with r show ?thesis by simp
qed

definition test_command :: redisCommand where
  "test_command =
     \<lparr>proc = OtherCommand, arity = - 1, cmd_readonly = True, cmd_asking = False, cmd_module = False,
      module_getkeys = None, getkeys_proc = NoGetKeys, firstkey = 1, lastkey = 1, keystep = 1\<rparr>"

text \<open>
  A command whose entry asks for no arguments but names a key stops a node of a cluster. The
  test commands of the command table have arity minus one and their first key at position one: the
  name of the command alone passes the arity test, and the search for its keys panics.
\<close>

theorem test_command_panics:
  "arity_ok test_command (length [name]) \<and>
   cluster_redirection rget srv c test_command [name] cl db = Inl ServerPanic"
  by (simp add: arity_ok_def test_command_def cluster_redirection_def getNodeByQuery_def getKeysFromCommand_def
    getKeysUsingCommandTable_def)

section \<open>Slots that migrate\<close>

lemma lookupKeyRead_missing:
  assumes "map_of (expires db) key = None" and "map_of (ddict db) key = None"
  shows "lookupKeyRead rget srv reading db key = Inr (None, db)"
  using assms by (simp add: lookupKeyRead_def lookupKeyReadWithFlags_def expireIfNeeded_def getExpire_def lookupKey_def)

lemma migrating_key_missing:
  assumes "command_keys (query_commands c cmd argv) = Inr [key]" and "proc cmd = OtherCommand" and "state_ok cl"
    and "slots cl (keyHashSlot key) = Some (myself cl)" and "migrating_slots_to cl (keyHashSlot key) = Some n"
    and "map_of (expires db) key = None" and "map_of (ddict db) key = None"
  shows "getNodeByQuery rget srv c cmd argv cl db = Inr ((Some n, REDIR_ASK, Some (keyHashSlot key)), db)"
proof -
  have "proc cmd = ExecCommand \<longrightarrow> client_multi c" using assms(2) by simp
  from getNodeByQuery_walk [OF assms(1) this, of rget srv cl db] assms(2-5) lookupKeyRead_missing [OF assms(6,7)]
  show ?thesis by (simp add: start_keys_def first_key_def count_missing_def choose_node_def)
qed

end
