(* ===== verification/TableCmd.thy ===== *)
theory TableCmd
  imports Flush
begin

text \<open>
  The maintenance commands of tables (\<open>src/src/addb_table.c\<close>): \<open>FIELDS\<close>, \<open>ROCKSKEY\<close>,
  \<open>QUEUESTATUS\<close>, \<open>DEQUEUEENTRY\<close>, \<open>EVICTBESTKEY\<close>, \<open>EMPTYQUEUE\<close>, \<open>CVSERIAL\<close> and \<open>CVDESERIAL\<close>. They
  show and change what the relational layer keeps in memory, in its queues and in the persistent
  store. What \<open>ROCKSKEY\<close> writes \<open>CVDESERIAL\<close> is shown to read back, and the listing of a queue is
  characterised.
\<close>

section \<open>Definitions\<close>

datatype table_reply = TableOk | TableErr | TableNull | TableBulks "string list"

text \<open>\<open>sprintf\<close> to the buffer of 1024 bytes on the stack of a command.\<close>

definition sprintf_str_buf :: "string \<Rightarrow> string res" where
  "sprintf_str_buf s = (if length s < 1024 then Inr s else Inl OutOfBounds)"

fun sprintf_all :: "string list \<Rightarrow> string list res" where
  "sprintf_all [] = Inr []"
| "sprintf_all (s # ss) =
     bindr (sprintf_str_buf s) (\<lambda>s. bindr (sprintf_all ss) (\<lambda>ss. Inr (s # ss)))"

text \<open>The loops over a vector take its count as an \<open>int\<close>.\<close>

definition vector_indices :: "'a vector \<Rightarrow> nat list" where
  "vector_indices v = [0..<nat (c_int (int (vcount v)))]"

text \<open>The elements at the given indices, as the lines of the reply.\<close>

fun vector_lines :: "(nat \<Rightarrow> string \<Rightarrow> string) \<Rightarrow> string vector \<Rightarrow> nat list \<Rightarrow> string list res" where
  "vector_lines f v [] = Inr []"
| "vector_lines f v (j # js) =
     bindr (bindr (vectorGet v j) deref) (\<lambda>s.
       bindr (sprintf_str_buf (f j (cstr s))) (\<lambda>line.
         bindr (vector_lines f v js) (\<lambda>rest. Inr (line # rest))))"

definition fieldsAndValueCommand :: "'ps redisDb \<Rightarrow> string list \<Rightarrow> table_reply res" where
  "fieldsAndValueCommand db argv =
     (let pattern = cstr (argv ! 1); vector_id = atoi (argv ! 2); column = atoi (argv ! 3)
      in case lookupSDSKeyFordict db pattern of
           None \<Rightarrow> Inr TableNull
         | Some hashdict \<Rightarrow>
             bindr (relation_of hashdict) (\<lambda>r.
               let dataField = getDataField vector_id column
               in case map_of r dataField of
                    None \<Rightarrow> Inr (TableBulks [])
                  | Some v \<Rightarrow>
                      bindr (vector_lines (\<lambda>j s. ''field : '' @ dataField @ '', value : '' @ s) v (vector_indices v))
                        (\<lambda>ls. Inr (TableBulks ls))))"

definition rocksdbkeyCommand :: "'ps rocks_write \<Rightarrow> 'ps redisDb \<Rightarrow> string list \<Rightarrow> (table_reply \<times> 'ps redisDb) res" where
  "rocksdbkeyCommand rwrite db argv =
     (let pattern = cstr (argv ! 1)
      in bindr (deref (lookupSDSKeyFordict db pattern)) (\<lambda>hashdict.
           bindr (prepareWriteToRocksDB rwrite db pattern hashdict) (\<lambda>db. Inr (TableOk, db))))"

text \<open>
  The listing of the eviction queue: the loop runs from the rear to the front and never returns to
  the start of the buffer, which ends the recursion.
\<close>

definition status_lines :: "'ps redisDb \<Rightarrow> nat \<Rightarrow> nat \<Rightarrow> string list res" where
  "status_lines db idx a =
     bindr (entry_of db a) (\<lambda>(key, value).
       bindr (relation_of value) (\<lambda>r.
         sprintf_all (map (\<lambda>(field_key, _). ''[Rear : '' @ print_nat (rear (EvictQueue db)) @ '', Front : '' @
           print_nat (front (EvictQueue db)) @ '', idx : '' @ print_nat idx @ '']DataKey : '' @ cstr key @
           '' Field : '' @ cstr field_key @ '' ]'') r)))"

function queue_status_loop :: "'ps redisDb \<Rightarrow> nat \<Rightarrow> nat \<Rightarrow> string list res" where
  "queue_status_loop db idx end_idx =
     (if idx = end_idx then Inr []
      else if length (buf (EvictQueue db)) \<le> idx then Inl OutOfBounds
      else bindr (bindr (buf_get (EvictQueue db) idx) deref) (\<lambda>a.
        bindr (status_lines db idx a) (\<lambda>ls.
          bindr (queue_status_loop db (idx + 1) end_idx) (\<lambda>rest. Inr (ls @ rest)))))"
  by pat_completeness auto
termination by (relation "measure (\<lambda>(db, idx, end_idx). length (buf (EvictQueue db)) - idx)") auto

declare queue_status_loop.simps [simp del]

definition empty_line :: "'ps redisDb \<Rightarrow> string" where
  "empty_line db = ''Queue is empty, front : '' @ print_nat (front (EvictQueue db)) @ '', rear : '' @
     print_nat (rear (EvictQueue db))"

definition getQueueStatusCommand :: "'ps redisDb \<Rightarrow> table_reply res" where
  "getQueueStatusCommand db =
     (let q = EvictQueue db
      in if front q = rear q then Inr (TableBulks [empty_line db])
         else bindr (queue_status_loop db (rear q) (front q)) (\<lambda>ls. Inr (TableBulks ls)))"

definition dequeueCommand :: "'ps redisDb \<Rightarrow> (table_reply \<times> 'ps redisDb) res" where
  "dequeueCommand db =
     bindr (dequeue (db_heap db) (EvictQueue db)) (\<lambda>(de, q).
       Inr (if de = None then TableErr else TableOk, db\<lparr>EvictQueue := q\<rparr>))"

text \<open>
  The reply of \<open>EVICTBESTKEY\<close>; the branch without an entry leaves the reply without its length and
  is the last one.
\<close>

definition chooseBestKeyCommand :: "'ps redisDb \<Rightarrow> (table_reply option \<times> 'ps redisDb) res" where
  "chooseBestKeyCommand db =
     (let q = EvictQueue db
      in if front q = rear q then Inr (Some (TableBulks [empty_line db]), db)
         else
           bindr (chooseBestKeyFromQueue (db_heap db) q) (\<lambda>(de, q).
             case de of
               Some a \<Rightarrow>
                 bindr (entry_of db a) (\<lambda>(key, value).
                   bindr (relation_of value) (\<lambda>r.
                     bindr (sprintf_all (map (\<lambda>(field_key, _). ''[Rear : '' @ print_nat (rear q) @ '']DataKey : '' @
                         cstr key @ '' Field : '' @ cstr field_key @ '' ]'') r)) (\<lambda>ls.
                       Inr (Some (TableBulks ls), db\<lparr>EvictQueue := q\<rparr>))))
             | None \<Rightarrow> Inr (None, db\<lparr>EvictQueue := q\<rparr>)))"

definition queueEmptyCommand :: "'ps redisDb list \<Rightarrow> (table_reply \<times> 'ps redisDb list) res" where
  "queueEmptyCommand dbs = bindr (init_all dbs) (\<lambda>dbs. Inr (TableOk, dbs))"

text \<open>
  \<open>CVSERIAL\<close> builds the text of each vector as \<open>vectorSerialize\<close> does, without its checks. After the
  loop it releases the copy of its argument twice, the second time as an object.
\<close>

fun elements_from :: "string vector \<Rightarrow> nat list \<Rightarrow> string list res" where
  "elements_from v [] = Inr []"
| "elements_from v (i # is) =
     bindr (bindr (vectorGet v i) deref) (\<lambda>s. bindr (elements_from v is) (\<lambda>rest. Inr (s # rest)))"

fun serialize_lines :: "string \<Rightarrow> relation \<Rightarrow> string list res" where
  "serialize_lines pattern [] = Inr []"
| "serialize_lines pattern ((key, v) # r) =
     bindr (elements_from v (vector_indices v)) (\<lambda>es.
       bindr (sprintf_str_buf (''Datakey : '' @ pattern @ '', Field : '' @ cstr key @ '', SerializeVector : '' @
           cstr (''V:{T:'' @ print_int (int (vtype v)) @ '':N:'' @ print_int (c_int (int (vcount v))) @ ''}:D:['' @ join '':'' es @ '']'')))
         (\<lambda>line. bindr (serialize_lines pattern r) (\<lambda>rest. Inr (line # rest))))"

definition serializeCommand :: "'ps redisDb \<Rightarrow> string list \<Rightarrow> table_reply res" where
  "serializeCommand db argv =
     (let pattern = cstr (argv ! 1)
      in case lookupSDSKeyFordict db pattern of
           None \<Rightarrow> Inr TableNull
         | Some hashdict \<Rightarrow>
             bindr (relation_of hashdict) (\<lambda>r.
               bindr (serialize_lines pattern r) (\<lambda>ls. Inl UseAfterFree)))"

text \<open>An error of the store is not told from a missing key.\<close>

definition deserializeCommand :: "'ps rocks_get \<Rightarrow> 'ps redisDb \<Rightarrow> string list \<Rightarrow> table_reply res" where
  "deserializeCommand rget db argv =
     (let pattern = cstr (argv ! 1)
      in case rget (persistent_store db) pattern of
           None \<Rightarrow> Inr TableErr
         | Some None \<Rightarrow> Inr TableErr
         | Some (Some raw) \<Rightarrow>
             bindr (VectordeSerialize (Some raw)) (\<lambda>v.
               bindr (vector_lines (\<lambda>i s. ''VECTOR['' @ print_nat i @ ''], Value : '' @ s) v (vector_indices v))
                 (\<lambda>ls. bindr (vectorFreeDeep v) (\<lambda>_. Inr (TableBulks ls)))))"

section \<open>Reading back what was written\<close>

lemma vector_indices_ok: "vok v xs \<Longrightarrow> int (length xs) \<le> INT_MAX \<Longrightarrow> vector_indices v = [0..<length xs]"
  by (simp add: vector_indices_def vok_count c_int_id is_int_def)

lemma vector_lines_ok:
  assumes "vok v (map Some es)" and "\<forall>j \<in> set js. j < length es \<and> length (f j (cstr (es ! j))) < 1024"
  shows "vector_lines f v js = Inr (map (\<lambda>j. f j (cstr (es ! j))) js)"
  using assms(2) by (induction js) (auto simp: vok_get [OF assms(1)] sprintf_str_buf_def)

text \<open>The deprecated parser reads a text of two or more plain elements that fits its buffer.\<close>

lemma VectordeSerialize_text:
  assumes "vok v (map Some es)" and "int (length es) \<le> INT_MAX" and "\<forall>e \<in> set es. plain e" and "1 < length es"
    and "length (col_text (int (vtype v)) es) < 1024"
  shows "\<exists>v'. VectordeSerialize (Some (col_text (int (vtype v)) es @ [NUL])) = Inr v' \<and> vok v' (map Some es)"
proof -
  let ?ty = "int (vtype v)" and ?n = "int (length es)"
  have ty: "is_int ?ty" "nat (?ty mod 4) = vtype v" using assms(1) by (auto simp: vok_def is_int_def)
  obtain v' where l: "deserialize_loop 0 ?n (''D:['' @ join '':'' es @ '']'')
      (vectorTypeInitWithSize ?ty (length es)) = Inr (True, v')" "vok v' (map Some es)"
    using deserialize_loop_text [OF assms(3,4), of 0 "vectorTypeInitWithSize ?ty (length es)"]
      vok_initWithSize [where 'a = string and t = ?ty and sz = "length es"] assms(4)
    by (fastforce split: if_splits)
  have "cstr (col_text ?ty es @ [NUL]) = col_text ?ty es"
    using cstr_col_text [OF assms(3), of ?ty] by (simp add: cstr_def takeWhile_append)
  then show ?thesis
    using deserialize_col_text [OF ty(1) assms(2,3)] l assms(4,5) by (simp add: VectordeSerialize_def)
qed

lemma relation_puts_keys:
  "relation_puts key r = Inr puts \<Longrightarrow> map fst puts = map (\<lambda>(f, _). cstr key @ '':F:'' @ cstr f) r"
  by (induction key r arbitrary: puts rule: relation_puts.induct)
    (auto simp: bindr_eq_Inr field_put_def Let_def split: if_splits)

lemma relation_puts_member:
  "relation_puts key r = Inr puts \<Longrightarrow> (f, vec) \<in> set r \<Longrightarrow> \<exists>p. field_put key f vec = Inr p \<and> p \<in> set puts"
proof (induction r arbitrary: puts)
  case (Cons x r)
  obtain g w where x: "x = (g, w)" by (cases x)
  with Cons.prems obtain p ps where p: "field_put key g w = Inr p" "relation_puts key r = Inr ps" "puts = p # ps"
    by (auto simp: bindr_eq_Inr)
  show ?case using Cons.IH [OF p(2)] Cons.prems(2) p x by (cases p) auto
qed simp

lemma join_element: "e \<in> set es \<Longrightarrow> length e \<le> length (join '':'' es)"
proof (induction es)
  case (Cons x es)
  then show ?case by (cases es) (auto simp: join_Cons)
qed simp

lemma join_plain_length:
  assumes "\<forall>e \<in> set es. plain e"
  shows "length es \<le> length (join '':'' es)"
  using assms
proof (induction es)
  case (Cons x es)
  have "x \<noteq> []" using Cons.prems by (simp add: plain_def)
  then have "1 \<le> length x" by (cases x) simp_all
  with Cons show ?case by (cases es) (auto simp: join_Cons)
qed simp

lemma print_nat_short:
  assumes "n < 1000"
  shows "length (print_nat n) \<le> 3"
proof (cases "n < 10")
  case False
  then have 1: "print_nat n = print_nat (n div 10) @ [digit_char (n mod 10)]" by (simp add: print_nat_big)
  show ?thesis
  proof (cases "n div 10 < 10")
    case False
    moreover have "n div 10 div 10 < 10" using assms by simp
    ultimately show ?thesis by (simp add: 1 print_nat_big [of "n div 10"] print_nat_small)
  qed (simp add: 1 print_nat_small)
qed (simp add: print_nat_small)

lemma relation_puts_lookup:
  assumes "relation_puts key r = Inr puts" and "distinct (map fst r)" and "\<forall>(f, _) \<in> set r. NUL \<notin> set f"
    and "NUL \<notin> set key" and "map_of r fld = Some vec" and "vectorSerialize vec = Inr text"
  shows "map_of (rev puts) (key @ '':F:'' @ fld) = Some (cstr text @ [NUL])"
proof -
  have "distinct (map (\<lambda>(f, _). cstr key @ '':F:'' @ cstr f) r)"
    using assms(2,3) by (induction r) (auto simp: cstr_id, force simp: cstr_id)
  then have d: "distinct (map fst (rev puts))"
    unfolding rev_map [symmetric] distinct_rev relation_puts_keys [OF assms(1)] .
  have m: "(fld, vec) \<in> set r" by (rule map_of_SomeD [OF assms(5)])
  then have "cstr fld = fld" "cstr key = key" using assms(3,4) by (auto intro!: cstr_id)
  with relation_puts_member [OF assms(1) m] assms(6) have "(key @ '':F:'' @ fld, cstr text @ [NUL]) \<in> set (rev puts)"
    by (auto simp: field_put_def Let_def split: if_splits)
  with d show ?thesis by (simp add: map_of_eq_Some_iff)
qed

text \<open>
  C24. What \<open>ROCKSKEY\<close> writes \<open>CVDESERIAL\<close> reads back. After \<open>ROCKSKEY\<close> of a row group, \<open>CVDESERIAL\<close> of the
  key of one of its column vectors answers with the elements of the vector in order, when the vector
  has two or more plain elements whose text fits the buffer of the parser: through the text form, the
  write batch and the store.
\<close>

theorem rockskey_cvdeserial:
  assumes "kv_laws rget rwrite" and "rocksdbkeyCommand rwrite db [name, key] = Inr (TableOk, db')"
    and "map_of (ddict db) key = Some (a, obj)" and "val obj = HashObj (OBJ_ENCODING_REL r)"
    and "distinct (map fst r)" and "\<forall>(f, _) \<in> set r. NUL \<notin> set f" and "NUL \<notin> set key"
    and "map_of r fld = Some vec" and "vok vec (map Some es)" and "\<forall>e \<in> set es. plain e" and "1 < length es"
    and "length (col_text (int (vtype vec)) es) \<le> 1000"
  shows "deserializeCommand rget db' [name', key @ '':F:'' @ fld] =
    Inr (TableBulks (map (\<lambda>i. ''VECTOR['' @ print_nat i @ ''], Value : '' @ es ! i) [0..<length es]))"
proof -
  let ?text = "col_text (int (vtype vec)) es"
  have jl: "length (join '':'' es) \<le> 1000" using assms(12) by (simp add: col_text_def)
  have n: "length es \<le> 1000" using join_plain_length [OF assms(10)] jl by simp
  then have i: "int (length es) \<le> INT_MAX" by simp
  have "NUL \<notin> set fld" using assms(6) map_of_SomeD [OF assms(8)] by auto
  with assms(7) have ck: "cstr key = key" "cstr (key @ '':F:'' @ fld) = key @ '':F:'' @ fld"
    by (auto intro!: cstr_id)
  obtain puts st where w: "relation_puts key r = Inr puts" "rwrite (persistent_store db) puts = Some st"
      "db' = db\<lparr>persistent_store := st\<rparr>"
    using assms(2-4) ck(1)
    by (auto simp: rocksdbkeyCommand_def Let_def lookupSDSKeyFordict_def prepareWriteToRocksDB_def relation_of_def
      rocks_write_def bindr_eq_Inr split: option.splits)
  have "map_of (rev puts) (key @ '':F:'' @ fld) = Some (?text @ [NUL])"
    using relation_puts_lookup [OF w(1) assms(5-8) vectorSerialize_layout [OF assms(9) i]] cstr_col_text [OF assms(10)] by simp
  then have g: "rget (persistent_store db') (key @ '':F:'' @ fld) = Some (Some (?text @ [NUL]))"
    using assms(1) w(2,3) unfolding kv_laws_def by fastforce
  obtain v' where v: "VectordeSerialize (Some (?text @ [NUL])) = Inr v'" "vok v' (map Some es)"
    using VectordeSerialize_text [OF assms(9) i assms(10,11)] assms(12) by auto
  have c: "cstr (es ! j) = es ! j" if "j < length es" for j
    using assms(10) nth_mem [OF that] by (auto simp: plain_def intro!: cstr_id)
  have "length (''VECTOR['' @ print_nat j @ ''], Value : '' @ cstr (es ! j)) < 1024" if "j < length es" for j
    using print_nat_short [of j] that n join_element [OF nth_mem [OF that]] jl c [OF that] by simp
  then have "vector_lines (\<lambda>i s. ''VECTOR['' @ print_nat i @ ''], Value : '' @ s) v' (vector_indices v') =
      Inr (map (\<lambda>i. ''VECTOR['' @ print_nat i @ ''], Value : '' @ es ! i) [0..<length es])"
    using vector_lines_ok [OF v(2), of "[0..<length es]" "\<lambda>i s. ''VECTOR['' @ print_nat i @ ''], Value : '' @ s"] c i
      vector_indices_ok [OF v(2)] by simp
  moreover obtain x where "vectorFreeDeep v' = Inr x" using vok_freeDeep [OF v(2)] by blast
  ultimately show ?thesis using g v(1) ck(2) by (simp add: deserializeCommand_def Let_def)
qed

text \<open>A row group of one column whose vector holds two values.\<close>

definition shown_db :: "(string \<times> string) list redisDb" where
  "shown_db = new_db\<lparr>ddict := [(''D:{1:2}:G:1'', 0, createObject (HashObj (OBJ_ENCODING_REL
     [(''1:1'', sample_column\<lparr>vdata := Some [Dat (Some ''ab''), Dat (Some ''7''), Raw], vcount := 2\<rparr>)])))], fresh := 1\<rparr>"

theorem rockskey_cvdeserial_witness:
  "\<exists>db'. rocksdbkeyCommand al_write shown_db [''ROCKSKEY'', ''D:{1:2}:G:1''] = Inr (TableOk, db') \<and>
     deserializeCommand al_get db' [''CVDESERIAL'', ''D:{1:2}:G:1:F:1:1''] =
       Inr (TableBulks [''VECTOR[0], Value : ab'', ''VECTOR[1], Value : 7''])"
proof -
  let ?vec = "sample_column\<lparr>vdata := Some [Dat (Some ''ab''), Dat (Some ''7''), Raw], vcount := 2\<rparr>"
  have v: "vok ?vec (map Some [''ab'', ''7''])" by (simp add: vok_def sample_column_def)
  have t: "col_text (int (vtype ?vec)) [''ab'', ''7''] = ''V:{T:1:N:2}:D:[ab:7]''" by code_simp
  have s: "vectorSerialize ?vec = Inr ''V:{T:1:N:2}:D:[ab:7]''" using vectorSerialize_layout [OF v] t by simp
  have m: "map_of (ddict shown_db) ''D:{1:2}:G:1'' = Some (0, createObject (HashObj (OBJ_ENCODING_REL [(''1:1'', ?vec)])))"
    by (simp add: shown_db_def)
  have "\<exists>db'. rocksdbkeyCommand al_write shown_db [''ROCKSKEY'', ''D:{1:2}:G:1''] = Inr (TableOk, db')"
    using m s by (simp add: rocksdbkeyCommand_def Let_def cstr_def lookupSDSKeyFordict_def prepareWriteToRocksDB_def
      relation_of_def createObject_def field_put_def rocks_write_def al_write_def)
  then obtain db' where d: "rocksdbkeyCommand al_write shown_db [''ROCKSKEY'', ''D:{1:2}:G:1''] = Inr (TableOk, db')" by blast
  have p: "print_nat 0 = ''0''" "print_nat 1 = ''1''" by code_simp+
  from rockskey_cvdeserial [OF al_kv_laws d m, of "[(''1:1'', ?vec)]" "''1:1''" ?vec "[''ab'', ''7'']" "''CVDESERIAL''"] v t d p
  show ?thesis by (simp add: createObject_def plain_def upt_rec)
qed

section \<open>The listing of the eviction queue\<close>

lemma queue_status_lists:
  assumes "i \<le> length xs" and "\<forall>j < length xs. buf_get (EvictQueue db) (r + j) = Inr (Some (xs ! j))"
    and "\<forall>j < length xs. status_lines db (r + j) (xs ! j) = Inr (ls j)"
  shows "queue_status_loop db (r + i) (r + length xs) = Inr (concat (map ls [i..<length xs]))"
  using assms(1)
proof (induction "length xs - i" arbitrary: i)
  case 0
  then show ?case by (simp add: queue_status_loop.simps)
next
  case (Suc n)
  then have i: "i < length xs" by simp
  have "queue_status_loop db (r + Suc i) (r + length xs) = Inr (concat (map ls [Suc i..<length xs]))"
    using Suc.hyps(1) [of "Suc i"] Suc.hyps(2) i by simp
  moreover have "r + i < length (buf (EvictQueue db))"
    using assms(2) i by (force simp: buf_get_def split: if_splits)
  ultimately show ?case
    using assms(2,3) i by (subst queue_status_loop.simps) (simp add: upt_conv_Cons [OF i])
qed

lemma queue_status_runs_off: "end_idx < idx \<Longrightarrow> \<exists>f. queue_status_loop db idx end_idx = Inl f"
proof (induction db idx end_idx rule: queue_status_loop.induct)
  case (1 db idx end_idx)
  show ?case
  proof (cases "queue_status_loop db idx end_idx")
    case (Inr ls)
    then obtain rest where "queue_status_loop db (idx + 1) end_idx = Inr rest" "idx < length (buf (EvictQueue db))"
      using 1(2) by (subst (asm) queue_status_loop.simps) (auto simp: bindr_eq_Inr split: if_splits)
    with Inr 1 show ?thesis by (subst (asm) (1) queue_status_loop.simps) (auto simp: bindr_eq_Inr split: if_splits)
  qed blast
qed

text \<open>
  The listing gives the fields of the waiting row groups, oldest first, when the window of the queue
  does not go around the end of the buffer; when it does, the command reads past the buffer.
\<close>

lemma getQueueStatus_exact:
  assumes "qholds (EvictQueue db) xs" and "xs \<noteq> []"
    and "\<forall>j < length xs. status_lines db (rear (EvictQueue db) + j) (xs ! j) = Inr (ls j)"
  shows "if rear (EvictQueue db) + length xs < qmax (EvictQueue db)
    then getQueueStatusCommand db = Inr (TableBulks (concat (map ls [0..<length xs])))
    else \<exists>f. getQueueStatusCommand db = Inl f"
proof (cases "rear (EvictQueue db) + length xs < qmax (EvictQueue db)")
  case True
  let ?q = "EvictQueue db"
  have f: "front ?q = rear ?q + length xs" using assms(1) True by (simp add: qholds_def)
  have "\<forall>j < length xs. buf_get ?q (rear ?q + j) = Inr (Some (xs ! j))"
    using assms(1) True by (auto simp: qholds_def buf_get_def)
  from queue_status_lists [OF _ this assms(3), of 0] f assms(2) True show ?thesis
    by (simp add: getQueueStatusCommand_def Let_def)
next
  case False
  let ?q = "EvictQueue db"
  have "front ?q = rear ?q + length xs - qmax ?q" "length xs < qmax ?q" "rear ?q < qmax ?q"
    using assms(1) False by (auto simp: qholds_def mod_if)
  then have "front ?q < rear ?q" using False by simp
  then show ?thesis
    using False queue_status_runs_off [of "front ?q" "rear ?q" db] by (auto simp: getQueueStatusCommand_def Let_def)
qed

text \<open>\<open>CVSERIAL\<close> of a key that exists never comes to its end.\<close>

lemma serializeCommand_faults:
  "lookupSDSKeyFordict db (cstr (argv ! 1)) \<noteq> None \<Longrightarrow> \<exists>f. serializeCommand db argv = Inl f"
  by (auto simp: serializeCommand_def Let_def bindr_def split: sum.splits)

end
