(* ===== verification/Spec2Isabelle.thy ===== *)
theory Spec2Isabelle
  imports Reach FilterSem Slot TableCmd
begin

text \<open>
  \<^bold>\<open>ADDB\<close> is a fork of Redis with relational storage: tables are kept as row groups of column vectors in
  memory and moved to a persistent store (RocksDB) when memory runs short. This development models the
  relational layer and the parts of the server it stands on, and proves that together they keep
  every row.

  \<^bold>\<open>The parts and how they interact.\<close> A client sends \<open>FPWRITE\<close> with a partition key \<open>D:{table:partition}\<close>
  and values row by row. The command parses the key, takes the number of the current row group from the
  metadata, appends each value to the column vector of its field in the row group (an entry of the main
  dictionary), updates the counters and enters a new row group into the eviction queue. \<open>FPSCAN\<close> reads the
  row groups of a partition in order, each from memory or from the store. \<open>METAKEYS\<close> lists the partitions that
  satisfy a filter in postfix form. When memory is short, the main thread moves row groups from the eviction
  queue to the free queue, marks them as being flushed and hands them to a background thread, which writes
  them in one batch and marks them as persisted; the main thread then drops persisted row groups in the order
  of the free queue. In a cluster the slot of the key decides which node serves a command.

  \<^bold>\<open>Theories, sources and what is shown.\<close>

  \<^item> \<open>Prelude\<close>, \<open>CLib\<close>: faults as values of a sum type (\<open>'a res\<close>, \<open>bindr\<close>), C integers with wrap-around
    (\<open>c_int\<close>, \<open>c_long\<close>), C strings as lists of characters without the terminator, decimal conversion,
    \<open>strtok_r\<close>, \<open>strcasecmp\<close>.
  \<^item> \<open>Util\<close>, \<open>Glob\<close> (\<open>util.c\<close>): \<open>ll2string\<close> and \<open>string2ll\<close> are inverse on exactly the decimal texts; the
    two-pointer matcher decides the language of the pattern, and its over-reads are characterised.
  \<^item> \<open>Sds\<close> (\<open>sds.c\<close>): splitting, trimming, joining and quoting on byte lists; splitting a quoted line gives
    the strings back.
  \<^item> \<open>Vec\<close>, \<open>ColVec\<close> (\<open>stl.c\<close>): the growable array with unwritten slots and the stack on it refine lists (locale
    \<open>lifo\<close>); the text of a column vector, its two parsers and the iterator in place, which yields the elements
    that were written.
  \<^item> \<open>CQueue\<close> (\<open>circular_queue.c\<close>): the ring buffers of entries with their growth refine first-in first-out
    queues (locale \<open>fifo\<close>); growth of a queue whose rear has moved drops entries.
  \<^item> \<open>Dict\<close> (\<open>dict.c\<close>): two tables of chains with incremental rehashing refine a finite map (locale
    \<open>dictionary\<close>), in every stage of rehashing; the hash function is a parameter. The dictionaries
    of objects and databases use the same interface on association lists, the second interpretation of the locale (in
    \<open>HashType\<close>).
  \<^item> \<open>HashType\<close> (\<open>t_hash.c\<close>, \<open>object.c\<close>, \<open>ziplist.c\<close>): hash objects in both encodings refine one map across the
    conversion.
  \<^item> \<open>RelKey\<close>, \<open>Meta\<close> (\<open>addb_relational.c\<close>, \<open>global.h\<close>): keys parse back and do not collide; the counters of
    row groups and rows.
  \<^item> \<open>Db\<close> (\<open>db.c\<close>, \<open>lazyfree.c\<close>): the dictionaries of a database with the addresses of entries, lookup, insertion,
    deletion, expiry and emptying.
  \<^item> \<open>Store\<close>, \<open>Rows\<close>, \<open>Partition\<close>, \<open>Scan\<close> (\<open>addb_table.c\<close>, \<open>addb_relational.c\<close>): \<open>fpWriteCommand\<close> and
    \<open>fpScanCommand\<close> as whole commands. \<open>partition_holds\<close> says that a database holds a list of row groups, wherever
    they are; \<open>FPWRITE\<close> appends its rows and leaves other partitions alone, \<open>FPSCAN\<close> answers with the chosen
    columns of all rows.
  \<^item> \<open>Tiering\<close>, \<open>Flush\<close> (\<open>evict.c\<close>, \<open>bio.c\<close>, \<open>lazyfree.c\<close>): batches, marks, clearing and the loop
    that frees memory; a batch leaves the texts of exactly its vectors in the store, and the loop that fills it ends.
  \<^item> \<open>Interleave\<close>, \<open>Reach\<close>: the step relation of writes, batches, background writes and marks and clearing, with
    its invariant. No step faults, freeing memory is a sequence of steps, and the queues drain.
  \<^item> \<open>PartFilter\<close>, \<open>FilterSem\<close> (\<open>addb_relational.c\<close>, \<open>metakeysCommand\<close>): conditions parse back from their text, are
    well typed, and their evaluation agrees with their meaning; \<open>METAKEYS\<close> selects exactly the partitions that satisfy
    all statements.
  \<^item> \<open>TableCmd\<close> (\<open>addb_table.c\<close>): the maintenance commands; what \<open>ROCKSKEY\<close> writes \<open>CVDESERIAL\<close> reads.
  \<^item> \<open>Slot\<close> (\<open>crc16.c\<close>, \<open>cluster.c\<close>, \<open>db.c\<close>, \<open>server.c\<close>): the checksum is the remainder of its polynomial, all keys
    of a partition have one slot, and the node that serves a command is characterised.
  \<^item> This theory: scans return exactly what was written in every reachable state, and what becomes of
    a partition whose slot migrates.

  \<^bold>\<open>State and operations.\<close> A \<open>struct\<close> is a record with the field names of the code, an operation is a function from
  the state before to the state after or to a fault: a failed assertion, a panic, a null dereference, a division by zero,
  an access out of bounds or after release, a read of unwritten memory, a wrong cast. A pointer to an entry is a number,
  and an entry that left its dictionary is found by no address, so that use after release is a fault of the model.
  Output to a client is the reply as a value.

  \<^bold>\<open>Hypotheses.\<close> RocksDB is the pair of parameters \<open>rget\<close> and \<open>rwrite\<close>; \<open>kv_laws\<close> is its documented behaviour that
  after a batch was written a read returns what was put last under the key and is unchanged for other keys. An
  association list satisfies it and is the instance of the witnesses. \<open>sizes_set\<close> asks for positive sizes in the
  configuration, which the code divides by. Allocation does not fail, except where a negative size is asked for, which
  ends the process.

  \<^bold>\<open>Bounds and loops.\<close> No definition is cut off by fuel: loops are structural recursion or have a termination
  measure, and the loop that fills a batch is a \<open>partial_function\<close> in the option type, for which
  \<open>batchTiering_ends\<close> shows that it returns. The loop that frees memory recurses over the list of memory
  readings it makes, and the statement on it holds for every list. Rows and counters are bounded by the range of \<open>int\<close>
  where the code stores them as such; keys are bounded by the buffers of the parsers (\<open>key_ok\<close>). Values are
  those that the text form keeps: without NUL, colon and closing bracket (\<open>clean\<close>).

  \<^bold>\<open>Not modelled.\<close> The event loop, sockets and the wire protocol; RDB and AOF files; replication,
  the gossip and slot assignment of the cluster, and Sentinel; Lua scripts and modules, which run third-party code;
  transactions, publish and subscribe and blocking operations; the other data types (strings as commands, lists, sets,
  sorted sets, bit maps, HyperLogLog, geography) and \<open>SORT\<close>, which the relational layer does not use; the byte
  layouts of ziplists and of the headers of strings; digests, compression and random numbers; the expiry cycle;
  diagnostics; the allocator and defragmentation; client programs and test code; the calls that open and close RocksDB. Of the
  modelled files, what is left out is named in the theory: iterators and cursors of \<open>dict.c\<close>, the \<open>HSET\<close> family of
  \<open>t_hash.c\<close>, formatted printing of \<open>sds.c\<close>, the generic key commands of \<open>db.c\<close>, floating point and paths of
  \<open>util.c\<close>, and the threads and locks of \<open>bio.c\<close>: the interleaving of the two threads is taken at the level of their
  updates of the database. Log output is left out everywhere.
\<close>

section \<open>Properties of the whole\<close>

lemma scan_reachable:
  assumes "run rget rwrite srv M st es w" and "kv_laws rget rwrite" and "sizes_set srv"
    and "key_ok tbl part" and "cols_ok (M tbl part) cols" and "cols \<noteq> []"
  shows "fpScanCommand rget srv b [command_key tbl part, sdsjoinsds (map print_int cols) '',''] (tdb (fst w)) =
    Inr (ReplyBulks (chosen cols (rows_of es tbl part)), tdb (fst w))"
proof -
  have inv: "tier_inv rget srv M es w" by (rule run_inv [OF assms(1-3)])
  obtain gs where gs: "partition_holds rget srv (M tbl part) (tdb (fst w)) tbl part gs" "concat gs = rows_of es tbl part" "sizes_ok gs"
    by (rule tier_inv_partition [OF inv assms(4)])
  have "meta_ok (tdb (fst w))" "0 < columnvector_size srv"
    using inv assms(3) by (simp_all add: tier_inv_def data_inv_def sizes_set_def)
  from fpScan_ok [OF assms(4) this(1) gs(1,3) this(2) assms(5,6), of b] gs(2) show ?thesis by simp
qed

text \<open>
  C1. No row is lost and none is made up. After any interleaving of writes to any partitions,
  batches handed to the background thread, the writes and marks of that thread, and the clearing of
  memory, \<open>FPSCAN\<close> of a partition answers with the chosen columns of exactly the rows that were
  written to it, in the order they were written, and changes nothing. The hypotheses are that the
  store returns what was put last under a key, that the two sizes of the configuration are positive
  and that the column ids exist.
\<close>

theorem scan_returns_written_rows:
  assumes "run rget rwrite srv M st es w" and "kv_laws rget rwrite" and "sizes_set srv"
    and "key_ok tbl part" and "cols_ok (M tbl part) cols" and "cols \<noteq> []"
  shows "fpScanCommand rget srv b [command_key tbl part, sdsjoinsds (map print_int cols) '',''] (tdb (fst w)) =
    Inr (ReplyBulks (concat (map (\<lambda>row. map (\<lambda>col. row ! nat (col - 1)) cols) (rows_of es tbl part))), tdb (fst w))"
  using scan_reachable [OF assms] by (simp add: chosen_def)

text \<open>The witness reads a row after it left memory: the dictionary is empty.\<close>

lemma sample_cleared:
  "\<exists>es s. run al_get al_write tier_server sample_schema [] (sample_write # Tier # es) (s, []) \<and> set es \<subseteq> {Flush, Mark, Clear} \<and>
     ddict (tdb s) = []"
proof -
  obtain s a where s: "run al_get al_write tier_server sample_schema [] [sample_write, Tier] (s, [])" "qholds (FreeQueue (tdb s)) [a]"
    "addresses (tdb s) = {a}" using sample_tiered by blast
  obtain es w where w: "set es \<subseteq> {Flush, Mark}" "run al_get al_write tier_server sample_schema [] ([sample_write, Tier] @ es) w"
    "bio_batch_tiering (fst w) = []" "snd w = []" "addresses (tdb (fst w)) = {a}" "qholds (FreeQueue (tdb (fst w))) [a]"
    using background_drains [OF s(1) al_kv_laws sample_sizes] s(2,3) by auto
  have "run al_get al_write tier_server sample_schema [] ([sample_write, Tier] @ es) (fst w, [])" using w(2,4) by (metis prod.collapse)
  from clearing_drains [OF al_kv_laws sample_sizes(1) this w(3,6)] w(5) obtain s' where
    "run al_get al_write tier_server sample_schema [] (sample_write # Tier # es @ [Clear]) (s', [])" "addresses (tdb s') = {}" by auto
  then show ?thesis using w(1) by (intro exI [of _ "es @ [Clear]"] exI [of _ s']) (auto simp: addresses_def)
qed

lemma rows_of_background: "set es \<subseteq> {Tier, Flush, Mark, Clear} \<Longrightarrow> rows_of es tbl part = []"
  by (induction es) auto

theorem scan_returns_written_rows_witness:
  "\<exists>es s. run al_get al_write tier_server sample_schema [] (sample_write # Tier # es) (s, []) \<and> ddict (tdb s) = [] \<and>
     fpScanCommand al_get tier_server [] [command_key 1 ''2'', sdsjoinsds (map print_int [2, 1]) '',''] (tdb s) =
       Inr (ReplyBulks [''b'', ''a''], tdb s)"
proof -
  obtain es s where s: "run al_get al_write tier_server sample_schema [] (sample_write # Tier # es) (s, [])"
    "set es \<subseteq> {Flush, Mark, Clear}" "ddict (tdb s) = []" using sample_cleared by blast
  have k: "key_ok 1 ''2''" using sample_write_ok by (simp add: write_ok_def)
  have c: "cols_ok (sample_schema 1 ''2'') [2, 1]" "[2, 1 :: int] \<noteq> []" by (simp_all add: cols_ok_def sample_schema_def)
  have "rows_of es 1 ''2'' = []" using s(2) by (intro rows_of_background) auto
  with scan_returns_written_rows [OF s(1) al_kv_laws sample_sizes(1) k c, of "[]"] s show ?thesis by auto
qed

section \<open>Partitions in a cluster\<close>

text \<open>The key that clients send is the key of no entry: entries carry a row group.\<close>

lemma command_key_not_data_key:
  assumes "part_ok p"
  shows "command_key t part \<noteq> dkey u p g"
proof
  assume "command_key t part = dkey u p g"
  then have "last (command_key t part) = last (dkey u p g)" by simp
  then have "CHR ''}'' \<in> set (print_int (int g + 1))"
    using last_in_set [of "print_int (int g + 1)"] by (simp add: command_key_def dkey_def data_key_text_def)
  with print_int_excludes(2) show False by simp
qed

lemma reachable_command_key:
  assumes "run rget rwrite srv M st es w" and "kv_laws rget rwrite" and "sizes_set srv"
  shows "map_of (ddict (tdb (fst w))) (command_key tbl part) = None" and "expires (tdb (fst w)) = []"
proof -
  have inv: "data_inv rget srv M es (tdb (fst w))" using run_inv [OF assms] by (simp add: tier_inv_def)
  then show "expires (tdb (fst w)) = []" by (simp add: data_inv_def)
  show "map_of (ddict (tdb (fst w))) (command_key tbl part) = None"
  proof (rule ccontr)
    assume "map_of (ddict (tdb (fst w))) (command_key tbl part) \<noteq> None"
    then obtain a v where "map_of (ddict (tdb (fst w))) (command_key tbl part) = Some (a, v)" by auto
    with inv obtain t p g where "key_ok t p" "command_key tbl part = dkey t p g" unfolding data_inv_def by blast
    then show False using command_key_not_data_key [of p tbl part t g] by (simp add: key_ok_def)
  qed
qed

lemma migrating_redirects:
  assumes "run rget rwrite srv M st es w" and "kv_laws rget rwrite" and "sizes_set srv" and "key_ok tbl part"
    and "state_ok cl" and "slots cl (keyHashSlot (command_key tbl part)) = Some (myself cl)"
    and "migrating_slots_to cl (keyHashSlot (command_key tbl part)) = Some n"
    and "cmd = fpwrite_command \<or> cmd = fpscan_command"
  shows "getNodeByQuery rget srv c cmd (name # command_key tbl part # args) cl (tdb (fst w)) =
    Inr ((Some n, REDIR_ASK, Some (keyHashSlot (command_key tbl part))), tdb (fst w))"
proof (rule migrating_key_missing [OF _ _ assms(5-7)])
  show "command_keys (query_commands c cmd (name # command_key tbl part # args)) = Inr [command_key tbl part]"
    using assms(8) fpwrite_keys [of name] fpscan_keys [of name]
    by (auto simp: query_commands_def fpwrite_command_def fpscan_command_def)
  show "proc cmd = OtherCommand" using assms(8) by (auto simp: fpwrite_command_def fpscan_command_def)
qed (use reachable_command_key [OF assms(1-3)] in simp_all)

text \<open>
  C38. A partition cannot be used while its slot migrates. In every reachable state, whatever rows the
  partition holds, this node answers \<open>FPWRITE\<close> and \<open>FPSCAN\<close> of a partition in a slot that it owns and
  is migrating with \<open>ASK\<close>, although all its rows are still here: the key that clients send is not
  the key of an entry, so the test for missing keys always finds it missing. A scan here would
  answer with all rows.
\<close>

theorem migrating_partition_asks:
  assumes "run rget rwrite srv M st es w" and "kv_laws rget rwrite" and "sizes_set srv"
    and "key_ok tbl part" and "cols_ok (M tbl part) cols" and "cols \<noteq> []"
    and "state_ok cl" and "slots cl (keyHashSlot (command_key tbl part)) = Some (myself cl)"
    and "migrating_slots_to cl (keyHashSlot (command_key tbl part)) = Some n"
    and "cmd = fpwrite_command \<or> cmd = fpscan_command"
  shows "getNodeByQuery rget srv c cmd (name # command_key tbl part # args) cl (tdb (fst w)) =
      Inr ((Some n, REDIR_ASK, Some (keyHashSlot (command_key tbl part))), tdb (fst w)) \<and>
    fpScanCommand rget srv b [command_key tbl part, sdsjoinsds (map print_int cols) '',''] (tdb (fst w)) =
      Inr (ReplyBulks (concat (map (\<lambda>row. map (\<lambda>col. row ! nat (col - 1)) cols) (rows_of es tbl part))), tdb (fst w))"
  using migrating_redirects [OF assms(1-4,7-10)] scan_reachable [OF assms(1-6)] by (simp add: chosen_def)

definition migrating_node :: cluster where
  "migrating_node =
     two_nodes\<lparr>slots := (\<lambda>slot. if slot < 16384 then Some 0 else None),
       migrating_slots_to := (\<lambda>slot. if slot < 16384 then Some 1 else None)\<rparr>"

theorem migrating_partition_asks_witness:
  "\<exists>es s. run al_get al_write tier_server sample_schema [] (sample_write # Tier # es) (s, []) \<and>
     getNodeByQuery al_get tier_server plain_client fpscan_command [''FPSCAN'', command_key 1 ''2'', ''2,1''] migrating_node (tdb s) =
       Inr ((Some 1, REDIR_ASK, Some (keyHashSlot (command_key 1 ''2''))), tdb s) \<and>
     fpScanCommand al_get tier_server [] [command_key 1 ''2'', sdsjoinsds (map print_int [2, 1]) '',''] (tdb s) =
       Inr (ReplyBulks [''b'', ''a''], tdb s)"
proof -
  obtain es s where s: "run al_get al_write tier_server sample_schema [] (sample_write # Tier # es) (s, [])"
    "set es \<subseteq> {Flush, Mark, Clear}" using sample_cleared by blast
  have k: "key_ok 1 ''2''" using sample_write_ok by (simp add: write_ok_def)
  have c: "cols_ok (sample_schema 1 ''2'') [2, 1]" "[2, 1 :: int] \<noteq> []" by (simp_all add: cols_ok_def sample_schema_def)
  have m: "state_ok migrating_node" "slots migrating_node (keyHashSlot (command_key 1 ''2'')) = Some (myself migrating_node)"
    "migrating_slots_to migrating_node (keyHashSlot (command_key 1 ''2'')) = Some 1"
    using keyHashSlot_bound by (simp_all add: migrating_node_def two_nodes_def)
  have "rows_of es 1 ''2'' = []" using s(2) by (intro rows_of_background) auto
  with migrating_partition_asks [OF s(1) al_kv_laws sample_sizes(1) k c m, of fpscan_command plain_client "''FPSCAN''" "[''2,1'']" "[]"] s(1)
  show ?thesis by auto
qed

end
